(* ===== verification/Prelude.thy ===== *)
theory Prelude
  imports Main "HOL-Library.Sublist"
begin

text \<open>
  What every component of the development shares: Rust's \<open>Result\<close> as a sum type with the
  behaviour of the question-mark operator, mutating operations as functions that return the new
  state beside their result, the loops \<open>for x in xs { ...? }\<close>, the string operations of the
  standard library that the sources call, and \<open>std::collections::HashMap\<close> as a list of entries
  with at most one entry per key (the iteration order is the order of the list, and no theorem of
  the development depends on it).
\<close>

named_theorems result_simps \<open>rewriting of the question-mark operator\<close>
named_theorems hash_simps \<open>views of hash maps after an operation\<close>

section \<open>Results\<close>

abbreviation Ok :: "'a \<Rightarrow> 'e + 'a" where
  "Ok \<equiv> Inr"

abbreviation Err :: "'e \<Rightarrow> 'e + 'a" where
  "Err \<equiv> Inl"

definition and_then :: "'e + 'a \<Rightarrow> ('a \<Rightarrow> 'e + 'b) \<Rightarrow> 'e + 'b" where
  "and_then r f = (case r of Inl e \<Rightarrow> Inl e | Inr x \<Rightarrow> f x)"

definition map_err :: "('e \<Rightarrow> 'f) \<Rightarrow> 'e + 'a \<Rightarrow> 'f + 'a" where
  "map_err f r = (case r of Inl e \<Rightarrow> Inl (f e) | Inr x \<Rightarrow> Inr x)"

definition ensure :: "bool \<Rightarrow> 'e \<Rightarrow> 'e + unit" where
  "ensure b e = (if b then Inr () else Inl e)"

definition ok_option :: "'e + 'a \<Rightarrow> 'a option" where
  "ok_option r = (case r of Inl _ \<Rightarrow> None | Inr x \<Rightarrow> Some x)"

definition ok_or :: "'e \<Rightarrow> 'a option \<Rightarrow> 'e + 'a" where
  "ok_or e v = (case v of None \<Rightarrow> Inl e | Some x \<Rightarrow> Inr x)"

fun is_ok :: "'e + 'a \<Rightarrow> bool" where
  "is_ok (Inl _) = False"
| "is_ok (Inr _) = True"

fun try_fold :: "('b \<Rightarrow> 'a \<Rightarrow> 'e + 'b) \<Rightarrow> 'b \<Rightarrow> 'a list \<Rightarrow> 'e + 'b" where
  "try_fold f acc [] = Inr acc"
| "try_fold f acc (x # xs) = and_then (f acc x) (\<lambda>acc'. try_fold f acc' xs)"

fun try_map :: "('a \<Rightarrow> 'e + 'b) \<Rightarrow> 'a list \<Rightarrow> 'e + 'b list" where
  "try_map f [] = Inr []"
| "try_map f (x # xs) = and_then (f x) (\<lambda>y. and_then (try_map f xs) (\<lambda>ys. Inr (y # ys)))"

lemma and_then_simps [simp]:
  "and_then (Inl e) f = Inl e"
  "and_then (Inr x) f = f x"
  by (simp_all add: and_then_def)

lemma and_then_Ok_iff [result_simps]:
  "and_then r f = Inr y \<longleftrightarrow> (\<exists>x. r = Inr x \<and> f x = Inr y)"
  by (cases r) simp_all

lemma and_then_Err_iff [result_simps]:
  "and_then r f = Inl e \<longleftrightarrow> r = Inl e \<or> (\<exists>x. r = Inr x \<and> f x = Inl e)"
  by (cases r) simp_all

lemma and_then_cong [fundef_cong]:
  "r = r' \<Longrightarrow> (\<And>x. r' = Inr x \<Longrightarrow> f x = g x) \<Longrightarrow> and_then r f = and_then r' g"
  by (cases r') simp_all

lemma map_err_simps [simp]:
  "map_err f (Inl e) = Inl (f e)"
  "map_err f (Inr x) = Inr x"
  by (simp_all add: map_err_def)

lemma map_err_Ok_iff [result_simps]: "map_err f r = Inr y \<longleftrightarrow> r = Inr y"
  by (cases r) simp_all

lemma ensure_Ok_iff [simp]: "ensure b e = Inr u \<longleftrightarrow> b"
  by (simp add: ensure_def)

lemma ensure_simps [simp]:
  "ensure True e = Inr ()"
  "ensure False e = Inl e"
  by (simp_all add: ensure_def)

lemma ok_or_simps [simp]:
  "ok_or e None = Inl e"
  "ok_or e (Some x) = Inr x"
  by (simp_all add: ok_or_def)

lemma ok_or_Ok_iff [result_simps]: "ok_or e v = Inr x \<longleftrightarrow> v = Some x"
  by (cases v) simp_all

lemma ok_option_simps [simp]:
  "ok_option (Inl e) = None"
  "ok_option (Inr x) = Some x"
  by (simp_all add: ok_option_def)

lemma ok_option_Some_iff [simp]: "ok_option r = Some x \<longleftrightarrow> r = Inr x"
  by (cases r) simp_all

lemma option_eqI: "(\<And>v. x = Some v \<longleftrightarrow> y = Some v) \<Longrightarrow> x = y"
  by (cases x; cases y) auto

lemma is_ok_iff: "is_ok r \<longleftrightarrow> (\<exists>x. r = Inr x)"
  by (cases r) simp_all

lemma try_map_Ok_iff: "try_map f xs = Inr ys \<longleftrightarrow> list_all2 (\<lambda>x y. f x = Inr y) xs ys"
proof (induction xs arbitrary: ys)
  case Nil
  then show ?case by auto
next
  case (Cons x xs)
  then show ?case by (cases ys) (auto simp: result_simps)
qed

lemma try_map_all_Ok: "(\<And>x. x \<in> set xs \<Longrightarrow> f x = Inr (g x)) \<Longrightarrow> try_map f xs = Inr (map g xs)"
  by (induction xs) simp_all

text \<open>An invariant of the accumulator survives the loop; so does the first error.\<close>

lemma try_fold_invariant:
  assumes "try_fold f acc xs = Inr acc'" and "I acc"
    and "\<And>a x a'. x \<in> set xs \<Longrightarrow> I a \<Longrightarrow> f a x = Inr a' \<Longrightarrow> I a'"
  shows "I acc'"
  using assms
proof (induction xs arbitrary: acc)
  case Nil
  then show ?case by simp
next
  case (Cons x xs)
  then obtain a where a: "f acc x = Inr a" "try_fold f a xs = Inr acc'"
    by (auto simp: result_simps)
  moreover from a Cons.prems have "I a" by (auto intro: Cons.prems(3))
  ultimately show ?case using Cons.prems(3) by (auto intro: Cons.IH)
qed

lemma try_fold_append:
  "try_fold f acc (xs @ ys) = and_then (try_fold f acc xs) (\<lambda>a. try_fold f a ys)"
proof (induction xs arbitrary: acc)
  case Nil
  then show ?case by simp
next
  case (Cons x xs)
  then show ?case by (cases "f acc x") simp_all
qed

section \<open>Operations on a mutable state\<close>

definition op_bind :: "'s \<times> ('e + 'a) \<Rightarrow> ('a \<Rightarrow> 's \<Rightarrow> 's \<times> ('f + 'b)) \<Rightarrow> ('e \<Rightarrow> 'f) \<Rightarrow> 's \<times> ('f + 'b)" where
  "op_bind p f ctx = (case snd p of Inl e \<Rightarrow> (fst p, Inl (ctx e)) | Inr x \<Rightarrow> f x (fst p))"

fun for_each :: "('a \<Rightarrow> 's \<Rightarrow> 's \<times> ('e + unit)) \<Rightarrow> 'a list \<Rightarrow> 's \<Rightarrow> 's \<times> ('e + unit)" where
  "for_each f [] s = (s, Inr ())"
| "for_each f (x # xs) s = op_bind (f x s) (\<lambda>_. for_each f xs) id"

lemma op_bind_simps [simp]:
  "op_bind (s, Inl e) f ctx = (s, Inl (ctx e))"
  "op_bind (s, Inr x) f ctx = f x s"
  by (simp_all add: op_bind_def)

lemma op_bind_Ok_iff [result_simps]:
  "op_bind p f ctx = (s', Inr y) \<longleftrightarrow> (\<exists>s x. p = (s, Inr x) \<and> f x s = (s', Inr y))"
  by (cases p; cases "snd p") auto

lemma op_bind_cong [fundef_cong]:
  "p = p' \<Longrightarrow> (\<And>s x. p' = (s, Inr x) \<Longrightarrow> f x s = g x s) \<Longrightarrow> op_bind p f ctx = op_bind p' g ctx"
  by (cases p'; cases "snd p'") auto

lemma op_is_ok: "is_ok (snd p) \<Longrightarrow> \<exists>s x. p = (s, Inr x)"
  by (cases p; cases "snd p") auto

lemma for_each_invariant:
  assumes "for_each f xs s = (s', r)" and "I s"
    and "\<And>x t t' q. x \<in> set xs \<Longrightarrow> I t \<Longrightarrow> f x t = (t', q) \<Longrightarrow> I t'"
  shows "I s'"
  using assms
proof (induction xs arbitrary: s)
  case Nil
  then show ?case by simp
next
  case (Cons x xs)
  obtain t q where t: "f x s = (t, q)" by fastforce
  with Cons.prems have "I t" by (auto intro: Cons.prems(3))
  with t Cons.prems(1) show ?case
    by (cases q) (auto intro: Cons.IH [OF _ _ Cons.prems(3)])
qed

text \<open>A loop whose every step succeeds and commutes with a view of the state.\<close>

lemma for_each_view:
  assumes "for_each f xs s = (s', Inr ())" and "I s"
    and "\<And>x t t'. x \<in> set xs \<Longrightarrow> I t \<Longrightarrow> f x t = (t', Inr ()) \<Longrightarrow> I t' \<and> view t' = g x (view t)"
  shows "I s' \<and> view s' = fold g xs (view s)"
  using assms
proof (induction xs arbitrary: s)
  case Nil
  then show ?case by simp
next
  case (Cons x xs)
  from Cons.prems(1) obtain t where t: "f x s = (t, Inr ())" "for_each f xs t = (s', Inr ())"
    by (auto simp: result_simps)
  with Cons.prems(2,3) have "I t" "view t = g x (view s)" by auto
  with t(2) Cons.prems(3) show ?case by (auto dest!: Cons.IH)
qed

section \<open>Strings\<close>

definition digit_char :: "nat \<Rightarrow> char" where
  "digit_char n = char_of (48 + n)"

fun show_nat :: "nat \<Rightarrow> string" where
  "show_nat n = (if n < 10 then [digit_char n] else show_nat (n div 10) @ [digit_char (n mod 10)])"

fun show_bool :: "bool \<Rightarrow> string" where
  "show_bool True = ''true''"
| "show_bool False = ''false''"

declare show_nat.simps [simp del]

definition starts_with :: "string \<Rightarrow> string \<Rightarrow> bool" where
  "starts_with s p \<longleftrightarrow> take (length p) s = p"

fun join :: "string \<Rightarrow> string list \<Rightarrow> string" where
  "join sep [] = []"
| "join sep [x] = x"
| "join sep (x # y # ys) = x @ sep @ join sep (y # ys)"

fun split_on :: "char \<Rightarrow> string \<Rightarrow> string list" where
  "split_on c [] = [[]]"
| "split_on c (x # xs) =
     (if x = c then [] # split_on c xs
      else (case split_on c xs of [] \<Rightarrow> [[x]] | y # ys \<Rightarrow> (x # y) # ys))"

definition splitn2 :: "char \<Rightarrow> string \<Rightarrow> string \<times> string option" where
  "splitn2 c s =
     (takeWhile (\<lambda>x. x \<noteq> c) s, if c \<in> set s then Some (tl (dropWhile (\<lambda>x. x \<noteq> c) s)) else None)"

lemma starts_with_iff_prefix: "starts_with s p \<longleftrightarrow> prefix p s"
  by (metis starts_with_def append_eq_conv_conj prefixE prefix_def take_is_prefix)

lemma starts_with_append [simp]: "starts_with (p @ s) p"
  by (simp add: starts_with_def)

lemma starts_with_Nil [simp]: "starts_with s []"
  by (simp add: starts_with_def)

lemma split_on_not_Nil [simp]: "split_on c s \<noteq> []"
  by (induction s) (auto split: list.splits)

lemma split_on_none: "c \<notin> set s \<Longrightarrow> split_on c s = [s]"
  by (induction s) auto

lemma split_on_append: "c \<notin> set x \<Longrightarrow> split_on c (x @ c # y) = x # split_on c y"
  by (induction x) auto

lemma split_on_join:
  "xs \<noteq> [] \<Longrightarrow> (\<And>x. x \<in> set xs \<Longrightarrow> c \<notin> set x) \<Longrightarrow> split_on c (join [c] xs) = xs"
proof (induction "[c]" xs rule: join.induct)
  case 1
  then show ?case by simp
next
  case (2 x)
  then show ?case by (simp add: split_on_none)
next
  case (3 x y ys)
  then show ?case by (simp add: split_on_append)
qed

lemma splitn2_none: "c \<notin> set s \<Longrightarrow> splitn2 c s = (s, None)"
  by (auto simp: splitn2_def takeWhile_eq_all_conv)

lemma splitn2_append: "c \<notin> set x \<Longrightarrow> splitn2 c (x @ c # y) = (x, Some y)"
  by (auto simp: splitn2_def takeWhile_append dropWhile_append)

lemma join_append:
  "xs \<noteq> [] \<Longrightarrow> ys \<noteq> [] \<Longrightarrow> join sep (xs @ ys) = join sep xs @ sep @ join sep ys"
proof (induction sep xs rule: join.induct)
  case (2 sep x)
  then show ?case by (cases ys) simp_all
qed simp_all

lemma join_snoc: "xs \<noteq> [] \<Longrightarrow> join sep (xs @ [y]) = join sep xs @ sep @ y"
  by (simp add: join_append)

section \<open>Hash maps and hash sets\<close>

text \<open>
  \<open>eqv\<close> projects a key to what its \<open>Eq\<close> and \<open>Hash\<close> implementations compare. Inserting under a
  key that is equal to a present one replaces the value and keeps the key that was there, as
  \<open>HashMap::insert\<close> does.
\<close>

type_synonym ('k, 'v) hashmap = "('k \<times> 'v) list"

fun hm_insert :: "('k \<Rightarrow> 'q) \<Rightarrow> 'k \<Rightarrow> 'v \<Rightarrow> ('k, 'v) hashmap \<Rightarrow> ('k, 'v) hashmap" where
  "hm_insert eqv k v [] = [(k, v)]"
| "hm_insert eqv k v ((k', v') # m) =
     (if eqv k' = eqv k then (k', v) # m else (k', v') # hm_insert eqv k v m)"

definition hm_get :: "('k \<Rightarrow> 'q) \<Rightarrow> 'k \<Rightarrow> ('k, 'v) hashmap \<Rightarrow> 'v option" where
  "hm_get eqv k m = map_option snd (find (\<lambda>e. eqv (fst e) = eqv k) m)"

definition hm_remove :: "('k \<Rightarrow> 'q) \<Rightarrow> 'k \<Rightarrow> ('k, 'v) hashmap \<Rightarrow> ('k, 'v) hashmap" where
  "hm_remove eqv k m = filter (\<lambda>e. eqv (fst e) \<noteq> eqv k) m"

definition hm_view :: "('k \<Rightarrow> 'q) \<Rightarrow> ('k, 'v) hashmap \<Rightarrow> 'q \<Rightarrow> 'v option" where
  "hm_view eqv m = map_of (map (\<lambda>e. (eqv (fst e), snd e)) m)"

definition hm_wf :: "('k \<Rightarrow> 'q) \<Rightarrow> ('k, 'v) hashmap \<Rightarrow> bool" where
  "hm_wf eqv m \<longleftrightarrow> distinct (map (\<lambda>e. eqv (fst e)) m)"

definition hs_insert :: "('k \<Rightarrow> 'q) \<Rightarrow> 'k \<Rightarrow> 'k list \<Rightarrow> 'k list" where
  "hs_insert eqv k ks = (if eqv k \<in> eqv ` set ks then ks else ks @ [k])"

lemma hm_get_view [hash_simps]: "hm_get eqv k m = hm_view eqv m (eqv k)"
  by (induction m) (auto simp: hm_get_def hm_view_def)

lemma hm_view_Nil [simp]: "hm_view eqv [] = Map.empty"
  by (simp add: hm_view_def)

lemma hm_view_Cons:
  "hm_view eqv ((k, v) # m) = (hm_view eqv m)(eqv k \<mapsto> v)"
  by (simp add: hm_view_def)

lemma hm_view_insert [hash_simps]: "hm_view eqv (hm_insert eqv k v m) = (hm_view eqv m)(eqv k \<mapsto> v)"
  by (induction eqv k v m rule: hm_insert.induct) (auto simp: hm_view_def fun_eq_iff)

lemma hm_view_remove [hash_simps]: "hm_view eqv (hm_remove eqv k m) = (hm_view eqv m)(eqv k := None)"
  by (induction m) (auto simp: hm_view_def hm_remove_def fun_eq_iff)

lemma dom_hm_view: "dom (hm_view eqv m) = (\<lambda>e. eqv (fst e)) ` set m"
  by (simp add: hm_view_def dom_map_of_conv_image_fst image_image)

lemma hm_insert_keys:
  "(\<lambda>e. eqv (fst e)) ` set (hm_insert eqv k v m) = insert (eqv k) ((\<lambda>e. eqv (fst e)) ` set m)"
  by (induction eqv k v m rule: hm_insert.induct) auto

lemma hm_insert_set_subset:
  "fst ` set (hm_insert eqv k v m) \<subseteq> insert k (fst ` set m)"
  by (induction eqv k v m rule: hm_insert.induct) auto

lemma hm_wf_Nil [simp]: "hm_wf eqv []"
  by (simp add: hm_wf_def)

lemma hm_wf_insert [simp]: "hm_wf eqv m \<Longrightarrow> hm_wf eqv (hm_insert eqv k v m)"
proof (induction eqv k v m rule: hm_insert.induct)
  case (2 eqv k v k' v' m)
  then show ?case
    using hm_insert_keys [of eqv k v m] by (cases "eqv k' = eqv k") (simp_all add: hm_wf_def)
qed (simp add: hm_wf_def)

lemma hm_wf_remove [simp]: "hm_wf eqv m \<Longrightarrow> hm_wf eqv (hm_remove eqv k m)"
  by (induction m) (auto simp: hm_wf_def hm_remove_def)

lemma hm_view_Some_mem: "hm_view eqv m q = Some v \<Longrightarrow> \<exists>k. (k, v) \<in> set m \<and> eqv k = q"
  by (force simp: hm_view_def dest!: map_of_SomeD)

lemma hm_view_mem: "hm_wf eqv m \<Longrightarrow> (k, v) \<in> set m \<Longrightarrow> hm_view eqv m (eqv k) = Some v"
  by (auto simp: hm_view_def hm_wf_def o_def intro!: map_of_is_SomeI rev_image_eqI)

lemma hm_insert_keys_all:
  "P k \<Longrightarrow> \<forall>e \<in> set m. P (fst e) \<Longrightarrow> \<forall>e \<in> set (hm_insert eqv k v m). P (fst e)"
  by (induction eqv k v m rule: hm_insert.induct) simp_all

lemma hm_insert_fst: "(k', v') \<in> set (hm_insert eqv k v m) \<Longrightarrow> k' = k \<or> k' \<in> fst ` set m"
  using hm_insert_set_subset [of eqv k v m] by force

lemma hm_insert_mem:
  "(k', v') \<in> set (hm_insert eqv k v m) \<Longrightarrow> v' = v \<and> eqv k' = eqv k \<or> (k', v') \<in> set m"
  by (induction eqv k v m rule: hm_insert.induct) (auto split: if_splits)

text \<open>Filling a map from a list of keys, with a value that depends on what keys are compared by.\<close>

lemma hm_view_fold_insert:
  "hm_view eqv (fold (\<lambda>k. hm_insert eqv k (g (eqv k))) ks m) q =
     (if q \<in> eqv ` set ks then Some (g q) else hm_view eqv m q)"
  by (induction ks arbitrary: m) (auto simp: hash_simps)

lemma hm_wf_fold_insert: "hm_wf eqv m \<Longrightarrow> hm_wf eqv (fold (\<lambda>k. hm_insert eqv k (g k)) ks m)"
  by (induction ks arbitrary: m) simp_all

lemma hm_fold_insert_keys:
  "fst ` set (fold (\<lambda>k. hm_insert eqv k (g k)) ks m) \<subseteq> set ks \<union> fst ` set m"
proof (induction ks arbitrary: m)
  case (Cons k ks)
  have "fst ` set (fold (\<lambda>k. hm_insert eqv k (g k)) ks (hm_insert eqv k (g k) m)) \<subseteq>
      set ks \<union> fst ` set (hm_insert eqv k (g k) m)" by (rule Cons.IH)
  also have "\<dots> \<subseteq> set (k # ks) \<union> fst ` set m"
    using hm_insert_set_subset [of eqv k "g k" m] by (simp, blast)
  finally show ?case by simp
qed simp

lemma try_fold_all_Ok:
  "(\<And>a x. x \<in> set xs \<Longrightarrow> f a x = Inr (g x a)) \<Longrightarrow> try_fold f acc xs = Inr (fold g xs acc)"
  by (induction xs arbitrary: acc) simp_all

lemma map_add_hm_view_Cons:
  "hm_wf eqv ((k, v) # m) \<Longrightarrow> f ++ hm_view eqv ((k, v) # m) = f(eqv k \<mapsto> v) ++ hm_view eqv m"
  using dom_hm_view [of eqv m] by (auto simp: hm_view_Cons hm_wf_def map_add_def fun_eq_iff split: option.splits)

lemma hs_insert_image: "eqv ` set (hs_insert eqv k ks) = insert (eqv k) (eqv ` set ks)"
  by (auto simp: hs_insert_def)

text \<open>Collecting the results of a partial function into a hash set.\<close>

definition hs_collect :: "('k \<Rightarrow> 'q) \<Rightarrow> ('a \<Rightarrow> 'k option) \<Rightarrow> 'a list \<Rightarrow> 'k list \<Rightarrow> 'k list" where
  "hs_collect eqv f = fold (\<lambda>x acc. case f x of None \<Rightarrow> acc | Some y \<Rightarrow> hs_insert eqv y acc)"

lemma hs_collect_image:
  "eqv ` set (hs_collect eqv f xs acc) = eqv ` (set acc \<union> {y. \<exists>x \<in> set xs. f x = Some y})"
proof (induction xs arbitrary: acc)
  case (Cons x xs)
  have "hs_collect eqv f (x # xs) acc = hs_collect eqv f xs (case f x of None \<Rightarrow> acc | Some y \<Rightarrow> hs_insert eqv y acc)"
    by (simp add: hs_collect_def)
  with Cons show ?case by (cases "f x") (auto simp: hs_insert_image image_Un)
qed (simp add: hs_collect_def)

lemma hs_collect_subset: "set (hs_collect eqv f xs acc) \<subseteq> set acc \<union> {y. \<exists>x \<in> set xs. f x = Some y}"
proof (induction xs arbitrary: acc)
  case (Cons x xs)
  have "hs_collect eqv f (x # xs) acc = hs_collect eqv f xs (case f x of None \<Rightarrow> acc | Some y \<Rightarrow> hs_insert eqv y acc)"
    by (simp add: hs_collect_def)
  moreover have "set (case f x of None \<Rightarrow> acc | Some y \<Rightarrow> hs_insert eqv y acc) \<subseteq> set acc \<union> {y. f x = Some y}"
    by (auto simp: hs_insert_def split: option.splits)
  ultimately show ?case using Cons [of "case f x of None \<Rightarrow> acc | Some y \<Rightarrow> hs_insert eqv y acc"] by auto
qed (simp add: hs_collect_def)

text \<open>The contract of a map that clients use: what a lookup returns after each operation.\<close>

locale finite_map =
  fixes empty :: 'm
    and insert :: "'k \<Rightarrow> 'v \<Rightarrow> 'm \<Rightarrow> 'm"
    and remove :: "'k \<Rightarrow> 'm \<Rightarrow> 'm"
    and get :: "'k \<Rightarrow> 'm \<Rightarrow> 'v option"
    and view :: "'m \<Rightarrow> 'q \<Rightarrow> 'v option"
    and proj :: "'k \<Rightarrow> 'q"
    and inv :: "'m \<Rightarrow> bool"
  assumes view_empty: "view empty = Map.empty"
    and view_insert: "view (insert k v m) = (view m)(proj k \<mapsto> v)"
    and view_remove: "view (remove k m) = (view m)(proj k := None)"
    and get_view: "get k m = view m (proj k)"
    and inv_empty: "inv empty"
    and inv_insert: "inv m \<Longrightarrow> inv (insert k v m)"
    and inv_remove: "inv m \<Longrightarrow> inv (remove k m)"
begin

lemma get_insert_same: "get k (insert k v m) = Some v"
  by (simp add: get_view view_insert)

lemma get_insert_other: "proj k' \<noteq> proj k \<Longrightarrow> get k' (insert k v m) = get k' m"
  by (simp add: get_view view_insert)

lemma view_insert_all:
  "view (fold (\<lambda>e. insert (fst e) (snd e)) kvs m) = view m ++ map_of (rev (map (\<lambda>e. (proj (fst e), snd e)) kvs))"
  by (induction kvs arbitrary: m) (simp_all add: view_insert map_add_def fun_eq_iff split: option.splits)

lemma inv_insert_all: "inv m \<Longrightarrow> inv (fold (\<lambda>e. insert (fst e) (snd e)) kvs m)"
  by (induction kvs arbitrary: m) (simp_all add: inv_insert)

end

interpretation string_map: finite_map "[]" "hm_insert id" "hm_remove id" "hm_get id" "hm_view id" id "hm_wf id"
  by unfold_locales (simp_all add: hash_simps)

end
