(* ===== verification/Datastore_Key.thy ===== *)
theory Datastore_Key
  imports Prelude
begin

text \<open>
  The keys of the data store (\<open>sources/api/datastore/src/key.rs\<close>) and the errors its operations
  return (\<open>error.rs\<close>). A Rust \<open>String\<close> is the list of its UTF-8 bytes, so \<open>len()\<close> is
  \<^const>\<open>length\<close>; every byte of a character outside ASCII is rejected by \<open>valid_character\<close> just as
  the character is.
\<close>

section \<open>Definitions\<close>

text \<open>The kinds of \<open>std::io::Error\<close> that the sources tell apart or can meet on the file system.\<close>

datatype io_kind =
    NotFound | NotADirectory | IsADirectory | AlreadyExists | DirectoryNotEmpty | InvalidFilename

text \<open>The \<open>msg\<close> texts of \<open>Error::InvalidKey\<close>.\<close>

datatype key_problem =
    Cannot_be_empty
  | Empty_key_segment
  | Invalid_character char
  | Unbalanced_quotes
  | Ends_with_separator
  | Segment_contains string char
  | Strip_prefix_matches_key string
  | Data_keys_need_a_segment
  | Meta_keys_have_one_segment

text \<open>
  \<open>error::Error\<close>. The variant \<open>Unreachable_macro\<close> is not one of its cases: it stands for the
  panic of \<open>unreachable!\<close> in the default method \<open>get_metadata\<close>, which a theorem rules out.
\<close>

datatype datastore_error =
    PathTraversal string
  | KeyRead string io_kind
  | DeleteKey "string list" io_kind
  | Io "string list" io_kind
  | Internal string
  | Corruption string "string list"
  | PathError
  | ListKeys io_kind
  | ListedKeyNotPresent string
  | ListedMetaNotPresent string string
  | InvalidKey string key_problem
  | KeyTooLong string nat
  | CheckConstraintExecution
  | ConstraintCheckReject string
  | Unreachable_macro "string list"

definition KEY_SEPARATOR :: char where
  [simp]: "KEY_SEPARATOR = CHR ''.''"

definition MAX_KEY_NAME_LENGTH :: nat where
  [simp]: "MAX_KEY_NAME_LENGTH = 255"

abbreviation quote_char :: char where
  "quote_char \<equiv> CHR 0x22"

datatype KeyType = Data | Meta

record key =
  key_name :: string
  key_segments :: "string list"

definition valid_character :: "char \<Rightarrow> bool" where
  "valid_character c \<longleftrightarrow>
     (let n = (of_char c :: nat) in
       (97 \<le> n \<and> n \<le> 122) \<or> (65 \<le> n \<and> n \<le> 90) \<or> (48 \<le> n \<and> n \<le> 57) \<or>
       c = CHR ''_'' \<or> c = CHR ''-'' \<or> c = CHR ''/'')"

definition check_key :: "KeyType \<Rightarrow> string \<Rightarrow> string list \<Rightarrow> datastore_error + unit" where
  "check_key key_type nm segs =
     and_then (ensure (length nm \<le> MAX_KEY_NAME_LENGTH) (KeyTooLong nm MAX_KEY_NAME_LENGTH)) (\<lambda>_.
       case key_type of
         Data \<Rightarrow> ensure (segs \<noteq> []) (InvalidKey nm Data_keys_need_a_segment)
       | Meta \<Rightarrow> ensure (length segs = 1) (InvalidKey nm Meta_keys_have_one_segment))"

text \<open>
  The character loop of \<open>parse_name_segments\<close>: the segments pushed so far, the segment being
  read, and whether the loop is inside quotes.
\<close>

fun parse_loop :: "string \<Rightarrow> string list \<Rightarrow> string \<Rightarrow> bool \<Rightarrow> string \<Rightarrow> datastore_error + string list" where
  "parse_loop nm segs seg in_quotes [] =
     and_then (ensure (\<not> in_quotes) (InvalidKey nm Unbalanced_quotes)) (\<lambda>_.
     and_then (ensure (seg \<noteq> []) (InvalidKey nm Ends_with_separator)) (\<lambda>_.
     Inr (segs @ [seg])))"
| "parse_loop nm segs seg in_quotes (c # cs) =
     (if c = quote_char then parse_loop nm segs seg (\<not> in_quotes) cs
      else if c = KEY_SEPARATOR then
        (if in_quotes then parse_loop nm segs (seg @ [c]) in_quotes cs
         else and_then (ensure (seg \<noteq> []) (InvalidKey nm Empty_key_segment)) (\<lambda>_.
           parse_loop nm (segs @ [seg]) [] in_quotes cs))
      else if valid_character c then parse_loop nm segs (seg @ [c]) in_quotes cs
      else Inl (InvalidKey nm (Invalid_character c)))"

definition parse_name_segments :: "string \<Rightarrow> datastore_error + string list" where
  "parse_name_segments nm =
     and_then (ensure (nm \<noteq> []) (InvalidKey nm Cannot_be_empty)) (\<lambda>_. parse_loop nm [] [] False nm)"

definition quote_segment :: "string \<Rightarrow> string" where
  "quote_segment seg = (if KEY_SEPARATOR \<in> set seg then quote_char # seg @ [quote_char] else seg)"

definition encode_segment :: "string list \<Rightarrow> string \<Rightarrow> datastore_error + string" where
  "encode_segment segs seg =
     (case find (\<lambda>c. \<not> (c = KEY_SEPARATOR \<or> valid_character c)) seg of
        Some c \<Rightarrow> Inl (InvalidKey (join [KEY_SEPARATOR] segs) (Segment_contains seg c))
      | None \<Rightarrow> Inr (quote_segment seg))"

definition encode_name_segments :: "string list \<Rightarrow> datastore_error + string" where
  "encode_name_segments segs =
     and_then (try_map (encode_segment segs) segs) (\<lambda>outputs. Inr (join [KEY_SEPARATOR] outputs))"

definition key_new :: "KeyType \<Rightarrow> string \<Rightarrow> datastore_error + key" where
  "key_new key_type nm =
     and_then (parse_name_segments nm) (\<lambda>segs.
     and_then (check_key key_type nm segs) (\<lambda>_.
     Inr \<lparr>key_name = nm, key_segments = segs\<rparr>))"

definition from_segments :: "KeyType \<Rightarrow> string list \<Rightarrow> datastore_error + key" where
  "from_segments key_type segs =
     and_then (encode_name_segments segs) (\<lambda>nm.
     and_then (check_key key_type nm segs) (\<lambda>_.
     Inr \<lparr>key_name = nm, key_segments = segs\<rparr>))"

definition strip_prefix :: "key \<Rightarrow> string \<Rightarrow> datastore_error + key" where
  "strip_prefix k pre =
     and_then (ensure (pre \<noteq> key_name k) (InvalidKey [] (Strip_prefix_matches_key pre))) (\<lambda>_.
       let strip = pre @ [CHR ''.''];
           nm = (if starts_with (key_name k) strip then drop (length strip) (key_name k) else key_name k)
       in key_new Data nm)"

text \<open>The loop of \<open>strip_prefix_segments\<close>: does a given segment differ from ours, or run past them?\<close>

fun segments_differ :: "string list \<Rightarrow> string list \<Rightarrow> bool" where
  "segments_differ ours [] = False"
| "segments_differ [] (theirs # ts) = True"
| "segments_differ (ours # os) (theirs # ts) = (ours \<noteq> theirs \<or> segments_differ os ts)"

definition strip_prefix_segments :: "key \<Rightarrow> string list \<Rightarrow> datastore_error + key" where
  "strip_prefix_segments k pre =
     (if segments_differ (key_segments k) pre then Inr k
      else from_segments Data (drop (length pre) (key_segments k)))"

definition append_segments :: "key \<Rightarrow> string list \<Rightarrow> datastore_error + key" where
  "append_segments k segs = from_segments Data (key_segments k @ segs)"

definition append_key :: "key \<Rightarrow> key \<Rightarrow> datastore_error + key" where
  "append_key k k' = from_segments Data (key_segments k @ key_segments k')"

definition starts_with_segments :: "key \<Rightarrow> string list \<Rightarrow> bool" where
  "starts_with_segments k segs =
     (if length (key_segments k) < length segs then False
      else list_all (\<lambda>(a, b). a = b) (zip (take (length segs) (key_segments k)) segs))"

text \<open>\<open>impl PartialEq for Key\<close> (and \<open>Hash\<close>): the segments are the source of truth.\<close>

definition key_eq :: "key \<Rightarrow> key \<Rightarrow> bool" where
  "key_eq a b \<longleftrightarrow> key_segments a = key_segments b"

text \<open>
  What every key satisfies, whichever constructor made it: at least one segment, only acceptable
  characters, a name within the limit that is no shorter than the canonical encoding of the
  segments, and a name that is that encoding or parses to the segments.
\<close>

definition wf_segment :: "string \<Rightarrow> bool" where
  "wf_segment s \<longleftrightarrow> (\<forall>c \<in> set s. c = KEY_SEPARATOR \<or> valid_character c)"

definition canonical_name :: "string list \<Rightarrow> string" where
  "canonical_name segs = join [KEY_SEPARATOR] (map quote_segment segs)"

definition wf_key :: "key \<Rightarrow> bool" where
  "wf_key k \<longleftrightarrow>
     key_segments k \<noteq> [] \<and> list_all wf_segment (key_segments k) \<and>
     length (key_name k) \<le> MAX_KEY_NAME_LENGTH \<and>
     length (canonical_name (key_segments k)) \<le> length (key_name k) \<and>
     (key_name k = canonical_name (key_segments k) \<or> parse_name_segments (key_name k) = Inr (key_segments k))"

section \<open>Encoding and parsing\<close>

lemma quote_char_not_valid [simp]: "\<not> valid_character quote_char"
  by (simp add: valid_character_def)

lemma separator_not_valid [simp]: "\<not> valid_character (CHR ''.'')"
  by (simp add: valid_character_def)

lemma wf_segment_simps [simp]:
  "wf_segment []"
  "wf_segment (c # s) \<longleftrightarrow> (c = CHR ''.'' \<or> valid_character c) \<and> wf_segment s"
  "wf_segment (s @ t) \<longleftrightarrow> wf_segment s \<and> wf_segment t"
  by (auto simp: wf_segment_def)

lemma encode_segment_Ok_iff:
  "encode_segment segs s = Inr t \<longleftrightarrow> wf_segment s \<and> t = quote_segment s"
proof -
  have "find (\<lambda>c. \<not> (c = KEY_SEPARATOR \<or> valid_character c)) s = None \<longleftrightarrow> wf_segment s"
    unfolding find_None_iff wf_segment_def by blast
  then show ?thesis
    by (cases "find (\<lambda>c. \<not> (c = KEY_SEPARATOR \<or> valid_character c)) s")
       (auto simp: encode_segment_def)
qed

lemma encode_name_segments_Ok_iff:
  "encode_name_segments segs = Inr nm \<longleftrightarrow> list_all wf_segment segs \<and> nm = canonical_name segs"
proof -
  have "try_map (encode_segment segs') segs = Inr outs \<longleftrightarrow>
          list_all wf_segment segs \<and> outs = map quote_segment segs" for segs' outs
    by (induction segs arbitrary: outs) (auto simp: encode_segment_Ok_iff result_simps)
  then show ?thesis
    by (auto simp: encode_name_segments_def canonical_name_def result_simps)
qed

lemma check_key_Ok_iff:
  "check_key t nm segs = Inr u \<longleftrightarrow>
     length nm \<le> MAX_KEY_NAME_LENGTH \<and> (case t of Data \<Rightarrow> segs \<noteq> [] | Meta \<Rightarrow> length segs = 1)"
  by (auto simp: check_key_def result_simps split: KeyType.splits)

lemma from_segments_Ok_iff:
  "from_segments t segs = Inr k \<longleftrightarrow>
     list_all wf_segment segs \<and> length (canonical_name segs) \<le> MAX_KEY_NAME_LENGTH \<and>
     (case t of Data \<Rightarrow> segs \<noteq> [] | Meta \<Rightarrow> length segs = 1) \<and>
     k = \<lparr>key_name = canonical_name segs, key_segments = segs\<rparr>"
  by (auto simp: from_segments_def encode_name_segments_Ok_iff check_key_Ok_iff result_simps)

lemma canonical_name_simps [simp]:
  "canonical_name [] = []"
  "canonical_name [s] = quote_segment s"
  "canonical_name (s # t # ss) = quote_segment s @ CHR ''.'' # canonical_name (t # ss)"
  by (simp_all add: canonical_name_def)

lemma canonical_name_append:
  "xs \<noteq> [] \<Longrightarrow> ys \<noteq> [] \<Longrightarrow>
     canonical_name (xs @ ys) = canonical_name xs @ CHR ''.'' # canonical_name ys"
  by (simp add: canonical_name_def join_append)

lemma canonical_name_take_length: "length (canonical_name (take n xs)) \<le> length (canonical_name xs)"
proof (cases "take n xs = [] \<or> drop n xs = []")
  case True
  then show ?thesis by auto
next
  case False
  then have "canonical_name xs = canonical_name (take n xs) @ CHR ''.'' # canonical_name (drop n xs)"
    using canonical_name_append [of "take n xs" "drop n xs"] by simp
  then show ?thesis by simp
qed

lemma canonical_name_drop_length: "length (canonical_name (drop n xs)) \<le> length (canonical_name xs)"
proof (cases "take n xs = [] \<or> drop n xs = []")
  case True
  then show ?thesis by auto
next
  case False
  then have "canonical_name xs = canonical_name (take n xs) @ CHR ''.'' # canonical_name (drop n xs)"
    using canonical_name_append [of "take n xs" "drop n xs"] by simp
  then show ?thesis by simp
qed

lemma parse_loop_quoted:
  "wf_segment s \<Longrightarrow> parse_loop nm segs seg True (s @ cs) = parse_loop nm segs (seg @ s) True cs"
  by (induction s arbitrary: seg) auto

lemma parse_loop_unquoted:
  "wf_segment s \<Longrightarrow> CHR ''.'' \<notin> set s \<Longrightarrow>
     parse_loop nm segs seg False (s @ cs) = parse_loop nm segs (seg @ s) False cs"
  by (induction s arbitrary: seg) auto

lemma parse_loop_quote_segment:
  "wf_segment s \<Longrightarrow> parse_loop nm segs [] False (quote_segment s @ cs) = parse_loop nm segs s False cs"
  by (simp add: quote_segment_def parse_loop_quoted parse_loop_unquoted)

lemma parse_loop_canonical_name:
  "ss \<noteq> [] \<Longrightarrow> list_all (\<lambda>s. wf_segment s \<and> s \<noteq> []) ss \<Longrightarrow>
     parse_loop nm segs [] False (canonical_name ss) = Inr (segs @ ss)"
proof (induction ss arbitrary: segs rule: induct_list012)
  case 1
  then show ?case by simp
next
  case (2 s)
  then show ?case using parse_loop_quote_segment [of s nm segs "[]"] by simp
next
  case (3 s t ss)
  then show ?case by (simp add: parse_loop_quote_segment)
qed

lemma quote_segment_nonempty: "s \<noteq> [] \<Longrightarrow> quote_segment s \<noteq> []"
  by (simp add: quote_segment_def)

lemma parse_canonical_name:
  "ss \<noteq> [] \<Longrightarrow> list_all (\<lambda>s. wf_segment s \<and> s \<noteq> []) ss \<Longrightarrow>
     parse_name_segments (canonical_name ss) = Inr ss"
proof -
  assume ss: "ss \<noteq> []" "list_all (\<lambda>s. wf_segment s \<and> s \<noteq> []) ss"
  then have "canonical_name ss \<noteq> []"
    by (cases ss rule: list.exhaust; cases "tl ss") (auto simp: quote_segment_nonempty)
  with ss show ?thesis by (simp add: parse_name_segments_def parse_loop_canonical_name)
qed

text \<open>
  The length argument behind the \<open>unreachable!\<close> of \<open>get_metadata\<close>: a name costs at least as many
  bytes as the canonical encoding of what it parses to, because a dot inside a segment was read
  between two quotes.
\<close>

definition pending_cost :: "string \<Rightarrow> bool \<Rightarrow> nat" where
  "pending_cost seg in_quotes =
     length seg + (if in_quotes then 1 else if CHR ''.'' \<in> set seg then 2 else 0)"

lemma pending_cost_steps:
  "pending_cost seg (\<not> q) \<le> Suc (pending_cost seg q)"
  "q \<or> c \<noteq> CHR ''.'' \<Longrightarrow> pending_cost (seg @ [c]) q = Suc (pending_cost seg q)"
  "\<not> q \<Longrightarrow> length (quote_segment seg) = pending_cost seg q"
  "pending_cost [] False = 0"
  by (auto simp: pending_cost_def quote_segment_def)

definition parsed_within :: "string list \<Rightarrow> nat \<Rightarrow> bool" where
  "parsed_within rest n \<longleftrightarrow>
     rest \<noteq> [] \<and> list_all (\<lambda>s. wf_segment s \<and> s \<noteq> []) rest \<and> length (canonical_name rest) \<le> n"

lemma parsed_within_mono: "parsed_within rest n \<Longrightarrow> n \<le> m \<Longrightarrow> parsed_within rest m"
  by (simp add: parsed_within_def)

lemma parsed_within_Cons:
  assumes "parsed_within rest n" and "wf_segment seg" and "seg \<noteq> []"
  shows "parsed_within (seg # rest) (length (quote_segment seg) + Suc n)"
  using assms by (cases rest) (simp_all add: parsed_within_def)

lemma parse_loop_Ok:
  assumes "parse_loop nm segs seg q cs = Inr out" and "wf_segment seg"
  shows "\<exists>rest. out = segs @ rest \<and> parsed_within rest (pending_cost seg q + length cs)"
  using assms
proof (induction cs arbitrary: segs seg q)
  case Nil
  then show ?case
    by (auto simp: result_simps parsed_within_def pending_cost_steps(3))
next
  case (Cons c cs)
  consider (quote) "c = quote_char"
    | (dot) "c = CHR ''.''" "\<not> q"
    | (push) "c \<noteq> quote_char" "q \<or> c \<noteq> CHR ''.''"
    by blast
  then show ?case
  proof cases
    case quote
    with Cons.prems have "parse_loop nm segs seg (\<not> q) cs = Inr out" by simp
    from Cons.IH [OF this Cons.prems(2)] obtain rest where
      "out = segs @ rest" "parsed_within rest (pending_cost seg (\<not> q) + length cs)" by blast
    then show ?thesis
      using pending_cost_steps(1) [of seg q] by (auto elim!: parsed_within_mono)
  next
    case dot
    with Cons.prems have "parse_loop nm (segs @ [seg]) [] q cs = Inr out" and ne: "seg \<noteq> []"
      by (auto simp: result_simps)
    from Cons.IH [OF this(1)] obtain rest where
      "out = (segs @ [seg]) @ rest" "parsed_within rest (pending_cost [] q + length cs)" by auto
    then show ?thesis
      using parsed_within_Cons [of rest _ seg] ne dot Cons.prems(2)
      by (intro exI [of _ "seg # rest"]) (simp add: pending_cost_steps)
  next
    case push
    with Cons.prems have step: "parse_loop nm segs (seg @ [c]) q cs = Inr out"
      and wf: "wf_segment (seg @ [c])"
      by (auto split: if_splits)
    from Cons.IH [OF step wf] push(2) show ?thesis
      by (simp add: pending_cost_steps(2))
  qed
qed

lemma parse_name_segments_Ok:
  assumes "parse_name_segments nm = Inr segs"
  shows "segs \<noteq> []" and "list_all (\<lambda>s. wf_segment s \<and> s \<noteq> []) segs"
    and "length (canonical_name segs) \<le> length nm"
  using parse_loop_Ok [of nm "[]" "[]" False nm segs] assms
  by (auto simp: parse_name_segments_def result_simps pending_cost_def parsed_within_def)

lemma wf_segments_weaken: "list_all (\<lambda>s. wf_segment s \<and> s \<noteq> []) ss \<Longrightarrow> list_all wf_segment ss"
  by (simp add: list_all_iff)

section \<open>The key invariant\<close>

lemma key_new_Ok_iff:
  "key_new t nm = Inr k \<longleftrightarrow>
     (\<exists>segs. parse_name_segments nm = Inr segs \<and> length nm \<le> MAX_KEY_NAME_LENGTH \<and>
       (case t of Data \<Rightarrow> segs \<noteq> [] | Meta \<Rightarrow> length segs = 1) \<and>
       k = \<lparr>key_name = nm, key_segments = segs\<rparr>)"
  by (auto simp: key_new_def check_key_Ok_iff result_simps)

lemma wf_key_new [intro]: "key_new t nm = Inr k \<Longrightarrow> wf_key k"
  using parse_name_segments_Ok wf_segments_weaken by (auto simp: key_new_Ok_iff wf_key_def)

lemma wf_key_from_segments [intro]: "from_segments t segs = Inr k \<Longrightarrow> wf_key k"
  by (auto simp: from_segments_Ok_iff wf_key_def split: KeyType.splits)

lemma wf_key_strip_prefix [intro]: "strip_prefix k p = Inr k' \<Longrightarrow> wf_key k'"
  by (auto simp: strip_prefix_def result_simps Let_def)

lemma wf_key_strip_prefix_segments [intro]:
  "wf_key k \<Longrightarrow> strip_prefix_segments k p = Inr k' \<Longrightarrow> wf_key k'"
  by (auto simp: strip_prefix_segments_def split: if_splits)

lemma wf_key_append [intro]:
  "append_segments k segs = Inr k' \<Longrightarrow> wf_key k'"
  "append_key k k'' = Inr k' \<Longrightarrow> wf_key k'"
  by (auto simp: append_segments_def append_key_def)

lemma wf_key_prefix:
  assumes "wf_key k" and "0 < n"
  shows "\<exists>k'. from_segments Data (take n (key_segments k)) = Inr k'"
proof -
  have "length (canonical_name (take n (key_segments k))) \<le> 255"
    using assms canonical_name_take_length [of n "key_segments k"] by (simp add: wf_key_def)
  moreover have "list_all wf_segment (take n (key_segments k))"
    using assms by (auto simp: wf_key_def list_all_iff dest: in_set_takeD)
  ultimately show ?thesis using assms by (auto simp: from_segments_Ok_iff wf_key_def)
qed

lemma wf_key_drop:
  assumes "wf_key k" and "n < length (key_segments k)"
  shows "\<exists>k'. from_segments Data (drop n (key_segments k)) = Inr k'"
proof -
  have "length (canonical_name (drop n (key_segments k))) \<le> 255"
    using assms canonical_name_drop_length [of n "key_segments k"] by (simp add: wf_key_def)
  moreover have "list_all wf_segment (drop n (key_segments k))"
    using assms by (auto simp: wf_key_def list_all_iff dest: in_set_dropD)
  ultimately show ?thesis using assms by (auto simp: from_segments_Ok_iff)
qed

lemma segments_differ_iff: "segments_differ ours theirs \<longleftrightarrow> \<not> prefix theirs ours"
  by (induction ours theirs rule: segments_differ.induct) auto

lemma zip_all_eq: "length xs = length ys \<Longrightarrow> list_all (\<lambda>(a, b). a = b) (zip xs ys) \<longleftrightarrow> xs = ys"
  by (induction xs ys rule: list_induct2) auto

lemma starts_with_segments_iff: "starts_with_segments k segs \<longleftrightarrow> prefix segs (key_segments k)"
proof (cases "length (key_segments k) < length segs")
  case True
  then show ?thesis using prefix_length_le [of segs "key_segments k"]
    by (auto simp: starts_with_segments_def)
next
  case False
  then have "starts_with_segments k segs \<longleftrightarrow> take (length segs) (key_segments k) = segs"
    by (simp add: starts_with_segments_def zip_all_eq)
  then show ?thesis by (metis append_eq_conv_conj prefix_def take_is_prefix)
qed

lemma key_name_round_trip_aux:
  assumes "from_segments t segs = Inr k" and "[] \<notin> set segs"
  shows "key_new t (key_name k) = Inr k"
proof -
  from assms have wf: "list_all (\<lambda>s. wf_segment s \<and> s \<noteq> []) segs" and "segs \<noteq> []"
    by (auto simp: from_segments_Ok_iff list_all_iff split: KeyType.splits)
  from parse_canonical_name [OF this(2,1)] assms(1) show ?thesis
    by (auto simp: from_segments_Ok_iff key_new_Ok_iff)
qed

interpretation key_map: finite_map "[]" "hm_insert key_segments" "hm_remove key_segments"
  "hm_get key_segments" "hm_view key_segments" key_segments "hm_wf key_segments"
  by unfold_locales (simp_all add: hash_simps)

section \<open>Properties\<close>

text \<open>
  C1: The name of a key made from segments parses back to that key: \<open>Key::new\<close> on the name that
  \<open>Key::from_segments\<close> generated (quoting segments that hold a dot) succeeds with the same name and
  the same segments, as long as no segment is empty.
\<close>

theorem key_name_round_trip:
  assumes "from_segments t segs = Inr k" and "[] \<notin> set segs"
  shows "key_new t (key_name k) = Inr k"
  using assms by (rule key_name_round_trip_aux)

theorem key_name_round_trip_witness:
  "key_new Data (key_name \<lparr>key_name = quote_char # ''a.b'' @ quote_char # ''.c'', key_segments = [''a.b'', ''c'']\<rparr>) =
     Inr \<lparr>key_name = quote_char # ''a.b'' @ quote_char # ''.c'', key_segments = [''a.b'', ''c'']\<rparr>"
  by (rule key_name_round_trip [of Data "[''a.b'', ''c'']"])
     (simp_all add: from_segments_def encode_name_segments_def encode_segment_def quote_segment_def
       check_key_def valid_character_def)

text \<open>
  C2: Any key that \<open>Key::new\<close> accepts can be rebuilt from its segments: \<open>from_segments\<close> succeeds,
  gives an equal key (equality is on segments), and its canonical name is no longer than the name
  the caller wrote, so it can never fail the length check.
\<close>

theorem key_rebuild_from_segments:
  assumes "key_new t nm = Inr k"
  shows "\<exists>k'. from_segments t (key_segments k) = Inr k' \<and> key_eq k' k \<and>
           length (key_name k') \<le> length nm \<and> wf_key k \<and> wf_key k'"
proof -
  from assms obtain segs where segs: "parse_name_segments nm = Inr segs" "length nm \<le> 255"
    "case t of Data \<Rightarrow> segs \<noteq> [] | Meta \<Rightarrow> length segs = 1" "k = \<lparr>key_name = nm, key_segments = segs\<rparr>"
    by (auto simp: key_new_Ok_iff)
  note parsed = parse_name_segments_Ok [OF segs(1)]
  from parsed segs have "from_segments t segs = Inr \<lparr>key_name = canonical_name segs, key_segments = segs\<rparr>"
    by (auto simp: from_segments_Ok_iff intro: wf_segments_weaken)
  with segs parsed assms show ?thesis by (auto simp: key_eq_def)
qed

theorem key_rebuild_from_segments_witness:
  "\<exists>k'. from_segments Data (key_segments \<lparr>key_name = ''a.b'', key_segments = [''a'', ''b'']\<rparr>) = Inr k' \<and>
     key_eq k' \<lparr>key_name = ''a.b'', key_segments = [''a'', ''b'']\<rparr> \<and> length (key_name k') \<le> length ''a.b'' \<and>
     wf_key \<lparr>key_name = ''a.b'', key_segments = [''a'', ''b'']\<rparr> \<and> wf_key k'"
  by (rule key_rebuild_from_segments [of Data])
     (simp add: key_new_def parse_name_segments_def check_key_def valid_character_def)

text \<open>
  C3: Appending one key to another and stripping the first one's segments again gives back the
  second: \<open>append_key\<close> and \<open>strip_prefix_segments\<close> are inverse on well-formed keys.
\<close>

theorem strip_after_append_key:
  assumes "append_key a b = Inr c" and "wf_key b"
  shows "\<exists>b'. strip_prefix_segments c (key_segments a) = Inr b' \<and> key_eq b' b \<and> wf_key b'"
proof -
  from assms(1) have c: "key_segments c = key_segments a @ key_segments b"
    by (simp add: append_key_def from_segments_Ok_iff)
  from assms(2) wf_key_drop [of b 0] obtain b' where b': "from_segments Data (key_segments b) = Inr b'"
    by (auto simp: wf_key_def)
  then have "strip_prefix_segments c (key_segments a) = Inr b'"
    by (simp add: strip_prefix_segments_def segments_differ_iff c)
  moreover from b' have "wf_key b'" by (rule wf_key_from_segments)
  ultimately show ?thesis using b' by (simp add: key_eq_def from_segments_Ok_iff)
qed

theorem strip_after_append_key_witness:
  "\<exists>b'. strip_prefix_segments \<lparr>key_name = ''a.b'', key_segments = [''a'', ''b'']\<rparr>
         (key_segments \<lparr>key_name = ''a'', key_segments = [''a'']\<rparr>) = Inr b' \<and>
       key_eq b' \<lparr>key_name = ''b'', key_segments = [''b'']\<rparr> \<and> wf_key b'"
  by (rule strip_after_append_key [of "\<lparr>key_name = ''a'', key_segments = [''a'']\<rparr>"
        "\<lparr>key_name = ''b'', key_segments = [''b'']\<rparr>"])
     (simp_all add: append_key_def from_segments_Ok_iff wf_key_def wf_segment_def quote_segment_def
       valid_character_def)

text \<open>
  C4: \<open>strip_prefix\<close>, which the deserializer calls with the first segment of a key, removes that
  segment only when it needs no quotes. For a segment that holds a dot the name starts with a
  quote, so nothing is stripped and the key comes back unchanged.
\<close>

theorem strip_prefix_first_segment:
  assumes "from_segments Data (s # rest) = Inr k" and "rest \<noteq> []" and "[] \<notin> set (s # rest)"
  shows "\<exists>k'. strip_prefix k s = Inr k' \<and>
           key_segments k' = (if CHR ''.'' \<in> set s then s # rest else rest)"
proof -
  have name: "key_name k = quote_segment s @ CHR ''.'' # canonical_name rest"
    using assms(1,2) by (cases rest) (auto simp: from_segments_Ok_iff)
  show ?thesis
  proof (cases "CHR ''.'' \<in> set s")
    case True
    then obtain c s' where s: "s = c # s'" by (cases s) auto
    have "c \<noteq> quote_char" using assms(1) by (auto simp: from_segments_Ok_iff s)
    with True have "\<not> starts_with (key_name k) (s @ [CHR ''.''])" "s \<noteq> key_name k"
      by (simp_all add: name quote_segment_def starts_with_def s)
    then have "strip_prefix k s = key_new Data (key_name k)" by (simp add: strip_prefix_def)
    with key_name_round_trip_aux [OF assms(1,3)] True assms(1) show ?thesis
      by (simp add: from_segments_Ok_iff)
  next
    case False
    then have "strip_prefix k s = key_new Data (canonical_name rest)"
      by (simp add: strip_prefix_def name quote_segment_def starts_with_def)
    moreover have "from_segments Data rest = Inr \<lparr>key_name = canonical_name rest, key_segments = rest\<rparr>"
      using assms canonical_name_drop_length [of 1 "s # rest"] by (auto simp: from_segments_Ok_iff)
    from key_name_round_trip_aux [OF this] assms(3)
    have "key_new Data (canonical_name rest) = Inr \<lparr>key_name = canonical_name rest, key_segments = rest\<rparr>"
      by simp
    ultimately show ?thesis using False by simp
  qed
qed

theorem strip_prefix_first_segment_witness:
  "\<exists>k'. strip_prefix \<lparr>key_name = quote_char # ''a.b'' @ quote_char # ''.c'', key_segments = [''a.b'', ''c'']\<rparr> ''a.b''
         = Inr k' \<and> key_segments k' = [''a.b'', ''c'']"
  using strip_prefix_first_segment [of "''a.b''" "[''c'']"
      "\<lparr>key_name = quote_char # ''a.b'' @ quote_char # ''.c'', key_segments = [''a.b'', ''c'']\<rparr>"]
  by (simp add: from_segments_Ok_iff wf_segment_def quote_segment_def valid_character_def)

end
