(* ===== verification/Datastore_Trait.thy ===== *)
theory Datastore_Trait
  imports Datastore_Key
begin

text \<open>
  The \<open>DataStore\<close> trait (\<open>sources/api/datastore/src/lib.rs\<close>) and the result of a constraint check
  (\<open>constraints_check.rs\<close>). The required methods of the trait are the fields of a record of
  operations, each default method is a definition over such a record, and the contract that the
  trait's documentation states is a locale. The clients (the API server's controller, the
  migrator) are written over the record, and what they need is proved once from the contract.
\<close>

section \<open>Definitions\<close>

datatype committed = Live | Pending string

record approved_write =
  aw_settings :: "(key, string) hashmap"
  aw_metadata :: "(key \<times> key \<times> string) list"

datatype constraint_check_result = Reject string | Approve approved_write

definition approved_write_try_from :: "constraint_check_result \<Rightarrow> datastore_error + approved_write" where
  "approved_write_try_from r = (case r of Reject err \<Rightarrow> Inl (ConstraintCheckReject err) | Approve aw \<Rightarrow> Inr aw)"

definition constraint_check_result_from :: "approved_write option \<Rightarrow> constraint_check_result" where
  "constraint_check_result_from w =
     (case w of None \<Rightarrow> Reject ''The write for the given transaction is rejected''
      | Some aw \<Rightarrow> Approve aw)"

type_synonym ('s, 'b) constraint_check = "'s \<Rightarrow> committed \<Rightarrow> 's \<times> ('b + constraint_check_result)"

text \<open>
  The required methods. A reader takes the store, a \<open>&mut self\<close> method returns the new store
  beside its result; \<open>'b\<close> is the boxed error of a constraint check.
\<close>

record ('s, 'b) data_store =
  ds_key_populated :: "'s \<Rightarrow> key \<Rightarrow> committed \<Rightarrow> datastore_error + bool"
  ds_list_populated_keys :: "'s \<Rightarrow> string \<Rightarrow> committed \<Rightarrow> datastore_error + key list"
  ds_list_populated_metadata ::
    "'s \<Rightarrow> string \<Rightarrow> committed \<Rightarrow> string option \<Rightarrow> datastore_error + (key, key list) hashmap"
  ds_get_key :: "'s \<Rightarrow> key \<Rightarrow> committed \<Rightarrow> datastore_error + string option"
  ds_set_key :: "key \<Rightarrow> string \<Rightarrow> committed \<Rightarrow> 's \<Rightarrow> 's \<times> (datastore_error + unit)"
  ds_unset_key :: "key \<Rightarrow> committed \<Rightarrow> 's \<Rightarrow> 's \<times> (datastore_error + unit)"
  ds_get_metadata_raw :: "'s \<Rightarrow> key \<Rightarrow> key \<Rightarrow> committed \<Rightarrow> datastore_error + string option"
  ds_set_metadata :: "key \<Rightarrow> key \<Rightarrow> string \<Rightarrow> committed \<Rightarrow> 's \<Rightarrow> 's \<times> (datastore_error + unit)"
  ds_unset_metadata :: "key \<Rightarrow> key \<Rightarrow> 's \<Rightarrow> 's \<times> (datastore_error + unit)"
  ds_commit_transaction ::
    "string \<Rightarrow> ('s, 'b) constraint_check \<Rightarrow> 's \<Rightarrow> 's \<times> (datastore_error + key list)"
  ds_delete_transaction :: "string \<Rightarrow> 's \<Rightarrow> 's \<times> (datastore_error + key list)"
  ds_list_transactions :: "'s \<Rightarrow> datastore_error + string list"

text \<open>The default method \<open>get_metadata\<close>: the loop over the segments with \<open>current_path\<close> and \<open>result\<close>.\<close>

fun get_metadata_loop ::
  "('s, 'b) data_store \<Rightarrow> 's \<Rightarrow> key \<Rightarrow> committed \<Rightarrow> string list \<Rightarrow> string option \<Rightarrow> string list \<Rightarrow>
     datastore_error + string option" where
  "get_metadata_loop ds s mk c current_path result [] = Inr result"
| "get_metadata_loop ds s mk c current_path result (component # rest) =
     (let current_path = current_path @ [component] in
      case from_segments Data current_path of
        Inl _ \<Rightarrow> Inl (Unreachable_macro current_path)
      | Inr data_key \<Rightarrow>
          and_then (ds_get_metadata_raw ds s mk data_key c) (\<lambda>md.
            get_metadata_loop ds s mk c current_path (case md of Some v \<Rightarrow> Some v | None \<Rightarrow> result) rest))"

definition get_metadata ::
  "('s, 'b) data_store \<Rightarrow> 's \<Rightarrow> key \<Rightarrow> key \<Rightarrow> committed \<Rightarrow> datastore_error + string option" where
  "get_metadata ds s mk dk c = get_metadata_loop ds s mk c [] None (key_segments dk)"

text \<open>
  \<open>set_keys\<close> and \<open>get_prefix\<close> are written over the methods they call, because implementations of
  \<open>commit_transaction\<close> and \<open>delete_transaction\<close> call them on themselves.
\<close>

definition set_keys_with ::
  "(key \<Rightarrow> string \<Rightarrow> committed \<Rightarrow> 's \<Rightarrow> 's \<times> (datastore_error + unit)) \<Rightarrow>
     (key, string) hashmap \<Rightarrow> committed \<Rightarrow> 's \<Rightarrow> 's \<times> (datastore_error + unit)" where
  "set_keys_with set_key pairs c = for_each (\<lambda>(k, v). set_key k v c) pairs"

definition set_keys ::
  "('s, 'b) data_store \<Rightarrow> (key, string) hashmap \<Rightarrow> committed \<Rightarrow> 's \<Rightarrow> 's \<times> (datastore_error + unit)" where
  "set_keys ds = set_keys_with (ds_set_key ds)"

definition unset_keys ::
  "('s, 'b) data_store \<Rightarrow> key list \<Rightarrow> committed \<Rightarrow> 's \<Rightarrow> 's \<times> (datastore_error + unit)" where
  "unset_keys ds ks c = for_each (\<lambda>k. ds_unset_key ds k c) ks"

definition get_prefix_with ::
  "('s \<Rightarrow> string \<Rightarrow> committed \<Rightarrow> datastore_error + key list) \<Rightarrow>
   ('s \<Rightarrow> key \<Rightarrow> committed \<Rightarrow> datastore_error + string option) \<Rightarrow>
     's \<Rightarrow> string \<Rightarrow> committed \<Rightarrow> datastore_error + (key, string) hashmap" where
  "get_prefix_with list_populated_keys get_key s find_prefix c =
     and_then (list_populated_keys s find_prefix c) (\<lambda>ks.
       if ks = [] then Inr []
       else try_fold (\<lambda>result k.
         and_then (get_key s k c) (\<lambda>v.
         and_then (ok_or (ListedKeyNotPresent (key_name k)) v) (\<lambda>value.
           Inr (hm_insert key_segments k value result)))) [] ks)"

definition get_prefix ::
  "('s, 'b) data_store \<Rightarrow> 's \<Rightarrow> string \<Rightarrow> committed \<Rightarrow> datastore_error + (key, string) hashmap" where
  "get_prefix ds = get_prefix_with (ds_list_populated_keys ds) (ds_get_key ds)"

text \<open>The inner loop of \<open>get_metadata_prefix\<close>, over the metadata keys of one data key.\<close>

definition get_metadata_prefix_entry ::
  "('s, 'b) data_store \<Rightarrow> 's \<Rightarrow> committed \<Rightarrow> string option \<Rightarrow> key \<Rightarrow>
     (key, (key, string) hashmap) hashmap \<Rightarrow> key \<Rightarrow> datastore_error + (key, (key, string) hashmap) hashmap" where
  "get_metadata_prefix_entry ds s c metadata_key_name data_key result meta_key =
     (if metadata_key_name \<noteq> None \<and> metadata_key_name \<noteq> Some (key_name meta_key) then Inr result
      else
        and_then (get_metadata ds s meta_key data_key c) (\<lambda>v.
        and_then (ok_or (ListedMetaNotPresent (key_name meta_key) (key_name data_key)) v) (\<lambda>value.
          let entry = (case hm_get key_segments data_key result of Some e \<Rightarrow> e | None \<Rightarrow> [])
          in Inr (hm_insert key_segments data_key (hm_insert key_segments meta_key value entry) result))))"

definition get_metadata_prefix ::
  "('s, 'b) data_store \<Rightarrow> 's \<Rightarrow> string \<Rightarrow> committed \<Rightarrow> string option \<Rightarrow>
     datastore_error + (key, (key, string) hashmap) hashmap" where
  "get_metadata_prefix ds s find_prefix c metadata_key_name =
     and_then (ds_list_populated_metadata ds s find_prefix c metadata_key_name) (\<lambda>meta_map.
       if meta_map = [] then Inr []
       else try_fold (\<lambda>result (data_key, meta_keys).
         try_fold (get_metadata_prefix_entry ds s c metadata_key_name data_key) result meta_keys) [] meta_map)"

section \<open>The contract\<close>

text \<open>
  Keys and transaction names that name a place of their own in every implementation: an empty
  segment and an empty transaction name disappear from a file system path. Transaction names are
  taken to be ASCII.
\<close>

definition ascii_char :: "char \<Rightarrow> bool" where
  "ascii_char c \<longleftrightarrow> (of_char c :: nat) < 128"

definition good_segments :: "string list \<Rightarrow> bool" where
  "good_segments segs \<longleftrightarrow>
     segs \<noteq> [] \<and> list_all (\<lambda>s. wf_segment s \<and> s \<noteq> []) segs \<and> length (canonical_name segs) \<le> MAX_KEY_NAME_LENGTH"

definition good_key :: "key \<Rightarrow> bool" where
  "good_key k \<longleftrightarrow> wf_key k \<and> [] \<notin> set (key_segments k)"

definition good_meta :: "key \<Rightarrow> bool" where
  "good_meta k \<longleftrightarrow> wf_key k \<and> length (key_segments k) = 1"

definition good_committed :: "committed \<Rightarrow> bool" where
  "good_committed c \<longleftrightarrow> (case c of Live \<Rightarrow> True | Pending tx \<Rightarrow> tx \<noteq> [] \<and> list_all ascii_char tx)"

text \<open>A metadata name whose every character is stored as it is, in a file name too.\<close>

definition plain_name :: "string \<Rightarrow> bool" where
  "plain_name m \<longleftrightarrow> m \<noteq> [] \<and> (\<forall>c \<in> set m. valid_character c \<and> c \<noteq> CHR ''/'')"

definition upd2 :: "('c \<Rightarrow> 'q \<Rightarrow> 'v option) \<Rightarrow> 'c \<Rightarrow> 'q \<Rightarrow> 'v option \<Rightarrow> 'c \<Rightarrow> 'q \<Rightarrow> 'v option" where
  "upd2 f c q v = f(c := (f c)(q := v))"

text \<open>The value of the closest path at or above \<open>segs\<close> that has one.\<close>

function nearest :: "(string list \<Rightarrow> 'v option) \<Rightarrow> string list \<Rightarrow> 'v option" where
  "nearest f segs =
     (if segs = [] then None else case f segs of Some v \<Rightarrow> Some v | None \<Rightarrow> nearest f (butlast segs))"
  by pat_completeness auto
termination
  by (relation "measure (length \<circ> snd)") auto

declare nearest.simps [simp del]

lemma nearest_Nil [simp]: "nearest f [] = None"
  by (simp add: nearest.simps)

lemma nearest_snoc [simp]:
  "nearest f (segs @ [x]) = (case f (segs @ [x]) of Some v \<Rightarrow> Some v | None \<Rightarrow> nearest f segs)"
  by (simp add: nearest.simps [of f "segs @ [x]"] butlast_append cong: option.case_cong)

lemma good_key_segments: "good_key k \<Longrightarrow> good_segments (key_segments k)"
  by (auto simp: good_key_def good_segments_def wf_key_def list_all_iff)

lemma good_segments_from_segments:
  "good_segments segs \<longleftrightarrow> [] \<notin> set segs \<and> (\<exists>k. from_segments Data segs = Inr k)"
  by (auto simp: good_segments_def from_segments_Ok_iff list_all_iff)

lemma good_key_from_segments:
  "from_segments t segs = Inr k \<Longrightarrow> [] \<notin> set segs \<Longrightarrow> good_key k"
  using wf_key_from_segments by (auto simp: good_key_def from_segments_Ok_iff)

lemma good_key_new: "key_new t nm = Inr k \<Longrightarrow> good_key k"
  using wf_key_new [of t nm k] parse_name_segments_Ok(2) [of nm]
  by (auto simp: good_key_def key_new_Ok_iff list_all_iff)

text \<open>
  \<open>data s c\<close> maps the segments of every populated data key to its value, \<open>meta s c\<close> the segments of
  a data key and the name of a metadata key to the metadata value; \<open>lname\<close> is the name under which
  a key is listed (a store may keep the name the caller used), and \<open>scope\<close> says which pending
  transactions share their metadata.
\<close>

locale data_store_core =
  fixes ds :: "('s, 'b) data_store"
    and inv :: "'s \<Rightarrow> bool"
    and data :: "'s \<Rightarrow> committed \<Rightarrow> string list \<Rightarrow> string option"
    and meta :: "'s \<Rightarrow> committed \<Rightarrow> (string list \<times> string) \<Rightarrow> string option"
    and lname :: "'s \<Rightarrow> committed \<Rightarrow> string list \<Rightarrow> string"
    and scope :: "committed \<Rightarrow> committed"
  assumes data_good: "inv s \<Longrightarrow> data s c q = Some v \<Longrightarrow> good_segments q"
    and get_key_sound:
      "inv s \<Longrightarrow> good_key k \<Longrightarrow> good_committed c \<Longrightarrow> ds_get_key ds s k c = Inr r \<Longrightarrow> r = data s c (key_segments k)"
    and get_key_complete:
      "inv s \<Longrightarrow> good_key k \<Longrightarrow> good_committed c \<Longrightarrow> data s c (key_segments k) = Some v \<Longrightarrow> ds_get_key ds s k c = Inr (Some v)"
    and set_key_ok:
      "inv s \<Longrightarrow> good_key k \<Longrightarrow> good_committed c \<Longrightarrow> ds_set_key ds k v c s = (s', Inr u) \<Longrightarrow>
         inv s' \<and> data s' = upd2 (data s) c (key_segments k) (Some v) \<and> meta s' = meta s"
    and set_key_err:
      "inv s \<Longrightarrow> good_key k \<Longrightarrow> good_committed c \<Longrightarrow> ds_set_key ds k v c s = (s', Inl e) \<Longrightarrow>
         inv s' \<and> data s' = data s \<and> meta s' = meta s"
    and unset_key_ok:
      "inv s \<Longrightarrow> good_key k \<Longrightarrow> good_committed c \<Longrightarrow> ds_unset_key ds k c s = (s', Inr u) \<Longrightarrow>
         inv s' \<and> data s' = upd2 (data s) c (key_segments k) None \<and> meta s' = meta s"
    and unset_key_err:
      "inv s \<Longrightarrow> good_key k \<Longrightarrow> good_committed c \<Longrightarrow> ds_unset_key ds k c s = (s', Inl e) \<Longrightarrow> s' = s"
    and list_keys_total:
      "inv s \<Longrightarrow> good_committed c \<Longrightarrow> \<exists>ks. ds_list_populated_keys ds s p c = Inr ks"
    and list_keys:
      "inv s \<Longrightarrow> good_committed c \<Longrightarrow> ds_list_populated_keys ds s p c = Inr ks \<Longrightarrow>
         (\<forall>k \<in> set ks. good_key k \<and> key_name k = lname s c (key_segments k)) \<and>
         key_segments ` set ks = {q. data s c q \<noteq> None \<and> starts_with (lname s c q) p}"
    and get_metadata_raw_sound:
      "inv s \<Longrightarrow> good_meta mk \<Longrightarrow> good_key dk \<Longrightarrow> good_committed c \<Longrightarrow>
         ds_get_metadata_raw ds s mk dk c = Inr r \<Longrightarrow> r = meta s c (key_segments dk, hd (key_segments mk))"
    and set_metadata_ok:
      "inv s \<Longrightarrow> good_meta mk \<Longrightarrow> good_key dk \<Longrightarrow> good_committed c \<Longrightarrow>
         ds_set_metadata ds mk dk v c s = (s', Inr u) \<Longrightarrow>
         inv s' \<and> data s' = data s \<and>
         meta s' = (\<lambda>c'. if scope c' = scope c
           then (meta s c')((key_segments dk, hd (key_segments mk)) \<mapsto> v) else meta s c')"
    and set_metadata_err:
      "inv s \<Longrightarrow> good_meta mk \<Longrightarrow> good_key dk \<Longrightarrow> good_committed c \<Longrightarrow>
         ds_set_metadata ds mk dk v c s = (s', Inl e) \<Longrightarrow> inv s' \<and> data s' = data s \<and> meta s' = meta s"
    and unset_metadata_ok:
      "inv s \<Longrightarrow> good_meta mk \<Longrightarrow> good_key dk \<Longrightarrow> ds_unset_metadata ds mk dk s = (s', Inr u) \<Longrightarrow>
         inv s' \<and> data s' = data s \<and>
         meta s' = upd2 (meta s) Live (key_segments dk, hd (key_segments mk)) None"
    and list_metadata_sound:
      "inv s \<Longrightarrow> good_committed c \<Longrightarrow> ds_list_populated_metadata ds s p c f = Inr mm \<Longrightarrow>
         (dk, mks) \<in> set mm \<Longrightarrow> mk \<in> set mks \<Longrightarrow>
         good_key dk \<and> good_meta mk \<and> starts_with (key_name dk) p \<and> (f \<noteq> None \<longrightarrow> f = Some (key_name mk)) \<and>
         meta s c (key_segments dk, hd (key_segments mk)) \<noteq> None"
begin

lemma set_keys_frame:
  assumes "set_keys ds pairs c s = (s', r)" and "inv s" and "good_committed c"
    and "\<And>k v. (k, v) \<in> set pairs \<Longrightarrow> good_key k"
  shows "inv s' \<and> meta s' = meta s \<and> (\<forall>c'. c' \<noteq> c \<longrightarrow> data s' c' = data s c')"
proof (rule for_each_invariant [OF assms(1) [unfolded set_keys_def set_keys_with_def]])
  show "inv s \<and> meta s = meta s \<and> (\<forall>c'. c' \<noteq> c \<longrightarrow> data s c' = data s c')" by (simp add: assms(2))
next
  fix x t t' q
  assume x: "x \<in> set pairs" and step: "(case x of (k, v) \<Rightarrow> ds_set_key ds k v c) t = (t', q)"
    and t: "inv t \<and> meta t = meta s \<and> (\<forall>c'. c' \<noteq> c \<longrightarrow> data t c' = data s c')"
  obtain k v where kv: "x = (k, v)" by fastforce
  have k: "good_key k" using x assms(4) kv by blast
  have st: "ds_set_key ds k v c t = (t', q)" using step kv by simp
  show "inv t' \<and> meta t' = meta s \<and> (\<forall>c'. c' \<noteq> c \<longrightarrow> data t' c' = data s c')"
  proof (cases q)
    case (Inl e)
    from set_key_err [OF _ k assms(3) st [unfolded Inl]] t
    have "inv t'" "data t' = data t" "meta t' = meta t" by blast+
    then show ?thesis using t by (auto simp only:)
  next
    case (Inr u)
    from set_key_ok [OF _ k assms(3) st [unfolded Inr]] t
    have "inv t'" "data t' = upd2 (data t) c (key_segments k) (Some v)" "meta t' = meta t" by blast+
    then show ?thesis using t by (auto simp only: upd2_def fun_upd_apply if_False)
  qed
qed

lemma set_keys_ok:
  assumes "set_keys ds pairs c s = (s', Inr u)" and "inv s" and "good_committed c"
    and "\<And>k v. (k, v) \<in> set pairs \<Longrightarrow> good_key k" and "hm_wf key_segments pairs"
  shows "inv s' \<and> data s' = (data s)(c := data s c ++ hm_view key_segments pairs) \<and> meta s' = meta s"
  using assms
proof (induction pairs arbitrary: s)
  case Nil
  then show ?case by (simp add: set_keys_def set_keys_with_def)
next
  case (Cons kv pairs)
  obtain k v where kv: "kv = (k, v)" by fastforce
  with Cons.prems(1) obtain t where t: "ds_set_key ds k v c s = (t, Inr ())" "set_keys ds pairs c t = (s', Inr u)"
    by (auto simp: set_keys_def set_keys_with_def result_simps)
  from set_key_ok [OF Cons.prems(2) _ Cons.prems(3) t(1)] Cons.prems(4) kv
  have step: "inv t" "data t = upd2 (data s) c (key_segments k) (Some v)" "meta t = meta s" by auto
  from Cons.prems(5) kv have "hm_wf key_segments pairs" by (simp add: hm_wf_def)
  moreover have "\<And>k' v'. (k', v') \<in> set pairs \<Longrightarrow> good_key k'" using Cons.prems(4) by simp blast
  ultimately have "inv s' \<and> data s' = (data t)(c := data t c ++ hm_view key_segments pairs) \<and> meta s' = meta t"
    by (intro Cons.IH [OF t(2) step(1) Cons.prems(3)])
  with kv step Cons.prems(5) show ?case by (simp add: upd2_def map_add_hm_view_Cons)
qed

lemma unset_keys_ok:
  assumes "unset_keys ds ks c s = (s', Inr u)" and "inv s" and "good_committed c"
    and "\<And>k. k \<in> set ks \<Longrightarrow> good_key k"
  shows "inv s' \<and> data s' = (data s)(c := data s c |` (- (key_segments ` set ks))) \<and> meta s' = meta s"
  using assms
proof (induction ks arbitrary: s)
  case Nil
  then show ?case by (simp add: unset_keys_def set_keys_with_def)
next
  case (Cons k ks)
  from Cons.prems(1) obtain t where t: "ds_unset_key ds k c s = (t, Inr ())" "unset_keys ds ks c t = (s', Inr u)"
    by (auto simp: unset_keys_def set_keys_with_def result_simps)
  from unset_key_ok [OF Cons.prems(2) _ Cons.prems(3) t(1)] Cons.prems(4)
  have step: "inv t" "data t = upd2 (data s) c (key_segments k) None" "meta t = meta s" by auto
  from Cons.IH [OF t(2) step(1) Cons.prems(3)] Cons.prems(4) step
  show ?case by (auto simp: upd2_def restrict_map_def fun_eq_iff)
qed

lemma get_prefix_ok:
  assumes "inv s" and "good_committed c"
  shows "\<exists>m. get_prefix ds s p c = Inr m \<and> hm_wf key_segments m \<and>
    hm_view key_segments m = (\<lambda>q. if starts_with (lname s c q) p then data s c q else None) \<and>
    (\<forall>(k, v) \<in> set m. good_key k \<and> key_name k = lname s c (key_segments k))"
proof -
  obtain ks where ks: "ds_list_populated_keys ds s p c = Inr ks" using list_keys_total [OF assms] by blast
  note listed = list_keys [OF assms ks]
  let ?g = "\<lambda>q. the (data s c q)" and ?ins = "\<lambda>k. hm_insert key_segments k (the (data s c (key_segments k)))"
  have val: "ds_get_key ds s k c = Inr (Some (?g (key_segments k)))" if "k \<in> set ks" for k
    using listed that get_key_complete [OF assms(1) _ assms(2), of k] by force
  have "get_prefix ds s p c = try_fold (\<lambda>result k.
         and_then (ds_get_key ds s k c) (\<lambda>v.
         and_then (ok_or (ListedKeyNotPresent (key_name k)) v) (\<lambda>value.
           Inr (hm_insert key_segments k value result)))) [] ks"
    by (simp add: get_prefix_def get_prefix_with_def ks)
  also have "\<dots> = Inr (fold ?ins ks [])"
    by (rule try_fold_all_Ok) (simp add: val)
  finally have res: "get_prefix ds s p c = Inr (fold ?ins ks [])" .
  have "hm_view key_segments (fold ?ins ks []) = (\<lambda>q. if starts_with (lname s c q) p then data s c q else None)"
  proof
    fix q
    have "hm_view key_segments (fold ?ins ks []) q = (if q \<in> key_segments ` set ks then Some (?g q) else None)"
      using hm_view_fold_insert [of key_segments ?g ks "[]" q] by simp
    with listed show "hm_view key_segments (fold ?ins ks []) q =
        (if starts_with (lname s c q) p then data s c q else None)" by auto
  qed
  moreover have "\<forall>(k, v) \<in> set (fold ?ins ks []). k \<in> set ks"
    using hm_fold_insert_keys [of key_segments "\<lambda>k. ?g (key_segments k)" ks "[]"] by force
  ultimately show ?thesis
    using res listed by (intro exI [of _ "fold ?ins ks []"]) (auto intro: hm_wf_fold_insert)
qed

lemma get_metadata_loop_ok:
  assumes "get_metadata_loop ds s mk c pre res rest = Inr r" and "inv s" and "good_meta mk"
    and "good_segments (pre @ rest)" and "good_committed c"
    and "res = nearest (\<lambda>q. meta s c (q, hd (key_segments mk))) pre"
  shows "r = nearest (\<lambda>q. meta s c (q, hd (key_segments mk))) (pre @ rest)"
  using assms
proof (induction rest arbitrary: pre res)
  case Nil
  then show ?case by simp
next
  case (Cons x rest)
  from Cons.prems(1) obtain dk md where step: "from_segments Data (pre @ [x]) = Inr dk"
    "ds_get_metadata_raw ds s mk dk c = Inr md"
    "get_metadata_loop ds s mk c (pre @ [x]) (case md of Some v \<Rightarrow> Some v | None \<Rightarrow> res) rest = Inr r"
    by (auto simp: Let_def result_simps split: sum.splits)
  from Cons.prems(4) have "[] \<notin> set (pre @ [x])" by (auto simp: good_segments_def list_all_iff)
  with step(1) have "good_key dk" by (rule good_key_from_segments)
  moreover from step(1) have "key_segments dk = pre @ [x]" by (simp add: from_segments_Ok_iff)
  ultimately
  have "md = meta s c (pre @ [x], hd (key_segments mk))"
    using get_metadata_raw_sound [OF Cons.prems(2,3) _ Cons.prems(5) step(2)] by simp
  then have "(case md of Some v \<Rightarrow> Some v | None \<Rightarrow> res) =
      nearest (\<lambda>q. meta s c (q, hd (key_segments mk))) (pre @ [x])"
    by (simp add: Cons.prems(6) split: option.split)
  with Cons.IH [OF step(3) Cons.prems(2,3) _ Cons.prems(5)] Cons.prems(4) show ?case by simp
qed

lemma get_metadata_ok:
  assumes "get_metadata ds s mk dk c = Inr r" and "inv s" and "good_meta mk" and "good_key dk" and "good_committed c"
  shows "r = nearest (\<lambda>q. meta s c (q, hd (key_segments mk))) (key_segments dk)"
  using get_metadata_loop_ok [of s mk c "[]" None "key_segments dk"] assms good_key_segments
  by (simp add: get_metadata_def)

end

text \<open>The contract of transactions, on top of that of single keys.\<close>

locale data_store_laws = data_store_core +
  assumes list_transactions_data:
      "inv s \<Longrightarrow> good_committed (Pending tx) \<Longrightarrow> ds_list_transactions ds s = Inr txs \<Longrightarrow> data s (Pending tx) q = Some v \<Longrightarrow> tx \<in> set txs"
    and delete_transaction_ok:
      "inv s \<Longrightarrow> good_committed (Pending tx) \<Longrightarrow> ds_delete_transaction ds tx s = (s', Inr ks) \<Longrightarrow>
         inv s' \<and> data s' = (data s)(Pending tx := Map.empty) \<and>
         key_segments ` set ks \<subseteq> dom (data s (Pending tx))"
    and commit_transaction_ok:
      "inv s \<Longrightarrow> good_committed (Pending tx) \<Longrightarrow> data s (Pending tx) \<noteq> Map.empty \<Longrightarrow> check s (Pending tx) = (s, Inr (Approve aw)) \<Longrightarrow>
         hm_wf key_segments (aw_settings aw) \<Longrightarrow> (\<And>k v. (k, v) \<in> set (aw_settings aw) \<Longrightarrow> good_key k) \<Longrightarrow>
         (\<And>mk dk v. (mk, dk, v) \<in> set (aw_metadata aw) \<Longrightarrow> good_meta mk \<and> good_key dk) \<Longrightarrow>
         ds_commit_transaction ds tx check s = (s', Inr ks) \<Longrightarrow>
         inv s' \<and>
         data s' = (data s)(Live := data s Live ++ hm_view key_segments (aw_settings aw), Pending tx := Map.empty) \<and>
         key_segments ` set ks = dom (hm_view key_segments (aw_settings aw))"
    and commit_transaction_reject:
      "inv s \<Longrightarrow> check s (Pending tx) = (s, Inr (Reject m)) \<Longrightarrow>
         ds_commit_transaction ds tx check s = (s', q') \<Longrightarrow> s' = s \<and> (\<forall>ks. q' = Inr ks \<longrightarrow> ks = [])"

text \<open>The \<open>unreachable!\<close> of \<open>get_metadata\<close>: a prefix of a key always makes a key.\<close>

lemma get_metadata_loop_no_panic:
  assumes "wf_key dk" and "key_segments dk = pre @ rest"
    and "\<And>k p. ds_get_metadata_raw ds s mk k c \<noteq> Inl (Unreachable_macro p)"
  shows "get_metadata_loop ds s mk c pre res rest \<noteq> Inl (Unreachable_macro p)"
  using assms(2)
proof (induction rest arbitrary: pre res)
  case Nil
  then show ?case by simp
next
  case (Cons x rest)
  then obtain k where k: "from_segments Data (pre @ [x]) = Inr k"
    using wf_key_prefix [OF assms(1), of "Suc (length pre)"] by auto
  show ?case
    using Cons.IH [of "pre @ [x]"] Cons.prems assms(3) [of k]
    by (auto simp: k Let_def and_then_Err_iff)
qed

section \<open>Properties\<close>

text \<open>
  C5: The \<open>unreachable!\<close> of the default method \<open>get_metadata\<close> ("Prefix of Key failed to make Key") is
  never reached, for any implementation of the trait and any well-formed data key: every prefix of
  a key's segments makes a key again. Only an error of the implementation's own
  \<open>get_metadata_raw\<close> can come out.
\<close>

theorem get_metadata_never_panics:
  assumes "wf_key dk" and "\<And>k p. ds_get_metadata_raw ds s mk k c \<noteq> Inl (Unreachable_macro p)"
  shows "get_metadata ds s mk dk c \<noteq> Inl (Unreachable_macro p)"
  unfolding get_metadata_def by (rule get_metadata_loop_no_panic [OF assms(1) _ assms(2)]) simp_all

theorem get_metadata_never_panics_witness:
  "get_metadata (\<lparr>ds_key_populated = \<lambda>_ _ _. Inr False, ds_list_populated_keys = \<lambda>_ _ _. Inr [],
     ds_list_populated_metadata = \<lambda>_ _ _ _. Inr [], ds_get_key = \<lambda>_ _ _. Inr None,
     ds_set_key = \<lambda>_ _ _ s. (s, Inr ()), ds_unset_key = \<lambda>_ _ s. (s, Inr ()),
     ds_get_metadata_raw = \<lambda>_ _ k _. Inl (KeyRead (key_name k) NotADirectory),
     ds_set_metadata = \<lambda>_ _ _ _ s. (s, Inr ()), ds_unset_metadata = \<lambda>_ _ s. (s, Inr ()),
     ds_commit_transaction = \<lambda>_ _ s. (s, Inr []), ds_delete_transaction = \<lambda>_ s. (s, Inr []),
     ds_list_transactions = \<lambda>_. Inr []\<rparr> :: (unit, unit) data_store) ()
     \<lparr>key_name = ''m'', key_segments = [''m'']\<rparr> \<lparr>key_name = ''a.b'', key_segments = [''a'', ''b'']\<rparr> Live \<noteq>
   Inl (Unreachable_macro [''a''])"
  by (rule get_metadata_never_panics)
     (simp_all add: wf_key_def wf_segment_def quote_segment_def valid_character_def)

end
