(* ===== verification/Datastore_Memory.thy ===== *)
theory Datastore_Memory
  imports Datastore_Trait
begin

text \<open>
  The in-memory store (\<open>sources/api/datastore/src/memory.rs\<close>), operation by operation, and its
  interpretation as an implementation of the contract of \<open>Datastore_Trait\<close>.
\<close>

section \<open>Definitions\<close>

record memory_store =
  mem_pending :: "(string, (key, string) hashmap) hashmap"
  mem_live :: "(key, string) hashmap"
  mem_metadata :: "(key, (key, string) hashmap) hashmap"
  mem_pending_metadata :: "(key, (key, string) hashmap) hashmap"

definition mem_new :: memory_store where
  "mem_new = \<lparr>mem_pending = [], mem_live = [], mem_metadata = [], mem_pending_metadata = []\<rparr>"

definition mem_dataset :: "memory_store \<Rightarrow> committed \<Rightarrow> (key, string) hashmap option" where
  "mem_dataset s c = (case c of Live \<Rightarrow> Some (mem_live s) | Pending tx \<Rightarrow> hm_get id tx (mem_pending s))"

text \<open>
  \<open>dataset_mut\<close> returns a mutable reference, creating the entry of a new transaction; what the
  callers do through the reference is the function argument.
\<close>

definition mem_dataset_mut ::
  "committed \<Rightarrow> ((key, string) hashmap \<Rightarrow> (key, string) hashmap) \<Rightarrow> memory_store \<Rightarrow> memory_store" where
  "mem_dataset_mut c f s =
     (case c of
        Live \<Rightarrow> s\<lparr>mem_live := f (mem_live s)\<rparr>
      | Pending tx \<Rightarrow>
          s\<lparr>mem_pending := hm_insert id tx
              (f (case hm_get id tx (mem_pending s) of Some m \<Rightarrow> m | None \<Rightarrow> [])) (mem_pending s)\<rparr>)"

definition mem_dataset_or_empty :: "memory_store \<Rightarrow> committed \<Rightarrow> (key, string) hashmap" where
  "mem_dataset_or_empty s c = (case mem_dataset s c of Some m \<Rightarrow> m | None \<Rightarrow> [])"

definition mem_list_populated_keys ::
  "memory_store \<Rightarrow> string \<Rightarrow> committed \<Rightarrow> datastore_error + key list" where
  "mem_list_populated_keys s pre c =
     Inr (filter (\<lambda>k. starts_with (key_name k) pre) (map fst (mem_dataset_or_empty s c)))"

definition mem_metadata_to_use :: "memory_store \<Rightarrow> committed \<Rightarrow> (key, (key, string) hashmap) hashmap" where
  "mem_metadata_to_use s c = (case c of Live \<Rightarrow> mem_metadata s | Pending _ \<Rightarrow> mem_pending_metadata s)"

definition mem_list_populated_metadata ::
  "memory_store \<Rightarrow> string \<Rightarrow> committed \<Rightarrow> string option \<Rightarrow> datastore_error + (key, key list) hashmap" where
  "mem_list_populated_metadata s pre c metadata_key_name =
     Inr (fold (\<lambda>(data_key, meta_map) result.
       if \<not> starts_with (key_name data_key) pre then result
       else
         let meta_for_data = fold (\<lambda>meta_key acc.
               if metadata_key_name \<noteq> None \<and> metadata_key_name \<noteq> Some (key_name meta_key) then acc
               else hs_insert key_segments meta_key acc) (map fst meta_map) []
         in if meta_for_data \<noteq> [] then hm_insert key_segments data_key meta_for_data result else result)
       (mem_metadata_to_use s c) [])"

definition mem_get_key :: "memory_store \<Rightarrow> key \<Rightarrow> committed \<Rightarrow> datastore_error + string option" where
  "mem_get_key s k c = Inr (hm_get key_segments k (mem_dataset_or_empty s c))"

definition mem_set_key ::
  "key \<Rightarrow> string \<Rightarrow> committed \<Rightarrow> memory_store \<Rightarrow> memory_store \<times> (datastore_error + unit)" where
  "mem_set_key k v c s = (mem_dataset_mut c (hm_insert key_segments k v) s, Inr ())"

definition mem_unset_key ::
  "key \<Rightarrow> committed \<Rightarrow> memory_store \<Rightarrow> memory_store \<times> (datastore_error + unit)" where
  "mem_unset_key k c s = (mem_dataset_mut c (hm_remove key_segments k) s, Inr ())"

definition mem_key_populated :: "memory_store \<Rightarrow> key \<Rightarrow> committed \<Rightarrow> datastore_error + bool" where
  "mem_key_populated s k c = Inr (hm_get key_segments k (mem_dataset_or_empty s c) \<noteq> None)"

definition mem_get_metadata_raw ::
  "memory_store \<Rightarrow> key \<Rightarrow> key \<Rightarrow> committed \<Rightarrow> datastore_error + string option" where
  "mem_get_metadata_raw s metadata_key data_key c =
     Inr (case hm_get key_segments data_key (mem_metadata_to_use s c) of
            None \<Rightarrow> None
          | Some m \<Rightarrow> hm_get key_segments metadata_key m)"

definition mem_set_metadata_raw ::
  "(key, (key, string) hashmap) hashmap \<Rightarrow> key \<Rightarrow> key \<Rightarrow> string \<Rightarrow> (key, (key, string) hashmap) hashmap" where
  "mem_set_metadata_raw metadata_to_use metadata_key data_key v =
     hm_insert key_segments data_key
       (hm_insert key_segments metadata_key v
          (case hm_get key_segments data_key metadata_to_use of Some m \<Rightarrow> m | None \<Rightarrow> []))
       metadata_to_use"

definition mem_set_metadata ::
  "key \<Rightarrow> key \<Rightarrow> string \<Rightarrow> committed \<Rightarrow> memory_store \<Rightarrow> memory_store \<times> (datastore_error + unit)" where
  "mem_set_metadata metadata_key data_key v c s =
     (case c of
        Live \<Rightarrow> s\<lparr>mem_metadata := mem_set_metadata_raw (mem_metadata s) metadata_key data_key v\<rparr>
      | Pending _ \<Rightarrow>
          s\<lparr>mem_pending_metadata := mem_set_metadata_raw (mem_pending_metadata s) metadata_key data_key v\<rparr>,
      Inr ())"

definition mem_unset_metadata ::
  "key \<Rightarrow> key \<Rightarrow> memory_store \<Rightarrow> memory_store \<times> (datastore_error + unit)" where
  "mem_unset_metadata metadata_key data_key s =
     (case hm_get key_segments data_key (mem_metadata s) of
        Some m \<Rightarrow>
          s\<lparr>mem_metadata := hm_insert key_segments data_key (hm_remove key_segments metadata_key m) (mem_metadata s)\<rparr>
      | None \<Rightarrow> s,
      Inr ())"

definition mem_commit_transaction ::
  "string \<Rightarrow> (memory_store, 'b) constraint_check \<Rightarrow> memory_store \<Rightarrow> memory_store \<times> (datastore_error + key list)" where
  "mem_commit_transaction tx constraint_check s =
     (case constraint_check s (Pending tx) of (s1, r) \<Rightarrow>
       let constraint_check_result = (case r of
             Inl _ \<Rightarrow> Reject ''Check constraint function rejected the transaction. Aborting commit''
           | Inr x \<Rightarrow> x)
       in op_bind (s1, approved_write_try_from constraint_check_result) (\<lambda>aw s1.
            op_bind
              (if aw_settings aw \<noteq> [] then
                 op_bind (set_keys_with mem_set_key (aw_settings aw) Live s1)
                   (\<lambda>_ s2. (s2, Inr (map fst (aw_settings aw)))) id
               else (s1, Inr []))
              (\<lambda>pending_keys s2.
                 (s2\<lparr>mem_pending := hm_remove id tx (mem_pending s2)\<rparr>, Inr pending_keys)) id) id)"

definition mem_delete_transaction ::
  "string \<Rightarrow> memory_store \<Rightarrow> memory_store \<times> (datastore_error + key list)" where
  "mem_delete_transaction tx s =
     (s\<lparr>mem_pending := hm_remove id tx (mem_pending s)\<rparr>,
      Inr (case hm_get id tx (mem_pending s) of Some p \<Rightarrow> map fst p | None \<Rightarrow> []))"

definition mem_list_transactions :: "memory_store \<Rightarrow> datastore_error + string list" where
  "mem_list_transactions s = Inr (map fst (mem_pending s))"

definition memory_data_store :: "(memory_store, 'b) data_store" where
  "memory_data_store = \<lparr>
     ds_key_populated = mem_key_populated,
     ds_list_populated_keys = mem_list_populated_keys,
     ds_list_populated_metadata = mem_list_populated_metadata,
     ds_get_key = mem_get_key,
     ds_set_key = mem_set_key,
     ds_unset_key = mem_unset_key,
     ds_get_metadata_raw = mem_get_metadata_raw,
     ds_set_metadata = mem_set_metadata,
     ds_unset_metadata = mem_unset_metadata,
     ds_commit_transaction = mem_commit_transaction,
     ds_delete_transaction = mem_delete_transaction,
     ds_list_transactions = mem_list_transactions\<rparr>"

section \<open>What the store holds\<close>

definition mem_data :: "memory_store \<Rightarrow> committed \<Rightarrow> string list \<Rightarrow> string option" where
  "mem_data s c = hm_view key_segments (mem_dataset_or_empty s c)"

definition mem_meta_view ::
  "(key, (key, string) hashmap) hashmap \<Rightarrow> string list \<times> string \<Rightarrow> string option" where
  "mem_meta_view md =
     (\<lambda>(q, m). case hm_view key_segments md q of None \<Rightarrow> None | Some e \<Rightarrow> hm_view key_segments e [m])"

definition mem_meta :: "memory_store \<Rightarrow> committed \<Rightarrow> string list \<times> string \<Rightarrow> string option" where
  "mem_meta s c = mem_meta_view (mem_metadata_to_use s c)"

definition mem_lname :: "memory_store \<Rightarrow> committed \<Rightarrow> string list \<Rightarrow> string" where
  "mem_lname s c q =
     (case find (\<lambda>e. key_segments (fst e) = q) (mem_dataset_or_empty s c) of
        Some e \<Rightarrow> key_name (fst e) | None \<Rightarrow> [])"

definition mem_scope :: "committed \<Rightarrow> committed" where
  "mem_scope c = (case c of Live \<Rightarrow> Live | Pending _ \<Rightarrow> Pending [])"

definition wf_dataset :: "(key, string) hashmap \<Rightarrow> bool" where
  "wf_dataset m \<longleftrightarrow> hm_wf key_segments m \<and> (\<forall>e \<in> set m. good_key (fst e))"

definition wf_metadata :: "(key, (key, string) hashmap) hashmap \<Rightarrow> bool" where
  "wf_metadata md \<longleftrightarrow> hm_wf key_segments md \<and>
     (\<forall>e \<in> set md. good_key (fst e) \<and> hm_wf key_segments (snd e) \<and> (\<forall>f \<in> set (snd e). good_meta (fst f)))"

definition mem_inv :: "memory_store \<Rightarrow> bool" where
  "mem_inv s \<longleftrightarrow>
     wf_dataset (mem_live s) \<and> hm_wf id (mem_pending s) \<and> (\<forall>e \<in> set (mem_pending s). wf_dataset (snd e)) \<and>
     wf_metadata (mem_metadata s) \<and> wf_metadata (mem_pending_metadata s)"

lemma wf_dataset_insert: "wf_dataset m \<Longrightarrow> good_key k \<Longrightarrow> wf_dataset (hm_insert key_segments k v m)"
  using hm_insert_keys_all [of good_key k m key_segments v] by (simp add: wf_dataset_def)

lemma wf_dataset_remove: "wf_dataset m \<Longrightarrow> wf_dataset (hm_remove key_segments k m)"
  by (auto simp: wf_dataset_def hm_remove_def hm_wf_def distinct_map_filter)

lemma wf_dataset_Nil [simp]: "wf_dataset []"
  by (simp add: wf_dataset_def)

lemma mem_inv_dataset: "mem_inv s \<Longrightarrow> wf_dataset (mem_dataset_or_empty s c)"
  by (cases c)
     (auto simp: mem_inv_def mem_dataset_or_empty_def mem_dataset_def hash_simps split: option.splits
       dest!: hm_view_Some_mem)

lemma mem_dataset_mut_view:
  "mem_dataset_or_empty (mem_dataset_mut c f s) c' =
     (if c' = c then f (mem_dataset_or_empty s c) else mem_dataset_or_empty s c')"
  by (cases c; cases c') (simp_all add: mem_dataset_or_empty_def mem_dataset_def mem_dataset_mut_def hash_simps)

lemma mem_dataset_mut_metadata [simp]:
  "mem_metadata_to_use (mem_dataset_mut c f s) = mem_metadata_to_use s"
  by (cases c) (simp_all add: mem_metadata_to_use_def mem_dataset_mut_def fun_eq_iff split: committed.splits)

lemma mem_dataset_mut_inv:
  assumes "mem_inv s" and "wf_dataset (f (mem_dataset_or_empty s c))"
  shows "mem_inv (mem_dataset_mut c f s)"
proof (cases c)
  case Live
  with assms show ?thesis by (simp add: mem_inv_def mem_dataset_mut_def mem_dataset_or_empty_def mem_dataset_def)
next
  case (Pending tx)
  let ?new = "f (case hm_get id tx (mem_pending s) of Some m \<Rightarrow> m | None \<Rightarrow> [])"
  have "wf_dataset ?new" using assms(2) by (simp add: Pending mem_dataset_or_empty_def mem_dataset_def)
  with assms(1) have "\<forall>e \<in> set (hm_insert id tx ?new (mem_pending s)). wf_dataset (snd e)"
    by (auto simp: mem_inv_def dest!: hm_insert_mem)
  with assms(1) show ?thesis by (simp add: Pending mem_inv_def mem_dataset_mut_def)
qed

lemma mem_meta_view_set:
  assumes "good_meta mk"
  shows "mem_meta_view (mem_set_metadata_raw md mk dk v) =
    (mem_meta_view md)((key_segments dk, hd (key_segments mk)) \<mapsto> v)"
proof -
  obtain m where "key_segments mk = [m]" using assms by (auto simp: good_meta_def length_Suc_conv)
  then show ?thesis
    by (auto simp: mem_meta_view_def mem_set_metadata_raw_def hash_simps fun_eq_iff split: option.splits)
qed

lemma wf_metadata_entry:
  assumes "wf_metadata md" and "(k, m) \<in> set md"
  shows "good_key k" and "hm_wf key_segments m" and "\<And>mk v. (mk, v) \<in> set m \<Longrightarrow> good_meta mk"
  using assms by (force simp: wf_metadata_def)+

lemma wf_metadataI:
  "hm_wf key_segments md \<Longrightarrow>
     (\<And>k m. (k, m) \<in> set md \<Longrightarrow> good_key k \<and> hm_wf key_segments m \<and> (\<forall>f \<in> set m. good_meta (fst f))) \<Longrightarrow>
     wf_metadata md"
  unfolding wf_metadata_def by (metis prod.collapse)

lemma mem_set_metadata_raw_wf:
  assumes "wf_metadata md" and "good_meta mk" and "good_key dk"
  shows "wf_metadata (mem_set_metadata_raw md mk dk v)"
proof -
  let ?old = "case hm_get key_segments dk md of Some m \<Rightarrow> m | None \<Rightarrow> []"
  have old: "hm_wf key_segments ?old \<and> (\<forall>f \<in> set ?old. good_meta (fst f))"
  proof (cases "hm_view key_segments md (key_segments dk)")
    case (Some m)
    from hm_view_Some_mem [OF this] obtain k where "(k, m) \<in> set md" by blast
    from wf_metadata_entry [OF assms(1) this] Some show ?thesis by (auto simp: hash_simps)
  qed (simp add: hash_simps)
  have new: "hm_wf key_segments (hm_insert key_segments mk v ?old)" using old by (intro hm_wf_insert) simp
  have new_keys: "\<forall>f \<in> set (hm_insert key_segments mk v ?old). good_meta (fst f)"
    by (rule hm_insert_keys_all) (use old assms(2) in blast)+
  show ?thesis unfolding mem_set_metadata_raw_def
  proof (rule wf_metadataI)
    show "hm_wf key_segments (hm_insert key_segments dk (hm_insert key_segments mk v ?old) md)"
      using assms(1) by (simp add: wf_metadata_def)
  next
    fix k m
    assume e: "(k, m) \<in> set (hm_insert key_segments dk (hm_insert key_segments mk v ?old) md)"
    have "good_key k" using hm_insert_fst [OF e] assms(3) wf_metadata_entry(1) [OF assms(1)] by auto
    with hm_insert_mem [OF e] new new_keys wf_metadata_entry(2,3) [OF assms(1)]
    show "good_key k \<and> hm_wf key_segments m \<and> (\<forall>f \<in> set m. good_meta (fst f))" by (auto 0 3)
  qed
qed

lemma mem_lname_mem:
  assumes "wf_dataset (mem_dataset_or_empty s c)" and "(k, v) \<in> set (mem_dataset_or_empty s c)"
  shows "mem_lname s c (key_segments k) = key_name k"
proof -
  have "find (\<lambda>e. key_segments (fst e) = key_segments k) m = Some (k, v)"
    if "hm_wf key_segments m" "(k, v) \<in> set m" for m
    using that by (induction m) (force simp: hm_wf_def)+
  with assms show ?thesis by (simp add: mem_lname_def wf_dataset_def)
qed

lemma mem_list_keys:
  assumes "mem_inv s" and "mem_list_populated_keys s p c = Inr ks"
  shows "(\<forall>k \<in> set ks. good_key k \<and> key_name k = mem_lname s c (key_segments k)) \<and>
    key_segments ` set ks = {q. mem_data s c q \<noteq> None \<and> starts_with (mem_lname s c q) p}"
proof -
  let ?m = "mem_dataset_or_empty s c"
  have wf: "wf_dataset ?m" using assms(1) by (rule mem_inv_dataset)
  have ks: "set ks = {k. k \<in> fst ` set ?m \<and> starts_with (key_name k) p}"
    using assms(2) by (force simp: mem_list_populated_keys_def)
  have name: "key_name k = mem_lname s c (key_segments k)" if "k \<in> fst ` set ?m" for k
    using that mem_lname_mem [OF wf] by auto
  have dom: "mem_data s c q \<noteq> None \<longleftrightarrow> q \<in> key_segments ` fst ` set ?m" for q
  proof -
    have "mem_data s c q \<noteq> None \<longleftrightarrow> q \<in> dom (hm_view key_segments ?m)" by (simp only: mem_data_def domIff)
    also have "\<dots> \<longleftrightarrow> q \<in> key_segments ` fst ` set ?m" by (simp only: dom_hm_view image_image)
    finally show ?thesis .
  qed
  show ?thesis
  proof
    show "\<forall>k \<in> set ks. good_key k \<and> key_name k = mem_lname s c (key_segments k)"
    proof
      fix k
      assume "k \<in> set ks"
      then have k: "k \<in> fst ` set ?m" by (simp add: ks)
      with wf have "good_key k" by (force simp: wf_dataset_def)
      with name [OF k] show "good_key k \<and> key_name k = mem_lname s c (key_segments k)" by (rule conjI [rotated])
    qed
    show "key_segments ` set ks = {q. mem_data s c q \<noteq> None \<and> starts_with (mem_lname s c q) p}"
    proof (intro set_eqI iffI; elim imageE CollectE conjE)
      fix q k
      assume "q = key_segments k" "k \<in> set ks"
      then show "q \<in> {q. mem_data s c q \<noteq> None \<and> starts_with (mem_lname s c q) p}"
        unfolding dom using name [of k] by (simp add: ks)
    next
      fix q
      assume q: "mem_data s c q \<noteq> None" "starts_with (mem_lname s c q) p"
      then obtain k where k: "k \<in> fst ` set ?m" "q = key_segments k" unfolding dom by blast
      with q(2) name [OF k(1)] have "k \<in> set ks" by (simp add: ks)
      with k(2) show "q \<in> key_segments ` set ks" by blast
    qed
  qed
qed

lemma meta_for_data_subset:
  "set (fold (\<lambda>mk acc. if f \<noteq> None \<and> f \<noteq> Some (key_name mk) then acc else hs_insert key_segments mk acc) ks acc) \<subseteq>
     set acc \<union> {mk \<in> set ks. f \<noteq> None \<longrightarrow> f = Some (key_name mk)}"
proof (induction ks arbitrary: acc)
  case (Cons k ks)
  have ins: "set (hs_insert key_segments k acc) \<subseteq> insert k (set acc)" by (simp add: hs_insert_def subset_insertI)
  show ?case
  proof (cases "f \<noteq> None \<and> f \<noteq> Some (key_name k)")
    case True
    then show ?thesis using Cons [of acc] by auto
  next
    case False
    then show ?thesis using Cons [of "hs_insert key_segments k acc"] ins by auto
  qed
qed simp

lemma fold_insert_entry:
  assumes "(k, y) \<in> set (fold (\<lambda>(k, x) res. if P k x then hm_insert eqv k (g x) res else res) xs acc)"
  shows "(k \<in> fst ` set acc \<or> (\<exists>x. (k, x) \<in> set xs \<and> P k x)) \<and>
    ((k, y) \<in> set acc \<or> (\<exists>k' x. (k', x) \<in> set xs \<and> eqv k' = eqv k \<and> y = g x))"
  using assms
proof (induction xs arbitrary: acc)
  case Nil
  then show ?case by force
next
  case (Cons kx xs)
  obtain k0 x0 where kx: "kx = (k0, x0)" by fastforce
  show ?case
  proof (cases "P k0 x0")
    case True
    with Cons.prems kx Cons.IH [of "hm_insert eqv k0 (g x0) acc"]
    have ih: "(k \<in> fst ` set (hm_insert eqv k0 (g x0) acc) \<or> (\<exists>x. (k, x) \<in> set xs \<and> P k x)) \<and>
      ((k, y) \<in> set (hm_insert eqv k0 (g x0) acc) \<or> (\<exists>k' x. (k', x) \<in> set xs \<and> eqv k' = eqv k \<and> y = g x))"
      by simp
    have "k \<in> fst ` set acc \<or> (\<exists>x. (k, x) \<in> set (kx # xs) \<and> P k x)"
      using ih True subsetD [OF hm_insert_set_subset [of eqv k0 "g x0" acc], of k] unfolding kx set_simps by blast
    moreover have "(k, y) \<in> set acc \<or> (\<exists>k' x. (k', x) \<in> set (kx # xs) \<and> eqv k' = eqv k \<and> y = g x)"
      using ih hm_insert_mem [of k y eqv k0 "g x0" acc] unfolding kx by (metis list.set_intros)
    ultimately show ?thesis ..
  next
    case False
    with Cons.prems kx Cons.IH [of acc] show ?thesis by auto
  qed
qed

lemma mem_list_metadata:
  assumes "mem_inv s" and "mem_list_populated_metadata s p c f = Inr mm" and "(dk, mks) \<in> set mm" and "mk \<in> set mks"
  shows "good_key dk \<and> good_meta mk \<and> starts_with (key_name dk) p \<and> (f \<noteq> None \<longrightarrow> f = Some (key_name mk)) \<and>
    mem_meta s c (key_segments dk, hd (key_segments mk)) \<noteq> None"
proof -
  let ?md = "mem_metadata_to_use s c"
  let ?mks = "\<lambda>m. fold (\<lambda>meta_key acc. if f \<noteq> None \<and> f \<noteq> Some (key_name meta_key) then acc
      else hs_insert key_segments meta_key acc) (map fst m) []"
  have wf: "wf_metadata ?md"
    using assms(1) by (simp add: mem_inv_def mem_metadata_to_use_def split: committed.splits)
  have "mm = fold (\<lambda>(dk, m) res. if starts_with (key_name dk) p \<and> ?mks m \<noteq> []
      then hm_insert key_segments dk (?mks m) res else res) ?md []"
    using assms(2) unfolding mem_list_populated_metadata_def
    by (auto simp: Let_def intro!: fold_cong)
  from fold_insert_entry [of _ _ "\<lambda>dk m. starts_with (key_name dk) p \<and> ?mks m \<noteq> []" key_segments ?mks, OF assms(3) [unfolded this]]
  obtain x k m where x: "(dk, x) \<in> set ?md" "starts_with (key_name dk) p"
    and m: "(k, m) \<in> set ?md" "key_segments k = key_segments dk" "mks = ?mks m" by auto
  have view: "hm_view key_segments ?md (key_segments dk) = Some m"
    using wf m hm_view_mem [of key_segments ?md k m] by (simp add: wf_metadata_def)
  have mk: "mk \<in> fst ` set m" "f \<noteq> None \<longrightarrow> f = Some (key_name mk)"
    using assms(4) meta_for_data_subset [of f "map fst m" "[]"] unfolding m(3) by auto
  from wf m(1) mk(1) have gm: "good_meta mk" by (force simp: wf_metadata_def)
  then obtain n where n: "key_segments mk = [n]" by (auto simp: good_meta_def length_Suc_conv)
  from mk(1) have "key_segments mk \<in> dom (hm_view key_segments m)" unfolding dom_hm_view by force
  with n have "mem_meta s c (key_segments dk, hd (key_segments mk)) \<noteq> None"
    by (auto simp: mem_meta_def mem_meta_view_def view)
  moreover have "good_key dk" using wf x(1) by (force simp: wf_metadata_def)
  ultimately show ?thesis using x mk gm by blast
qed

section \<open>The store implements the contract\<close>

lemmas memory_op_defs = memory_data_store_def mem_get_key_def mem_set_key_def mem_unset_key_def
  mem_get_metadata_raw_def mem_set_metadata_def mem_unset_metadata_def mem_list_transactions_def
  mem_delete_transaction_def

lemma mem_data_mut:
  "mem_data (mem_dataset_mut c f s) = (mem_data s)(c := hm_view key_segments (f (mem_dataset_or_empty s c)))"
  by (simp add: mem_data_def mem_dataset_mut_view fun_eq_iff)

lemma mem_meta_mut [simp]: "mem_meta (mem_dataset_mut c f s) = mem_meta s"
  by (simp add: mem_meta_def fun_eq_iff)

lemma mem_unset_metadata_ok:
  assumes "mem_inv s" and "good_meta mk" and "good_key dk"
  shows "mem_inv (fst (mem_unset_metadata mk dk s)) \<and> mem_data (fst (mem_unset_metadata mk dk s)) = mem_data s \<and>
    mem_meta (fst (mem_unset_metadata mk dk s)) = upd2 (mem_meta s) Live (key_segments dk, hd (key_segments mk)) None"
proof (cases "hm_view key_segments (mem_metadata s) (key_segments dk)")
  case None
  then show ?thesis using assms(1)
    by (auto simp: mem_unset_metadata_def hash_simps upd2_def fun_eq_iff mem_meta_def mem_meta_view_def
      mem_metadata_to_use_def)
next
  case (Some m)
  obtain n where n: "key_segments mk = [n]" using assms(2) by (auto simp: good_meta_def length_Suc_conv)
  from hm_view_Some_mem [OF Some] obtain k where km: "(k, m) \<in> set (mem_metadata s)" by blast
  have wf: "wf_metadata (mem_metadata s)" using assms(1) by (simp add: mem_inv_def)
  let ?m = "hm_remove key_segments mk m"
  let ?md = "hm_insert key_segments dk ?m (mem_metadata s)"
  have "wf_metadata ?md"
  proof (rule wf_metadataI)
    show "hm_wf key_segments ?md" using wf by (simp add: wf_metadata_def)
  next
    fix k' m'
    assume e: "(k', m') \<in> set ?md"
    have "good_key k'" using hm_insert_fst [OF e] assms(3) wf_metadata_entry(1) [OF wf] by auto
    moreover have "hm_wf key_segments ?m \<and> (\<forall>f \<in> set ?m. good_meta (fst f))"
      using wf_metadata_entry(2,3) [OF wf km] by (auto simp: hm_remove_def hm_wf_def distinct_map_filter)
    ultimately show "good_key k' \<and> hm_wf key_segments m' \<and> (\<forall>f \<in> set m'. good_meta (fst f))"
      using hm_insert_mem [OF e] wf_metadata_entry(2,3) [OF wf] by (auto 0 3)
  qed
  moreover have res: "fst (mem_unset_metadata mk dk s) = s\<lparr>mem_metadata := ?md\<rparr>"
    by (simp add: mem_unset_metadata_def hash_simps Some)
  moreover have "mem_meta_view ?md = (mem_meta_view (mem_metadata s))((key_segments dk, n) := None)"
    using Some n by (auto simp: mem_meta_view_def hash_simps fun_eq_iff)
  ultimately show ?thesis using assms(1) n
    by (auto simp: mem_inv_def mem_data_def mem_meta_def mem_dataset_or_empty_def mem_dataset_def upd2_def
      mem_metadata_to_use_def fun_eq_iff split: committed.splits)
qed

lemma mem_set_metadata_ok:
  assumes "mem_inv s" and "good_meta mk" and "good_key dk"
  shows "mem_inv (fst (mem_set_metadata mk dk v c s)) \<and> mem_data (fst (mem_set_metadata mk dk v c s)) = mem_data s \<and>
    mem_meta (fst (mem_set_metadata mk dk v c s)) = (\<lambda>c'. if mem_scope c' = mem_scope c
      then (mem_meta s c')((key_segments dk, hd (key_segments mk)) \<mapsto> v) else mem_meta s c')"
  using assms
  by (auto simp: mem_set_metadata_def mem_inv_def mem_set_metadata_raw_wf mem_data_def mem_dataset_or_empty_def
    mem_dataset_def mem_meta_def mem_metadata_to_use_def mem_scope_def mem_meta_view_set fun_eq_iff
    split: committed.splits)

interpretation mem_core: data_store_core memory_data_store mem_inv mem_data mem_meta mem_lname mem_scope
proof (unfold_locales, goal_cases)
  case (1 s c q v)
  then show ?case
    using mem_inv_dataset [of s c] good_key_segments
    by (auto simp: mem_data_def wf_dataset_def dest!: hm_view_Some_mem)
next
  case (9 s c p ks)
  then show ?case using mem_list_keys [of s p c ks] by (simp add: memory_data_store_def)
next
  case (10 s mk dk c r)
  then show ?case
    by (auto simp: memory_op_defs mem_meta_def mem_meta_view_def hash_simps good_meta_def length_Suc_conv
      split: option.splits)
next
  case (11 s mk dk c v s' u)
  then show ?case using mem_set_metadata_ok [of s mk dk v c] by (simp add: memory_data_store_def)
next
  case (12 s mk dk c v s' e)
  then show ?case by (simp add: memory_op_defs)
next
  case (13 s mk dk s' u)
  then show ?case using mem_unset_metadata_ok [of s mk dk] by (simp add: memory_data_store_def)
next
  case (14 s c p f mm dk mks mk)
  then show ?case using mem_list_metadata [of s p c f mm dk mks mk] by (simp add: memory_data_store_def)
qed (auto simp: memory_op_defs mem_data_mut upd2_def mem_data_def mem_dataset_mut_inv mem_inv_dataset
  wf_dataset_insert wf_dataset_remove hash_simps mem_list_populated_keys_def)

lemma mem_remove_transaction:
  assumes "mem_inv s" and s': "s' = s\<lparr>mem_pending := hm_remove id tx (mem_pending s)\<rparr>"
  shows "mem_inv s' \<and> mem_data s' = (mem_data s)(Pending tx := Map.empty)"
proof
  have "set (hm_remove id tx (mem_pending s)) \<subseteq> set (mem_pending s)" by (auto simp: hm_remove_def)
  with assms(1) show "mem_inv s'" by (auto simp: s' mem_inv_def)
  show "mem_data s' = (mem_data s)(Pending tx := Map.empty)"
    by (auto simp: s' mem_data_def mem_dataset_or_empty_def mem_dataset_def hash_simps fun_eq_iff
      split: committed.splits)
qed

lemma mem_commit_ok:
  assumes "mem_inv s" and "check s (Pending tx) = (s, Inr (Approve aw))"
    and "hm_wf key_segments (aw_settings aw)" and "\<And>k v. (k, v) \<in> set (aw_settings aw) \<Longrightarrow> good_key k"
    and "mem_commit_transaction tx check s = (s', Inr ks)"
  shows "mem_inv s' \<and>
    mem_data s' = (mem_data s)(Live := mem_data s Live ++ hm_view key_segments (aw_settings aw), Pending tx := Map.empty) \<and>
    key_segments ` set ks = dom (hm_view key_segments (aw_settings aw))"
proof (cases "aw_settings aw = []")
  case True
  with assms(2,5) have "s' = s\<lparr>mem_pending := hm_remove id tx (mem_pending s)\<rparr>" "ks = []"
    by (auto simp: mem_commit_transaction_def approved_write_try_from_def)
  with mem_remove_transaction [OF assms(1), of s' tx] True show ?thesis by simp
next
  case False
  with assms(2,5) obtain s2 u where s2: "set_keys_with mem_set_key (aw_settings aw) Live s = (s2, Inr u)"
    "s' = s2\<lparr>mem_pending := hm_remove id tx (mem_pending s2)\<rparr>" "ks = map fst (aw_settings aw)"
    by (auto simp: mem_commit_transaction_def approved_write_try_from_def result_simps)
  then have "set_keys memory_data_store (aw_settings aw) Live s = (s2, Inr u)"
    by (simp add: set_keys_def memory_data_store_def)
  from mem_core.set_keys_ok [OF this assms(1) _ assms(4,3)]
  have "mem_inv s2" "mem_data s2 = (mem_data s)(Live := mem_data s Live ++ hm_view key_segments (aw_settings aw))"
    by (simp_all add: good_committed_def)
  with mem_remove_transaction [of s2 s' tx] s2 show ?thesis by (simp add: dom_hm_view image_image)
qed

interpretation mem_laws: data_store_laws memory_data_store mem_inv mem_data mem_meta mem_lname mem_scope
proof (unfold_locales, goal_cases)
  case (1 s tx txs q v)
  then show ?case
    by (auto simp: memory_op_defs mem_data_def mem_dataset_or_empty_def mem_dataset_def hash_simps
      split: option.splits dest!: hm_view_Some_mem)
       (metis fst_conv image_eqI)
next
  case (2 s tx s' ks)
  then show ?case using mem_remove_transaction [of s s' tx]
    by (auto simp: memory_op_defs mem_data_def mem_dataset_or_empty_def mem_dataset_def dom_hm_view image_image
      split: option.splits)
next
  case (3 s tx check aw s' ks)
  then show ?case using mem_commit_ok [of s check tx aw s' ks] by (simp add: memory_data_store_def)
next
  case (4 s check tx m s' r)
  then show ?case
    by (auto simp: memory_data_store_def mem_commit_transaction_def approved_write_try_from_def)
qed

section \<open>Properties\<close>

definition sample_key :: "string \<Rightarrow> key" where
  "sample_key nm = \<lparr>key_name = nm, key_segments = split_on (CHR ''.'') nm\<rparr>"

definition sample_store :: memory_store where
  "sample_store = \<lparr>
     mem_pending = [(''tx'', [(sample_key ''settings.a'', ''2''), (sample_key ''os.b'', ''3'')])],
     mem_live = [(sample_key ''settings.a'', ''1'')],
     mem_metadata = [(sample_key ''settings'', [(sample_key ''m'', ''x'')])],
     mem_pending_metadata = []\<rparr>"

lemma sample_key_good:
  "good_key (sample_key ''settings.a'')" "good_key (sample_key ''os.b'')" "good_key (sample_key ''settings'')"
  "good_meta (sample_key ''m'')"
  by (simp_all add: sample_key_def good_key_def good_meta_def wf_key_def quote_segment_def wf_segment_def
    valid_character_def)

lemma sample_store_inv: "mem_inv sample_store"
  by (simp add: sample_store_def mem_inv_def wf_dataset_def wf_metadata_def hm_wf_def sample_key_good)
     (simp add: sample_key_def)

text \<open>
  C6: Over the in-memory store \<open>get_prefix\<close> always succeeds (a listed key is always present) and
  returns exactly the populated keys whose name starts with the prefix, each with its value.
\<close>

theorem memory_get_prefix:
  assumes "mem_inv s" and "good_committed c"
  shows "\<exists>m. get_prefix memory_data_store s p c = Inr m \<and> hm_wf key_segments m \<and>
    hm_view key_segments m = (\<lambda>q. if starts_with (mem_lname s c q) p then mem_data s c q else None)"
  using mem_core.get_prefix_ok [OF assms] by blast

theorem memory_get_prefix_witness:
  "\<exists>m. get_prefix memory_data_store sample_store ''settings.'' (Pending ''tx'') = Inr m \<and>
    hm_view key_segments m [''settings'', ''a''] = Some ''2'' \<and> hm_view key_segments m [''os'', ''b''] = None"
  using memory_get_prefix [OF sample_store_inv, of "Pending ''tx''" "''settings.''"]
  by (auto simp: good_committed_def ascii_char_def mem_lname_def mem_data_def mem_dataset_or_empty_def mem_dataset_def
    sample_store_def hm_get_def hm_view_def sample_key_def starts_with_def)

text \<open>
  C7: Metadata is inherited: over the in-memory store \<open>get_metadata\<close> returns the value set on the
  data key itself or, failing that, on the closest of its ancestors that has one, and \<open>None\<close> when
  no ancestor has one.
\<close>

theorem memory_get_metadata:
  assumes "mem_inv s" and "good_meta mk" and "good_key dk" and "good_committed c"
  shows "get_metadata (memory_data_store :: (memory_store, 'b) data_store) s mk dk c =
    Inr (nearest (\<lambda>q. mem_meta s c (q, hd (key_segments mk))) (key_segments dk))"
proof (cases "get_metadata (memory_data_store :: (memory_store, 'b) data_store) s mk dk c")
  case (Inl e)
  have total: "\<nexists>e. get_metadata_loop (memory_data_store :: (memory_store, 'b) data_store) s mk c pre res rest = Inl e"
    if "key_segments dk = pre @ rest" for pre res rest
    using that
  proof (induction rest arbitrary: pre res)
    case (Cons x rest)
    then obtain k where "from_segments Data (pre @ [x]) = Inr k"
      using wf_key_prefix [of dk "Suc (length pre)"] assms(3) by (auto simp: good_key_def)
    with Cons show ?case by (simp add: memory_data_store_def mem_get_metadata_raw_def Let_def)
  qed simp
  show ?thesis using Inl total [of "[]" "key_segments dk" None] by (simp add: get_metadata_def)
next
  case (Inr r)
  with mem_core.get_metadata_ok [OF Inr assms] show ?thesis by simp
qed

theorem memory_get_metadata_witness:
  "get_metadata memory_data_store sample_store (sample_key ''m'') (sample_key ''settings.a'') Live = Inr (Some ''x'')"
  using memory_get_metadata [OF sample_store_inv sample_key_good(4,1), of Live]
  by (simp add: good_committed_def sample_key_def sample_store_def mem_meta_def mem_meta_view_def
    mem_metadata_to_use_def hm_view_def nearest.simps)

text \<open>
  C14: Committing a transaction of the in-memory store with an approved write applies exactly the
  approved settings to the live data, empties the transaction and leaves every other transaction
  alone; a rejected write changes nothing and returns the rejection. The metadata of the approved
  write is not applied: the store's metadata is the same afterwards.
\<close>

theorem memory_commit_transaction:
  assumes "mem_inv s" and "hm_wf key_segments (aw_settings aw)"
    and "\<And>k v. (k, v) \<in> set (aw_settings aw) \<Longrightarrow> good_key k"
  shows "(\<exists>s' ks. mem_commit_transaction tx (\<lambda>t _. (t, Inr (Approve aw) :: 'b + constraint_check_result)) s = (s', Inr ks) \<and>
      mem_inv s' \<and> key_segments ` set ks = dom (hm_view key_segments (aw_settings aw)) \<and>
      mem_data s' = (mem_data s)
        (Live := mem_data s Live ++ hm_view key_segments (aw_settings aw), Pending tx := Map.empty) \<and>
      mem_meta s' = mem_meta s) \<and>
    mem_commit_transaction tx (\<lambda>t _. (t, Inr (Reject why) :: 'b + constraint_check_result)) s =
      (s, Inl (ConstraintCheckReject why))"
proof -
  let ?check = "\<lambda>t _. (t, Inr (Approve aw) :: 'b + constraint_check_result)"
  obtain s' r where res: "mem_commit_transaction tx ?check s = (s', r)" by fastforce
  have total: "\<exists>t'. set_keys_with mem_set_key pairs Live t = (t', Inr ()) \<and> mem_meta t' = mem_meta t" for pairs t
  proof (induction pairs arbitrary: t)
    case (Cons kv pairs)
    then show ?case
      using Cons [of "mem_dataset_mut Live (hm_insert key_segments (fst kv) (snd kv)) t"]
      by (simp add: set_keys_with_def mem_set_key_def [of "fst kv" "snd kv"] split_beta)
  qed (simp add: set_keys_with_def)
  have meta_pending: "mem_meta (t\<lparr>mem_pending := p\<rparr>) = mem_meta t" for t p
    by (simp add: mem_meta_def mem_metadata_to_use_def fun_eq_iff split: committed.splits)
  have "\<exists>ks. r = Inr ks \<and> mem_meta s' = mem_meta s"
    using res total [of "aw_settings aw" s]
    by (auto simp: mem_commit_transaction_def approved_write_try_from_def meta_pending split: if_splits)
  with res mem_commit_ok [of s ?check tx aw s'] assms show ?thesis
    by (auto simp: mem_commit_transaction_def [of _ "\<lambda>t _. (t, Inr (Reject why))"] approved_write_try_from_def)
qed

theorem memory_commit_transaction_witness:
  "\<exists>s' ks. mem_commit_transaction ''tx'' (\<lambda>t _. (t, Inr (Approve \<lparr>aw_settings = [(sample_key ''settings.a'', ''2'')],
        aw_metadata = [(sample_key ''m'', sample_key ''settings.a'', ''y'')]\<rparr>) :: unit + constraint_check_result))
      sample_store = (s', Inr ks) \<and>
    mem_data s' Live [''settings'', ''a''] = Some ''2'' \<and> mem_meta s' = mem_meta sample_store"
  using memory_commit_transaction [OF sample_store_inv, of "\<lparr>aw_settings = [(sample_key ''settings.a'', ''2'')],
        aw_metadata = [(sample_key ''m'', sample_key ''settings.a'', ''y'')]\<rparr>" "''tx''" "[]", where 'b = unit]
  by (auto simp: hm_wf_def hm_view_def sample_key_good) (auto simp: sample_key_def)

end
