(* ===== verification/Filesystem.thy ===== *)
theory Filesystem
  imports Datastore_Key
begin

text \<open>
  The part of \<open>std::fs\<close> and \<open>std::path\<close> that the data store and the migrator call, over a file
  system of directories and regular files. A path is the list of its components below the root.
  A call fails for the reasons POSIX documents (a missing or non-directory component, a name over
  255 bytes, a directory where a file is needed and the reverse); failures of the device or of
  permissions are not modelled.
\<close>

section \<open>Definitions\<close>

datatype node = Dir | File string

type_synonym fpath = "string list"
type_synonym fs = "(fpath, node) hashmap"

definition fs_lookup :: "fs \<Rightarrow> fpath \<Rightarrow> node option" where
  "fs_lookup fs p = (if p = [] then Some Dir else hm_get id p fs)"

definition NAME_MAX :: nat where
  [simp]: "NAME_MAX = 255"

text \<open>Path resolution up to the last component, component by component.\<close>

fun resolve :: "fs \<Rightarrow> fpath \<Rightarrow> fpath \<Rightarrow> io_kind + unit" where
  "resolve fs pre [] = Inr ()"
| "resolve fs pre (c # cs) =
     (if length c > NAME_MAX then Inl InvalidFilename
      else if cs = [] then Inr ()
      else case fs_lookup fs (pre @ [c]) of
             None \<Rightarrow> Inl NotFound
           | Some (File _) \<Rightarrow> Inl NotADirectory
           | Some Dir \<Rightarrow> resolve fs (pre @ [c]) cs)"

definition fs_find :: "fs \<Rightarrow> fpath \<Rightarrow> io_kind + node" where
  "fs_find fs p = and_then (resolve fs [] p) (\<lambda>_. ok_or NotFound (fs_lookup fs p))"

definition fs_exists :: "fs \<Rightarrow> fpath \<Rightarrow> bool" where
  "fs_exists fs p = is_ok (fs_find fs p)"

definition read_to_string :: "fs \<Rightarrow> fpath \<Rightarrow> io_kind + string" where
  "read_to_string fs p =
     and_then (fs_find fs p) (\<lambda>n. case n of Dir \<Rightarrow> Inl IsADirectory | File s \<Rightarrow> Inr s)"

definition create_dir :: "fpath \<Rightarrow> fs \<Rightarrow> fs \<times> (io_kind + unit)" where
  "create_dir p fs =
     (case resolve fs [] p of
        Inl e \<Rightarrow> (fs, Inl e)
      | Inr _ \<Rightarrow> if fs_lookup fs p = None then (hm_insert id p Dir fs, Inr ()) else (fs, Inl AlreadyExists))"

text \<open>
  \<open>DirBuilder::create_dir_all\<close>: try to make the directory, make the parents when one is missing,
  and accept a directory that is already there. The argument is the path in reverse.
\<close>

fun create_dir_all_rev :: "fpath \<Rightarrow> fs \<Rightarrow> fs \<times> (io_kind + unit)" where
  "create_dir_all_rev [] fs = (fs, Inr ())"
| "create_dir_all_rev (c # up) fs =
     (let p = rev (c # up) in
      case create_dir p fs of
        (fs1, Inr _) \<Rightarrow> (fs1, Inr ())
      | (_, Inl e) \<Rightarrow>
          if e = NotFound then
            op_bind (create_dir_all_rev up fs) (\<lambda>_ fs1.
              case create_dir p fs1 of
                (fs2, Inr _) \<Rightarrow> (fs2, Inr ())
              | (_, Inl e') \<Rightarrow> if fs_find fs1 p = Inr Dir then (fs1, Inr ()) else (fs1, Inl e')) id
          else if fs_find fs p = Inr Dir then (fs, Inr ()) else (fs, Inl e))"

definition create_dir_all :: "fpath \<Rightarrow> fs \<Rightarrow> fs \<times> (io_kind + unit)" where
  "create_dir_all p = create_dir_all_rev (rev p)"

definition fs_write :: "fpath \<Rightarrow> string \<Rightarrow> fs \<Rightarrow> fs \<times> (io_kind + unit)" where
  "fs_write p contents fs =
     (case resolve fs [] p of
        Inl e \<Rightarrow> (fs, Inl e)
      | Inr _ \<Rightarrow> if fs_lookup fs p = Some Dir then (fs, Inl IsADirectory)
                  else (hm_insert id p (File contents) fs, Inr ()))"

definition remove_file :: "fpath \<Rightarrow> fs \<Rightarrow> fs \<times> (io_kind + unit)" where
  "remove_file p fs =
     (case fs_find fs p of
        Inl e \<Rightarrow> (fs, Inl e)
      | Inr Dir \<Rightarrow> (fs, Inl IsADirectory)
      | Inr (File _) \<Rightarrow> (hm_remove id p fs, Inr ()))"

definition has_children :: "fs \<Rightarrow> fpath \<Rightarrow> bool" where
  "has_children fs p = list_ex (\<lambda>e. fst e \<noteq> [] \<and> butlast (fst e) = p) fs"

definition remove_dir :: "fpath \<Rightarrow> fs \<Rightarrow> fs \<times> (io_kind + unit)" where
  "remove_dir p fs =
     (case fs_find fs p of
        Inl e \<Rightarrow> (fs, Inl e)
      | Inr (File _) \<Rightarrow> (fs, Inl NotADirectory)
      | Inr Dir \<Rightarrow> if has_children fs p then (fs, Inl DirectoryNotEmpty) else (hm_remove id p fs, Inr ()))"

definition remove_dir_all :: "fpath \<Rightarrow> fs \<Rightarrow> fs \<times> (io_kind + unit)" where
  "remove_dir_all p fs =
     (case fs_find fs p of
        Inl e \<Rightarrow> (fs, Inl e)
      | Inr (File _) \<Rightarrow> (fs, Inl NotADirectory)
      | Inr Dir \<Rightarrow> (filter (\<lambda>e. take (length p) (fst e) \<noteq> p) fs, Inr ()))"

text \<open>
  \<open>PathBuf\<close> as a string: \<open>join\<close> (an absolute right-hand side replaces the left) and \<open>components\<close>,
  which drops empty and \<open>"."\<close> components.
\<close>

definition path_join :: "string \<Rightarrow> string \<Rightarrow> string" where
  "path_join a b =
     (if b \<noteq> [] \<and> hd b = CHR ''/'' then b
      else if a = [] \<or> last a = CHR ''/'' then a @ b
      else a @ CHR ''/'' # b)"

definition path_components :: "string \<Rightarrow> fpath" where
  "path_components s = filter (\<lambda>c. c \<noteq> [] \<and> c \<noteq> ''.'') (split_on (CHR ''/'') s)"

section \<open>Well-formed file systems\<close>

text \<open>No entry for the root, one entry per path, every entry in a directory, no name too long.\<close>

definition wf_fs :: "fs \<Rightarrow> bool" where
  "wf_fs fs \<longleftrightarrow> hm_wf id fs \<and>
     (\<forall>e \<in> set fs. fst e \<noteq> [] \<and> fs_lookup fs (butlast (fst e)) = Some Dir \<and> length (last (fst e)) \<le> NAME_MAX)"

lemma fs_lookup_root [simp]: "fs_lookup fs [] = Some Dir"
  by (simp add: fs_lookup_def)

lemma fs_lookup_insert: "p \<noteq> [] \<Longrightarrow> fs_lookup (hm_insert id p n fs) = (fs_lookup fs)(p \<mapsto> n)"
  by (auto simp: fs_lookup_def hash_simps fun_eq_iff)

lemma fs_lookup_remove: "p \<noteq> [] \<Longrightarrow> fs_lookup (hm_remove id p fs) = (fs_lookup fs)(p := None)"
  by (auto simp: fs_lookup_def hash_simps fun_eq_iff)

lemma fs_lookup_mem: "p \<noteq> [] \<Longrightarrow> fs_lookup fs p = Some n \<Longrightarrow> (p, n) \<in> set fs"
  using hm_view_Some_mem [of id fs p n] by (simp add: fs_lookup_def hash_simps)

lemma fs_lookup_mem_iff: "hm_wf id fs \<Longrightarrow> p \<noteq> [] \<Longrightarrow> fs_lookup fs p = Some n \<longleftrightarrow> (p, n) \<in> set fs"
  using fs_lookup_mem [of p fs n] hm_view_mem [of id fs p n] by (auto simp: fs_lookup_def hash_simps)

lemma wf_fs_parent:
  "wf_fs fs \<Longrightarrow> p \<noteq> [] \<Longrightarrow> fs_lookup fs p = Some n \<Longrightarrow>
     fs_lookup fs (butlast p) = Some Dir \<and> length (last p) \<le> NAME_MAX"
  using fs_lookup_mem [of p fs n] by (auto simp: wf_fs_def)

text \<open>Everything above an entry is a directory.\<close>

lemma wf_fs_ancestor:
  assumes "wf_fs fs" and "fs_lookup fs (p @ r) = Some n" and "r \<noteq> []"
  shows "fs_lookup fs p = Some Dir"
  using assms(2,3)
proof (induction r arbitrary: n rule: rev_induct)
  case (snoc x r)
  with wf_fs_parent [OF assms(1), of "p @ r @ [x]" n] have "fs_lookup fs (p @ r) = Some Dir"
    by (simp add: butlast_append)
  with snoc.IH show ?case by (cases "r = []") auto
qed simp

lemma wf_fs_names: "wf_fs fs \<Longrightarrow> fs_lookup fs p = Some n \<Longrightarrow> \<forall>c \<in> set p. length c \<le> NAME_MAX"
proof (induction p arbitrary: n rule: rev_induct)
  case (snoc x p)
  with wf_fs_parent [of fs "p @ [x]" n] have "fs_lookup fs p = Some Dir" "length x \<le> NAME_MAX" by auto
  with snoc show ?case by auto
qed simp

lemma resolve_Ok:
  assumes "wf_fs fs" and "fs_lookup fs (pre @ butlast cs) = Some Dir" and "\<forall>c \<in> set cs. length c \<le> NAME_MAX"
  shows "resolve fs pre cs = Inr ()"
  using assms(2,3)
proof (induction cs arbitrary: pre)
  case (Cons c cs)
  show ?case
  proof (cases "cs = []")
    case False
    have "fs_lookup fs (pre @ [c]) = Some Dir"
    proof (cases "butlast cs = []")
      case True
      with Cons.prems False show ?thesis by simp
    next
      case butl: False
      with wf_fs_ancestor [OF assms(1), of "pre @ [c]" "butlast cs" Dir] Cons.prems False show ?thesis by simp
    qed
    with Cons False show ?thesis by simp
  qed (use Cons.prems in simp)
qed simp

lemma resolve_OkD:
  assumes "resolve fs pre cs = Inr u" and "cs \<noteq> []" and "fs_lookup fs pre = Some Dir"
  shows "fs_lookup fs (pre @ butlast cs) = Some Dir \<and> (\<forall>c \<in> set cs. length c \<le> NAME_MAX)"
  using assms
proof (induction cs arbitrary: pre)
  case (Cons c cs)
  show ?case
  proof (cases "cs = []")
    case False
    with Cons.prems obtain "fs_lookup fs (pre @ [c]) = Some Dir" "resolve fs (pre @ [c]) cs = Inr u"
      by (auto split: if_splits option.splits node.splits)
    with Cons.IH [of "pre @ [c]"] Cons.prems False show ?thesis by (auto split: if_splits)
  qed (use Cons.prems in \<open>auto split: if_splits\<close>)
qed simp

lemma fs_find_Ok_iff: "wf_fs fs \<Longrightarrow> fs_find fs p = Inr n \<longleftrightarrow> fs_lookup fs p = Some n"
proof (cases "p = []")
  case False
  assume wf: "wf_fs fs"
  show ?thesis
  proof
    assume "fs_find fs p = Inr n"
    then show "fs_lookup fs p = Some n" by (auto simp: fs_find_def result_simps)
  next
    assume n: "fs_lookup fs p = Some n"
    with wf_fs_parent [OF wf False n] wf_fs_names [OF wf n] have "resolve fs [] p = Inr ()"
      by (intro resolve_Ok [OF wf]) simp_all
    with n show "fs_find fs p = Inr n" by (simp add: fs_find_def)
  qed
qed (simp add: fs_find_def)

lemma fs_find_Err: "wf_fs fs \<Longrightarrow> fs_find fs p = Inl e \<Longrightarrow> fs_lookup fs p = None"
  using fs_find_Ok_iff [of fs p] by (cases "fs_lookup fs p") auto

lemma resolve_root [simp]: "resolve fs [] [] = Inr ()"
  by simp

lemma wf_fsI:
  assumes "hm_wf id fs" and "\<And>p n. p \<noteq> [] \<Longrightarrow> fs_lookup fs p = Some n \<Longrightarrow>
      fs_lookup fs (butlast p) = Some Dir \<and> length (last p) \<le> NAME_MAX" and "\<forall>e \<in> set fs. fst e \<noteq> []"
  shows "wf_fs fs"
  unfolding wf_fs_def
proof (intro conjI assms(1) ballI)
  fix e
  assume e: "e \<in> set fs"
  with assms(3) have ne: "fst e \<noteq> []" by blast
  with e fs_lookup_mem_iff [OF assms(1), of "fst e" "snd e"] have "fs_lookup fs (fst e) = Some (snd e)" by simp
  with assms(2) ne show "fst e \<noteq> []" "fs_lookup fs (butlast (fst e)) = Some Dir" "length (last (fst e)) \<le> NAME_MAX"
    by auto
qed

lemma wf_fs_hm: "wf_fs fs \<Longrightarrow> hm_wf id fs" and wf_fs_nonroot: "wf_fs fs \<Longrightarrow> \<forall>e \<in> set fs. fst e \<noteq> []"
  by (simp_all add: wf_fs_def)

lemma wf_fs_insert:
  assumes "wf_fs fs" and "p \<noteq> []" and "fs_lookup fs (butlast p) = Some Dir" and "length (last p) \<le> NAME_MAX"
    and "n = Dir \<or> fs_lookup fs p \<noteq> Some Dir"
  shows "wf_fs (hm_insert id p n fs)"
proof (rule wf_fsI)
  show "hm_wf id (hm_insert id p n fs)" using wf_fs_hm [OF assms(1)] by simp
  show "\<forall>e \<in> set (hm_insert id p n fs). fst e \<noteq> []"
    by (rule hm_insert_keys_all) (use assms(2) wf_fs_nonroot [OF assms(1)] in blast)+
  fix q m
  assume q: "q \<noteq> []" "fs_lookup (hm_insert id p n fs) q = Some m"
  show "fs_lookup (hm_insert id p n fs) (butlast q) = Some Dir \<and> length (last q) \<le> NAME_MAX"
  proof (cases "q = p")
    case True
    have "butlast p \<noteq> p" using assms(2) by (metis append_butlast_last_id append_self_conv not_Cons_self2)
    with True assms(2-4) show ?thesis by (simp add: fs_lookup_insert)
  next
    case False
    with q assms(2) have "fs_lookup fs q = Some m" by (simp add: fs_lookup_insert)
    from wf_fs_parent [OF assms(1) q(1) this] assms(2,5) show ?thesis
      by (auto simp: fs_lookup_insert)
  qed
qed

lemma wf_fs_remove_leaf:
  assumes "wf_fs fs" and "p \<noteq> []" and "\<And>x. fs_lookup fs (p @ [x]) = None"
  shows "wf_fs (hm_remove id p fs)"
proof (rule wf_fsI)
  show "hm_wf id (hm_remove id p fs)" using wf_fs_hm [OF assms(1)] by simp
  show "\<forall>e \<in> set (hm_remove id p fs). fst e \<noteq> []" using wf_fs_nonroot [OF assms(1)] by (simp add: hm_remove_def)
  fix q m
  assume q: "q \<noteq> []" "fs_lookup (hm_remove id p fs) q = Some m"
  then have "fs_lookup fs q = Some m" "q \<noteq> p" using assms(2) by (auto simp: fs_lookup_remove split: if_splits)
  moreover from this q(1) assms(3) [of "last q"] have "butlast q \<noteq> p" by (metis append_butlast_last_id option.distinct(1))
  ultimately show "fs_lookup (hm_remove id p fs) (butlast q) = Some Dir \<and> length (last q) \<le> NAME_MAX"
    using wf_fs_parent [OF assms(1) q(1)] assms(2) by (simp add: fs_lookup_remove)
qed

section \<open>Effects of the calls\<close>

text \<open>\<open>fs'\<close> differs from \<open>fs\<close> at most in new directories on the way to \<open>p\<close>.\<close>

definition adds_dirs :: "fs \<Rightarrow> fs \<Rightarrow> fpath \<Rightarrow> bool" where
  "adds_dirs fs fs' p \<longleftrightarrow> wf_fs fs' \<and>
     (\<forall>q. fs_lookup fs' q = fs_lookup fs q \<or>
        fs_lookup fs q = None \<and> fs_lookup fs' q = Some Dir \<and> prefix q p)"

lemma adds_dirs_refl: "wf_fs fs \<Longrightarrow> adds_dirs fs fs p"
  by (simp add: adds_dirs_def)

lemma adds_dirs_trans:
  assumes "adds_dirs fs fs1 p" and "adds_dirs fs1 fs2 p"
  shows "adds_dirs fs fs2 p"
  unfolding adds_dirs_def
proof (intro conjI allI)
  fix q
  from assms have "fs_lookup fs1 q = fs_lookup fs q \<or> fs_lookup fs q = None \<and> fs_lookup fs1 q = Some Dir \<and> prefix q p"
    "fs_lookup fs2 q = fs_lookup fs1 q \<or> fs_lookup fs1 q = None \<and> fs_lookup fs2 q = Some Dir \<and> prefix q p"
    by (simp_all add: adds_dirs_def)
  then show "fs_lookup fs2 q = fs_lookup fs q \<or> fs_lookup fs q = None \<and> fs_lookup fs2 q = Some Dir \<and> prefix q p"
    by force
qed (use assms in \<open>simp add: adds_dirs_def\<close>)

lemma adds_dirs_mono: "adds_dirs fs fs' p \<Longrightarrow> prefix p p' \<Longrightarrow> adds_dirs fs fs' p'"
  unfolding adds_dirs_def
proof (intro conjI allI)
  fix q
  assume "wf_fs fs' \<and> (\<forall>q. fs_lookup fs' q = fs_lookup fs q \<or>
      fs_lookup fs q = None \<and> fs_lookup fs' q = Some Dir \<and> prefix q p)" and "prefix p p'"
  then show "fs_lookup fs' q = fs_lookup fs q \<or> fs_lookup fs q = None \<and> fs_lookup fs' q = Some Dir \<and> prefix q p'"
    using prefix_order.trans [of q p p'] by blast
qed blast

lemma adds_dirs_keeps: "adds_dirs fs fs' p \<Longrightarrow> fs_lookup fs q = Some n \<Longrightarrow> fs_lookup fs' q = Some n"
  unfolding adds_dirs_def by (drule conjunct2, drule spec [of _ q]) auto

lemma adds_dirs_files: "adds_dirs fs fs' p \<Longrightarrow> fs_lookup fs' q = Some (File v) \<longleftrightarrow> fs_lookup fs q = Some (File v)"
  unfolding adds_dirs_def by (drule conjunct2, drule spec [of _ q]) auto

lemma create_dir_effect:
  assumes "create_dir p fs = (fs', r)" and "wf_fs fs"
  shows "adds_dirs fs fs' p \<and> (\<forall>u. r = Inr u \<longrightarrow> fs_lookup fs' p = Some Dir) \<and> (\<forall>e. r = Inl e \<longrightarrow> fs' = fs)"
proof (cases "\<exists>u. r = Inr u")
  case True
  then obtain u where r: "r = Inr u" by blast
  with assms(1) have ok: "resolve fs [] p = Inr ()" "fs_lookup fs p = None" "fs' = hm_insert id p Dir fs"
    by (auto simp: create_dir_def split: sum.splits if_splits)
  from ok(2) have ne: "p \<noteq> []" by auto
  with resolve_OkD [OF ok(1)] have "wf_fs fs'"
    unfolding ok(3) by (intro wf_fs_insert [OF assms(2)]) simp_all
  with ok ne r show ?thesis by (auto simp: adds_dirs_def fs_lookup_insert)
next
  case False
  with assms show ?thesis by (auto simp: create_dir_def adds_dirs_refl split: sum.splits if_splits)
qed

lemma create_dir_all_rev_effect:
  assumes "create_dir_all_rev rp fs = (fs', r)" and "wf_fs fs"
  shows "adds_dirs fs fs' (rev rp) \<and> (\<forall>u. r = Inr u \<longrightarrow> fs_lookup fs' (rev rp) = Some Dir)"
  using assms
proof (induction rp arbitrary: fs fs' r)
  case Nil
  then show ?case by (auto simp: adds_dirs_refl)
next
  case (Cons c up)
  let ?p = "rev (c # up)"
  obtain fs1 r1 where cd: "create_dir ?p fs = (fs1, r1)" by fastforce
  note first = create_dir_effect [OF cd Cons.prems(2)]
  consider (made) u where "r1 = Inr u" | (parents) "r1 = Inl NotFound" | (other) e where "r1 = Inl e" "e \<noteq> NotFound"
    by (cases r1) auto
  then show ?case
  proof cases
    case made
    with Cons.prems(1) cd first show ?thesis by (simp add: Let_def)
  next
    case other
    with Cons.prems first cd fs_find_Ok_iff [OF Cons.prems(2)] show ?thesis
      by (auto simp: Let_def adds_dirs_refl split: if_splits)
  next
    case parents
    obtain fs2 r2 where up: "create_dir_all_rev up fs = (fs2, r2)" by fastforce
    from Cons.IH [OF up Cons.prems(2)] have ih: "adds_dirs fs fs2 ?p"
      by (auto elim!: adds_dirs_mono)
    then have wf2: "wf_fs fs2" by (simp add: adds_dirs_def)
    show ?thesis
    proof (cases r2)
      case (Inl e)
      with Cons.prems(1) cd parents up ih show ?thesis by (auto simp: Let_def)
    next
      case (Inr u)
      obtain fs3 r3 where cd2: "create_dir ?p fs2 = (fs3, r3)" by fastforce
      from create_dir_effect [OF cd2 wf2] Cons.prems(1) cd parents up Inr cd2 ih fs_find_Ok_iff [OF wf2]
      show ?thesis
        by (cases r3) (auto simp: Let_def intro: adds_dirs_trans split: if_splits)
    qed
  qed
qed

lemma create_dir_all_effect:
  assumes "create_dir_all p fs = (fs', r)" and "wf_fs fs"
  shows "adds_dirs fs fs' p \<and> (\<forall>u. r = Inr u \<longrightarrow> fs_lookup fs' p = Some Dir)"
  using create_dir_all_rev_effect [of "rev p" fs fs' r] assms by (simp add: create_dir_all_def)

lemma fs_write_effect:
  assumes "fs_write p v fs = (fs', r)" and "wf_fs fs"
  shows "wf_fs fs' \<and>
    (case r of Inl e \<Rightarrow> fs' = fs | Inr _ \<Rightarrow> p \<noteq> [] \<and> fs_lookup fs p \<noteq> Some Dir \<and> fs_lookup fs' = (fs_lookup fs)(p \<mapsto> File v))"
proof (cases "\<exists>u. r = Inr u")
  case True
  then obtain u where r: "r = Inr u" by blast
  with assms(1) have ok: "resolve fs [] p = Inr ()" "fs_lookup fs p \<noteq> Some Dir" "fs' = hm_insert id p (File v) fs"
    by (auto simp: fs_write_def split: sum.splits if_splits)
  from ok(2) have ne: "p \<noteq> []" by auto
  with resolve_OkD [OF ok(1)] ok(2) have "wf_fs fs'"
    unfolding ok(3) by (intro wf_fs_insert [OF assms(2)]) simp_all
  with ok ne r show ?thesis by (simp add: fs_lookup_insert)
next
  case False
  with assms show ?thesis by (auto simp: fs_write_def split: sum.splits if_splits)
qed

lemma has_children_iff:
  assumes "wf_fs fs"
  shows "has_children fs p \<longleftrightarrow> (\<exists>x. fs_lookup fs (p @ [x]) \<noteq> None)"
proof
  assume "has_children fs p"
  then obtain e where e: "e \<in> set fs" "fst e \<noteq> []" "butlast (fst e) = p" by (auto simp: has_children_def list_ex_iff)
  then have "fs_lookup fs (fst e) = Some (snd e)" using fs_lookup_mem_iff [OF wf_fs_hm [OF assms]] by simp
  moreover have "fst e = p @ [last (fst e)]" using e(2,3) append_butlast_last_id [of "fst e"] by simp
  ultimately show "\<exists>x. fs_lookup fs (p @ [x]) \<noteq> None" by (metis option.distinct(1))
next
  assume "\<exists>x. fs_lookup fs (p @ [x]) \<noteq> None"
  then obtain x n where "fs_lookup fs (p @ [x]) = Some n" by auto
  from fs_lookup_mem [OF _ this] show "has_children fs p" by (force simp: has_children_def list_ex_iff)
qed

lemma file_no_children:
  "wf_fs fs \<Longrightarrow> fs_lookup fs p = Some (File v) \<Longrightarrow> fs_lookup fs (p @ [x]) = None"
  using wf_fs_parent [of fs "p @ [x]"] by (cases "fs_lookup fs (p @ [x])") auto

lemma remove_file_effect:
  assumes "remove_file p fs = (fs', r)" and "wf_fs fs"
  shows "wf_fs fs' \<and>
    (case r of Inl e \<Rightarrow> fs' = fs \<and> (\<forall>v. fs_lookup fs p \<noteq> Some (File v)) \<and> (e = NotFound \<longrightarrow> fs_lookup fs p = None)
     | Inr _ \<Rightarrow> fs_lookup fs' = (fs_lookup fs)(p := None) \<and> (\<exists>v. fs_lookup fs p = Some (File v)))"
proof (cases "fs_find fs p")
  case (Inl e)
  with assms fs_find_Err [OF assms(2) Inl] show ?thesis by (auto simp: remove_file_def)
next
  case (Inr n)
  then have n: "fs_lookup fs p = Some n" using fs_find_Ok_iff [OF assms(2)] by simp
  show ?thesis
  proof (cases n)
    case Dir
    with assms Inr n show ?thesis by (auto simp: remove_file_def)
  next
    case (File v)
    with n have ne: "p \<noteq> []" by auto
    have "wf_fs (hm_remove id p fs)"
      using wf_fs_remove_leaf [OF assms(2) ne] file_no_children [OF assms(2)] n File by blast
    with assms Inr File n ne show ?thesis by (auto simp: remove_file_def fs_lookup_remove)
  qed
qed

lemma remove_dir_effect:
  assumes "remove_dir p fs = (fs', r)" and "wf_fs fs" and "p \<noteq> []"
  shows "wf_fs fs' \<and>
    (case r of Inl e \<Rightarrow> fs' = fs
     | Inr _ \<Rightarrow> fs_lookup fs' = (fs_lookup fs)(p := None) \<and> fs_lookup fs p = Some Dir)"
proof (cases "fs_find fs p = Inr Dir \<and> \<not> has_children fs p")
  case True
  then have "fs_lookup fs p = Some Dir" using fs_find_Ok_iff [OF assms(2)] by simp
  moreover have "wf_fs (hm_remove id p fs)"
    using True wf_fs_remove_leaf [OF assms(2,3)] has_children_iff [OF assms(2), of p] by auto
  moreover have "fs' = hm_remove id p fs" "r = Inr ()" using True assms(1) by (simp_all add: remove_dir_def)
  ultimately show ?thesis using assms(3) by (simp add: fs_lookup_remove)
next
  case False
  with assms(1) have "fs' = fs" "\<exists>e. r = Inl e"
    by (auto simp: remove_dir_def split: sum.splits node.splits if_splits)
  with assms(2) show ?thesis by auto
qed

lemma fs_lookup_filter:
  assumes "p \<noteq> []"
  shows "fs_lookup (filter (\<lambda>e. take (length p) (fst e) \<noteq> p) fs) q = (if prefix p q then None else fs_lookup fs q)"
proof (cases "q = []")
  case True
  with assms show ?thesis by (simp add: fs_lookup_def)
next
  case False
  have "hm_view id (filter (\<lambda>e. take (length p) (fst e) \<noteq> p) fs) q = (if take (length p) q = p then None else hm_view id fs q)"
    by (induction fs) (auto simp: hm_view_def)
  with False show ?thesis
    by (simp add: fs_lookup_def hash_simps) (metis append_eq_conv_conj prefix_def take_is_prefix)
qed

lemma remove_dir_all_effect:
  assumes "remove_dir_all p fs = (fs', r)" and "wf_fs fs" and "p \<noteq> []"
  shows "wf_fs fs' \<and>
    (case r of Inl e \<Rightarrow> fs' = fs \<and> fs_lookup fs p \<noteq> Some Dir
     | Inr _ \<Rightarrow> fs_lookup fs p = Some Dir \<and> fs_lookup fs' = (\<lambda>q. if prefix p q then None else fs_lookup fs q))"
proof (cases "fs_find fs p = Inr Dir")
  case True
  then have dir: "fs_lookup fs p = Some Dir" using fs_find_Ok_iff [OF assms(2)] by simp
  let ?fs = "filter (\<lambda>e. take (length p) (fst e) \<noteq> p) fs"
  have "wf_fs ?fs"
  proof (rule wf_fsI)
    show "hm_wf id ?fs" using wf_fs_hm [OF assms(2)] by (simp add: hm_wf_def distinct_map_filter)
    show "\<forall>e \<in> set ?fs. fst e \<noteq> []" using wf_fs_nonroot [OF assms(2)] by simp
    fix q n
    assume q: "q \<noteq> []" "fs_lookup ?fs q = Some n"
    then have nq: "\<not> prefix p q" "fs_lookup fs q = Some n" by (auto simp: fs_lookup_filter [OF assms(3)] split: if_splits)
    from nq(1) have "\<not> prefix p (butlast q)" using prefix_order.trans [OF _ prefixeq_butlast] by blast
    with wf_fs_parent [OF assms(2) q(1) nq(2)]
    show "fs_lookup ?fs (butlast q) = Some Dir \<and> length (last q) \<le> NAME_MAX"
      by (simp add: fs_lookup_filter [OF assms(3)])
  qed
  moreover have "fs' = ?fs" "r = Inr ()" using True assms(1) by (simp_all add: remove_dir_all_def)
  ultimately show ?thesis using dir by (simp add: fs_lookup_filter [OF assms(3)] fun_eq_iff)
next
  case False
  with assms(1) have "fs' = fs" "\<exists>e. r = Inl e"
    by (auto simp: remove_dir_all_def split: sum.splits node.splits)
  with assms(2) False show ?thesis using fs_find_Ok_iff [OF assms(2)] by auto
qed

lemma read_to_string_Ok_iff:
  "wf_fs fs \<Longrightarrow> read_to_string fs p = Inr v \<longleftrightarrow> fs_lookup fs p = Some (File v)"
  using fs_find_Ok_iff [of fs p] by (cases "fs_find fs p") (auto simp: read_to_string_def split: node.splits)

lemma read_to_string_NotFound: "wf_fs fs \<Longrightarrow> read_to_string fs p = Inl NotFound \<Longrightarrow> fs_lookup fs p = None"
  using fs_find_Err [of fs p] by (cases "fs_find fs p") (auto simp: read_to_string_def split: node.splits)

lemma fs_exists_iff: "wf_fs fs \<Longrightarrow> fs_exists fs p \<longleftrightarrow> fs_lookup fs p \<noteq> None"
  using fs_find_Ok_iff [of fs p] by (auto simp: fs_exists_def is_ok_iff)

section \<open>Paths\<close>

lemma split_on_append_sep: "split_on c (a @ c # b) = split_on c a @ split_on c b"
proof (induction a)
  case (Cons x a)
  then show ?case by (cases "split_on c a") auto
qed simp

lemma path_components_append: "path_components (a @ CHR ''/'' # b) = path_components a @ path_components b"
  by (simp add: path_components_def split_on_append_sep)

lemma path_components_join:
  assumes "\<forall>c \<in> set cs. c \<noteq> [] \<and> c \<noteq> ''.'' \<and> CHR ''/'' \<notin> set c"
  shows "path_components (join [CHR ''/''] cs) = cs"
proof (cases "cs = []")
  case False
  with assms split_on_join [of cs "CHR ''/''"] show ?thesis
    by (simp add: path_components_def filter_id_conv)
qed (simp add: path_components_def)

lemma path_components_Nil [simp]: "path_components [] = []"
  by (simp add: path_components_def)

lemma path_components_slash:
  assumes "a \<noteq> []" and "last a = CHR ''/''"
  shows "path_components (a @ b) = path_components a @ path_components b"
proof -
  obtain a' where "a = a' @ [CHR ''/'']" using assms append_butlast_last_id [of a] by metis
  then show ?thesis using path_components_append [of a' b] path_components_append [of a' "[]"] by simp
qed

lemma path_components_path_join:
  assumes "b = [] \<or> hd b \<noteq> CHR ''/''"
  shows "path_components (path_join a b) = path_components a @ path_components b"
  using assms path_components_slash [of a b]
  by (cases "a = []") (auto simp: path_join_def path_components_append)

end
