(* ===== verification/Datastore_Filesystem.thy ===== *)
theory Datastore_Filesystem
  imports Datastore_Trait Filesystem
begin

text \<open>
  The file system store (\<open>sources/api/datastore/src/filesystem.rs\<close>) over the file system of
  \<open>Filesystem\<close>. The crates \<open>percent_encoding\<close> and \<open>walkdir\<close> are parameters, gathered in the record
  \<open>fs_lib\<close>; the locale \<open>fs_library\<close> states what their documentation promises, and the store is shown
  to implement the contract of \<open>Datastore_Trait\<close> for every such library.
\<close>

section \<open>Definitions\<close>

text \<open>
  \<open>percent_encode\<close> is \<open>utf8_percent_encode\<close> with its set of characters to encode, \<open>percent_decode\<close> is
  \<open>percent_decode_str\<close> followed by \<open>decode_utf8\<close>, and \<open>walk_dir\<close> is \<open>WalkDir\<close> with its minimum and
  maximum depth: each entry carries its path and whether it is a regular file.
\<close>

record fs_lib =
  percent_encode :: "(char \<Rightarrow> bool) \<Rightarrow> string \<Rightarrow> string"
  percent_decode :: "string \<Rightarrow> string option"
  walk_dir :: "nat \<Rightarrow> nat option \<Rightarrow> fs \<Rightarrow> fpath \<Rightarrow> (io_kind + fpath \<times> bool) list"

definition METADATA_KEY_PREFIX :: string where
  [simp]: "METADATA_KEY_PREFIX = ''.''"

definition alphanumeric :: "char \<Rightarrow> bool" where
  "alphanumeric c \<longleftrightarrow>
     (let n = (of_char c :: nat) in (97 \<le> n \<and> n \<le> 122) \<or> (65 \<le> n \<and> n \<le> 90) \<or> (48 \<le> n \<and> n \<le> 57))"

text \<open>\<open>NON_ALPHANUMERIC.remove(b'_').remove(b'-')\<close>\<close>

definition ENCODE_CHARACTERS :: "char \<Rightarrow> bool" where
  "ENCODE_CHARACTERS c \<longleftrightarrow> \<not> alphanumeric c \<and> c \<noteq> CHR ''_'' \<and> c \<noteq> CHR ''-''"

record fs_store =
  live_path :: string
  pending_base_path :: string

definition fs_store_new :: "string \<Rightarrow> fs_store" where
  "fs_store_new base_path =
     \<lparr>live_path = path_join base_path ''live'', pending_base_path = path_join base_path ''pending''\<rparr>"

definition encode_path_component :: "fs_lib \<Rightarrow> string \<Rightarrow> string" where
  "encode_path_component lib segment = percent_encode lib ENCODE_CHARACTERS segment"

definition decode_path_component :: "fs_lib \<Rightarrow> string \<Rightarrow> fpath \<Rightarrow> datastore_error + string" where
  "decode_path_component lib segment p =
     ok_or (Corruption ''invalid UTF-8 in encoded segment'' p) (percent_decode lib segment)"

definition base_path :: "fs_lib \<Rightarrow> fs_store \<Rightarrow> committed \<Rightarrow> string" where
  "base_path lib st c =
     (case c of
        Pending tx \<Rightarrow> path_join (pending_base_path st) (encode_path_component lib tx)
      | Live \<Rightarrow> live_path st)"

definition data_path :: "fs_lib \<Rightarrow> fs_store \<Rightarrow> key \<Rightarrow> committed \<Rightarrow> datastore_error + string" where
  "data_path lib st k c =
     (let base = base_path lib st c;
          encoded = map (encode_path_component lib) (key_segments k);
          path_suffix = join ''/'' encoded;
          path = path_join base path_suffix
      in and_then (ensure (path_components path \<noteq> path_components base \<and>
                           prefix (path_components base) (path_components path))
                     (PathTraversal (key_name k))) (\<lambda>_. Inr path))"

definition metadata_path :: "fs_lib \<Rightarrow> fs_store \<Rightarrow> key \<Rightarrow> key \<Rightarrow> committed \<Rightarrow> datastore_error + string" where
  "metadata_path lib st mk dk c =
     and_then (data_path lib st dk c) (\<lambda>path.
       case key_segments mk of
         [] \<Rightarrow> Inl (Internal ''metadata key with no segments'')
       | raw_key_name # _ \<Rightarrow> Inr (path @ METADATA_KEY_PREFIX @ encode_path_component lib raw_key_name))"

text \<open>
  The loop of \<open>delete_key_path\<close> over the ancestors of a path, given in reverse: the directory
  itself is dealt with, then its parent.
\<close>

fun delete_ancestors :: "fpath \<Rightarrow> fpath \<Rightarrow> fs \<Rightarrow> fs" where
  "delete_ancestors base rp fs =
     (if rev rp = base then fs
      else case remove_dir (rev rp) fs of
             (fs', Inr _) \<Rightarrow> (case rp of [] \<Rightarrow> fs' | _ # up \<Rightarrow> delete_ancestors base up fs')
           | (_, Inl e) \<Rightarrow>
               if e = NotFound then (case rp of [] \<Rightarrow> fs | _ # up \<Rightarrow> delete_ancestors base up fs)
               else fs)"

declare delete_ancestors.simps [simp del]

definition delete_key_path ::
  "fs_lib \<Rightarrow> fs_store \<Rightarrow> string \<Rightarrow> committed \<Rightarrow> fs \<Rightarrow> fs \<times> (datastore_error + unit)" where
  "delete_key_path lib st path c fs =
     (let p = path_components path in
      case remove_file p fs of
        (fs1, r) \<Rightarrow>
          if (case r of Inl e \<Rightarrow> e \<noteq> NotFound | Inr _ \<Rightarrow> False) then (fs1, map_err (DeleteKey p) r)
          else
            (if p = [] then fs1
             else delete_ancestors (path_components (base_path lib st c)) (tl (rev p)) fs1, Inr ()))"

definition read_file_for_key :: "fs \<Rightarrow> key \<Rightarrow> string \<Rightarrow> datastore_error + string option" where
  "read_file_for_key fs k path =
     (case read_to_string fs (path_components path) of
        Inr s \<Rightarrow> Inr (Some s)
      | Inl e \<Rightarrow> if e = NotFound then Inr None else Inl (KeyRead (key_name k) e))"

definition write_file_mkdir :: "string \<Rightarrow> string \<Rightarrow> fs \<Rightarrow> fs \<times> (datastore_error + unit)" where
  "write_file_mkdir path contents fs =
     (let p = path_components path in
      if p = [] then (fs, Inl (Internal ''Given path to write without proper prefix''))
      else op_bind (create_dir_all (butlast p) fs)
             (\<lambda>_ fs1. case fs_write p contents fs1 of (fs2, r) \<Rightarrow> (fs2, map_err (Io p) r)) (Io (butlast p)))"

record key_path =
  kp_data_key :: key
  kp_metadata_key :: "key option"

definition from_path :: "fs_lib \<Rightarrow> fpath \<Rightarrow> datastore_error + key_path" where
  "from_path lib p =
     (case splitn2 (CHR ''.'') (join ''/'' p) of (data_key_raw, meta_key_str) \<Rightarrow>
       and_then (try_map (\<lambda>s. decode_path_component lib s p) (split_on (CHR ''/'') data_key_raw)) (\<lambda>data_segments.
       and_then (from_segments Data data_segments) (\<lambda>data_key.
       and_then (case meta_key_str of
                   Some m \<Rightarrow> and_then (key_new Meta m) (\<lambda>k. Inr (Some k))
                 | None \<Rightarrow> Inr None) (\<lambda>metadata_key.
       Inr \<lparr>kp_data_key = data_key, kp_metadata_key = metadata_key\<rparr>))))"

definition key_type :: "key_path \<Rightarrow> KeyType" where
  "key_type kp = (case kp_metadata_key kp of Some _ \<Rightarrow> Meta | None \<Rightarrow> Data)"

definition from_entry :: "fs_lib \<Rightarrow> fpath \<times> bool \<Rightarrow> fpath \<Rightarrow> datastore_error + key_path option" where
  "from_entry lib entry strip_path_prefix =
     (case entry of (p, is_file) \<Rightarrow>
       if \<not> is_file then Inr None
       else and_then (ensure (prefix strip_path_prefix p) PathError) (\<lambda>_.
         Inr (ok_option (from_path lib (drop (length strip_path_prefix) p)))))"

text \<open>Key paths are compared like keys, by segments.\<close>

definition key_path_id :: "key_path \<Rightarrow> string list \<times> string list option" where
  "key_path_id kp = (key_segments (kp_data_key kp), map_option key_segments (kp_metadata_key kp))"

definition find_populated_key_paths ::
  "fs_lib \<Rightarrow> fs_store \<Rightarrow> fs \<Rightarrow> KeyType \<Rightarrow> string \<Rightarrow> committed \<Rightarrow> datastore_error + key_path list" where
  "find_populated_key_paths lib st fs ktype pre c =
     (let base = path_components (base_path lib st c) in
      if \<not> fs_exists fs base then
        (case c of
           Live \<Rightarrow> Inl (Corruption ''Live datastore missing'' base)
         | Pending _ \<Rightarrow> Inr [])
      else
        try_fold (\<lambda>key_paths entry.
          and_then (map_err ListKeys entry) (\<lambda>entry.
          and_then (from_entry lib entry base) (\<lambda>found.
            case found of
              None \<Rightarrow> Inr key_paths
            | Some kp \<Rightarrow>
                if \<not> starts_with (key_name (kp_data_key kp)) pre then Inr key_paths
                else if key_type kp \<noteq> ktype then Inr key_paths
                else Inr (hs_insert key_path_id kp key_paths)))) [] (walk_dir lib 0 None fs base))"

definition fs_key_populated :: "fs_lib \<Rightarrow> fs_store \<Rightarrow> fs \<Rightarrow> key \<Rightarrow> committed \<Rightarrow> datastore_error + bool" where
  "fs_key_populated lib st fs k c =
     and_then (data_path lib st k c) (\<lambda>path. Inr (fs_exists fs (path_components path)))"

definition fs_list_populated_keys ::
  "fs_lib \<Rightarrow> fs_store \<Rightarrow> fs \<Rightarrow> string \<Rightarrow> committed \<Rightarrow> datastore_error + key list" where
  "fs_list_populated_keys lib st fs pre c =
     and_then (find_populated_key_paths lib st fs Data pre c) (\<lambda>key_paths.
       Inr (fold (\<lambda>kp. hs_insert key_segments (kp_data_key kp)) key_paths []))"

definition fs_list_populated_metadata ::
  "fs_lib \<Rightarrow> fs_store \<Rightarrow> fs \<Rightarrow> string \<Rightarrow> committed \<Rightarrow> string option \<Rightarrow>
     datastore_error + (key, key list) hashmap" where
  "fs_list_populated_metadata lib st fs pre c metadata_key_name =
     and_then (find_populated_key_paths lib st fs Meta pre c) (\<lambda>key_paths.
       try_fold (\<lambda>result key_path.
         case kp_metadata_key key_path of
           None \<Rightarrow> Inl (Internal ''Found meta key path with no dot'')
         | Some meta_key \<Rightarrow>
             if metadata_key_name \<noteq> None \<and> metadata_key_name \<noteq> Some (key_name meta_key) then Inr result
             else
               let data_key = kp_data_key key_path;
                   data_entry = (case hm_get key_segments data_key result of Some e \<Rightarrow> e | None \<Rightarrow> [])
               in Inr (hm_insert key_segments data_key (hs_insert key_segments meta_key data_entry) result))
         [] key_paths)"

definition fs_get_key :: "fs_lib \<Rightarrow> fs_store \<Rightarrow> fs \<Rightarrow> key \<Rightarrow> committed \<Rightarrow> datastore_error + string option" where
  "fs_get_key lib st fs k c = and_then (data_path lib st k c) (read_file_for_key fs k)"

definition fs_set_key ::
  "fs_lib \<Rightarrow> fs_store \<Rightarrow> key \<Rightarrow> string \<Rightarrow> committed \<Rightarrow> fs \<Rightarrow> fs \<times> (datastore_error + unit)" where
  "fs_set_key lib st k v c fs = op_bind (fs, data_path lib st k c) (\<lambda>path. write_file_mkdir path v) id"

definition fs_unset_key ::
  "fs_lib \<Rightarrow> fs_store \<Rightarrow> key \<Rightarrow> committed \<Rightarrow> fs \<Rightarrow> fs \<times> (datastore_error + unit)" where
  "fs_unset_key lib st k c fs =
     op_bind (fs, data_path lib st k c) (\<lambda>path. delete_key_path lib st path c) id"

definition fs_get_metadata_raw ::
  "fs_lib \<Rightarrow> fs_store \<Rightarrow> fs \<Rightarrow> key \<Rightarrow> key \<Rightarrow> committed \<Rightarrow> datastore_error + string option" where
  "fs_get_metadata_raw lib st fs mk dk c = and_then (metadata_path lib st mk dk c) (read_file_for_key fs mk)"

definition fs_set_metadata ::
  "fs_lib \<Rightarrow> fs_store \<Rightarrow> key \<Rightarrow> key \<Rightarrow> string \<Rightarrow> committed \<Rightarrow> fs \<Rightarrow> fs \<times> (datastore_error + unit)" where
  "fs_set_metadata lib st mk dk v c fs =
     op_bind (fs, metadata_path lib st mk dk c) (\<lambda>path. write_file_mkdir path v) id"

definition fs_unset_metadata ::
  "fs_lib \<Rightarrow> fs_store \<Rightarrow> key \<Rightarrow> key \<Rightarrow> fs \<Rightarrow> fs \<times> (datastore_error + unit)" where
  "fs_unset_metadata lib st mk dk fs =
     op_bind (fs, metadata_path lib st mk dk Live) (\<lambda>path. delete_key_path lib st path Live) id"

text \<open>
  \<open>list_transactions\<close>: a walk over the children of the pending directory. A missing directory ends
  the loop, any other failure is returned.
\<close>

fun list_transactions_loop ::
  "fs_lib \<Rightarrow> (io_kind + fpath \<times> bool) list \<Rightarrow> string list \<Rightarrow> datastore_error + string list" where
  "list_transactions_loop lib [] transactions = Inr transactions"
| "list_transactions_loop lib (Inl e # entries) transactions =
     (if e = NotFound then Inr transactions else Inl (ListKeys e))"
| "list_transactions_loop lib (Inr (p, is_file) # entries) transactions =
     (if is_file then list_transactions_loop lib entries transactions
      else and_then (decode_path_component lib (last p) p) (\<lambda>transaction.
             list_transactions_loop lib entries (hs_insert id transaction transactions)))"

definition fs_list_transactions :: "fs_lib \<Rightarrow> fs_store \<Rightarrow> fs \<Rightarrow> datastore_error + string list" where
  "fs_list_transactions lib st fs =
     list_transactions_loop lib (walk_dir lib 1 (Some 1) fs (path_components (pending_base_path st))) []"

definition fs_commit_transaction ::
  "fs_lib \<Rightarrow> fs_store \<Rightarrow> string \<Rightarrow> (fs, 'b) constraint_check \<Rightarrow> fs \<Rightarrow> fs \<times> (datastore_error + key list)" where
  "fs_commit_transaction lib st transaction constraint_check fs =
     op_bind (fs, fs_list_transactions lib st fs) (\<lambda>transactions fs.
       if transaction \<notin> set transactions then (fs, Inr [])
       else
         op_bind (constraint_check fs (Pending transaction)) (\<lambda>constraints_check_result fs.
         op_bind (fs, approved_write_try_from constraints_check_result) (\<lambda>aw fs.
         op_bind (for_each (\<lambda>(mk, dk, v). fs_set_metadata lib st mk dk v Live) (aw_metadata aw) fs) (\<lambda>_ fs.
         op_bind
           (if aw_settings aw \<noteq> [] then
              op_bind (set_keys_with (fs_set_key lib st) (aw_settings aw) Live fs)
                (\<lambda>_ fs. (fs, Inr (map fst (aw_settings aw)))) id
            else (fs, Inr [])) (\<lambda>pending_keys fs.
         let path = path_components (base_path lib st (Pending transaction)) in
         op_bind (remove_dir_all path fs) (\<lambda>_ fs. (fs, Inr pending_keys)) (Io path)) id) id) id)
         (\<lambda>_. CheckConstraintExecution)) id"

definition fs_delete_transaction ::
  "fs_lib \<Rightarrow> fs_store \<Rightarrow> string \<Rightarrow> fs \<Rightarrow> fs \<times> (datastore_error + key list)" where
  "fs_delete_transaction lib st transaction fs =
     op_bind (fs, get_prefix_with (fs_list_populated_keys lib st) (fs_get_key lib st) fs ''settings.'' (Pending transaction))
       (\<lambda>pending_data fs.
          let path = path_components (base_path lib st (Pending transaction)) in
          case remove_dir_all path fs of
            (fs1, Inr _) \<Rightarrow> (fs1, Inr (map fst pending_data))
          | (fs1, Inl e) \<Rightarrow>
              if e \<noteq> NotFound then (fs1, Inl (Io path e)) else (fs1, Inr (map fst pending_data))) id"

definition fs_data_store :: "fs_lib \<Rightarrow> fs_store \<Rightarrow> (fs, 'b) data_store" where
  "fs_data_store lib st = \<lparr>
     ds_key_populated = fs_key_populated lib st,
     ds_list_populated_keys = fs_list_populated_keys lib st,
     ds_list_populated_metadata = fs_list_populated_metadata lib st,
     ds_get_key = fs_get_key lib st,
     ds_set_key = fs_set_key lib st,
     ds_unset_key = fs_unset_key lib st,
     ds_get_metadata_raw = fs_get_metadata_raw lib st,
     ds_set_metadata = fs_set_metadata lib st,
     ds_unset_metadata = fs_unset_metadata lib st,
     ds_commit_transaction = fs_commit_transaction lib st,
     ds_delete_transaction = fs_delete_transaction lib st,
     ds_list_transactions = fs_list_transactions lib st\<rparr>"

section \<open>What the store holds\<close>

definition file_at :: "fs \<Rightarrow> fpath \<Rightarrow> string option" where
  "file_at fs p = (case fs_lookup fs p of Some (File v) \<Rightarrow> Some v | _ \<Rightarrow> None)"

definition store_root :: "fs_lib \<Rightarrow> string \<Rightarrow> committed \<Rightarrow> fpath" where
  "store_root lib base c = path_components base @
     (case c of Live \<Rightarrow> [''live''] | Pending tx \<Rightarrow> [''pending'', encode_path_component lib tx])"

definition key_file :: "fs_lib \<Rightarrow> string list \<Rightarrow> fpath" where
  "key_file lib q = map (encode_path_component lib) q"

definition meta_file :: "fs_lib \<Rightarrow> string list \<Rightarrow> string \<Rightarrow> fpath" where
  "meta_file lib q m = map (encode_path_component lib) (butlast q) @
     [encode_path_component lib (last q) @ CHR ''.'' # encode_path_component lib m]"

definition store_file :: "fs_lib \<Rightarrow> fpath \<Rightarrow> bool" where
  "store_file lib r \<longleftrightarrow>
     (\<exists>q. good_segments q \<and> r = key_file lib q) \<or>
     (\<exists>q m. good_segments q \<and> wf_segment m \<and> r = meta_file lib q m)"

definition fs_data :: "fs_lib \<Rightarrow> string \<Rightarrow> fs \<Rightarrow> committed \<Rightarrow> string list \<Rightarrow> string option" where
  "fs_data lib base fs c q =
     (if good_committed c \<and> good_segments q then file_at fs (store_root lib base c @ key_file lib q) else None)"

definition fs_meta :: "fs_lib \<Rightarrow> string \<Rightarrow> fs \<Rightarrow> committed \<Rightarrow> string list \<times> string \<Rightarrow> string option" where
  "fs_meta lib base fs c = (\<lambda>(q, m).
     if good_committed c \<and> good_segments q \<and> wf_segment m
     then file_at fs (store_root lib base c @ meta_file lib q m) else None)"

text \<open>
  The live directory exists, and every file under it or under a transaction is the file of a data
  or metadata key. (An empty store with just the live directory satisfies this.)
\<close>

definition fs_inv :: "fs_lib \<Rightarrow> string \<Rightarrow> fs \<Rightarrow> bool" where
  "fs_inv lib base fs \<longleftrightarrow> wf_fs fs \<and> fs_lookup fs (store_root lib base Live) = Some Dir \<and>
     (\<forall>c r v. good_committed c \<longrightarrow> file_at fs (store_root lib base c @ r) = Some v \<longrightarrow> store_file lib r)"

text \<open>The key path that a file under the base stands for, if the search accepts it.\<close>

definition accepted :: "fs_lib \<Rightarrow> KeyType \<Rightarrow> string \<Rightarrow> fpath \<Rightarrow> key_path option" where
  "accepted lib t pre r = (case from_path lib r of
     Inr kp \<Rightarrow> if starts_with (key_name (kp_data_key kp)) pre \<and> key_type kp = t then Some kp else None
   | Inl _ \<Rightarrow> None)"

lemma file_at_Some [simp]: "file_at fs p = Some v \<longleftrightarrow> fs_lookup fs p = Some (File v)"
  by (auto simp: file_at_def split: option.splits node.splits)

lemma adds_dirs_file_at: "adds_dirs fs fs' p \<Longrightarrow> file_at fs' = file_at fs"
proof
  fix q
  assume "adds_dirs fs fs' p"
  then show "file_at fs' q = file_at fs q" by (intro option_eqI) (simp add: adds_dirs_files)
qed

lemma write_file_mkdir_effect:
  assumes "write_file_mkdir path v fs = (fs', r)" and "wf_fs fs"
  shows "wf_fs fs' \<and> (\<forall>q. fs_lookup fs q = Some Dir \<longrightarrow> fs_lookup fs' q = Some Dir) \<and>
    (case r of Inl _ \<Rightarrow> file_at fs' = file_at fs | Inr _ \<Rightarrow> file_at fs' = (file_at fs)(path_components path \<mapsto> v))"
proof (cases "path_components path = []")
  case True
  with assms show ?thesis by (auto simp: write_file_mkdir_def)
next
  case False
  let ?p = "path_components path"
  obtain fs1 r1 where mk: "create_dir_all (butlast ?p) fs = (fs1, r1)" by fastforce
  have made: "adds_dirs fs fs1 (butlast ?p)" using create_dir_all_effect [OF mk assms(2)] by blast
  then have wf1: "wf_fs fs1" by (simp add: adds_dirs_def)
  have files: "file_at fs1 = file_at fs" using made by (rule adds_dirs_file_at)
  have dirs: "fs_lookup fs1 q = Some Dir" if "fs_lookup fs q = Some Dir" for q
    using made that by (blast intro: adds_dirs_keeps)
  show ?thesis
  proof (cases r1)
    case (Inl e)
    with assms(1) mk False wf1 files dirs show ?thesis by (auto simp: write_file_mkdir_def Let_def)
  next
    case (Inr u)
    obtain fs2 r2 where wr: "fs_write ?p v fs1 = (fs2, r2)" by fastforce
    from assms(1) mk Inr False wr have res: "fs' = fs2" "r = map_err (Io ?p) r2"
      by (simp_all add: write_file_mkdir_def Let_def)
    note written = fs_write_effect [OF wr wf1]
    show ?thesis
    proof (cases r2)
      case (Inl e)
      with written res wf1 files dirs show ?thesis by simp
    next
      case (Inr u')
      with written have w: "wf_fs fs2" "fs_lookup fs1 ?p \<noteq> Some Dir" "fs_lookup fs2 = (fs_lookup fs1)(?p \<mapsto> File v)"
        by simp_all
      then have "file_at fs2 = (file_at fs1)(?p \<mapsto> v)" by (simp add: file_at_def fun_eq_iff)
      moreover have "fs_lookup fs2 q = Some Dir" if "fs_lookup fs q = Some Dir" for q
        using dirs [OF that] w(2,3) by auto
      ultimately show ?thesis using res Inr w(1) files by simp
    qed
  qed
qed

lemma delete_ancestors_effect:
  assumes "wf_fs fs" and "prefix base (rev rp)"
  shows "wf_fs (delete_ancestors base rp fs) \<and> file_at (delete_ancestors base rp fs) = file_at fs \<and>
    fs_lookup (delete_ancestors base rp fs) base = fs_lookup fs base"
  using assms
proof (induction rp arbitrary: fs)
  case Nil
  then show ?case by (simp add: delete_ancestors.simps)
next
  case (Cons x up)
  show ?case
  proof (cases "rev (x # up) = base")
    case True
    with Cons.prems show ?thesis by (simp add: delete_ancestors.simps)
  next
    case False
    with Cons.prems(2) have up: "prefix base (rev up)" by simp
    obtain fs1 r where rd: "remove_dir (rev (x # up)) fs = (fs1, r)" by fastforce
    note effect = remove_dir_effect [OF rd Cons.prems(1)]
    show ?thesis
    proof (cases r)
      case (Inl e)
      with effect have "fs1 = fs" by simp
      with rd False Inl Cons.IH [OF Cons.prems(1) up] Cons.prems(1) show ?thesis
        by (simp add: delete_ancestors.simps [of base "x # up"])
    next
      case (Inr u)
      with effect have e: "wf_fs fs1" "fs_lookup fs1 = (fs_lookup fs)(rev (x # up) := None)"
        "fs_lookup fs (rev (x # up)) = Some Dir" by simp_all
      then have "file_at fs1 = file_at fs" "fs_lookup fs1 base = fs_lookup fs base"
        using False by (auto simp: file_at_def fun_eq_iff)
      with rd False Inr Cons.IH [OF e(1) up] show ?thesis
        by (simp add: delete_ancestors.simps [of base "x # up"])
    qed
  qed
qed

text \<open>Nothing outside the base directory is touched.\<close>

lemma delete_ancestors_outside:
  assumes "wf_fs fs" and "prefix base (rev rp)" and "\<not> prefix base q"
  shows "fs_lookup (delete_ancestors base rp fs) q = fs_lookup fs q"
  using assms(1,2)
proof (induction rp arbitrary: fs)
  case Nil
  then show ?case by (simp add: delete_ancestors.simps)
next
  case (Cons x up)
  show ?case
  proof (cases "rev (x # up) = base")
    case True
    then show ?thesis by (simp add: delete_ancestors.simps)
  next
    case False
    with Cons.prems(2) have up: "prefix base (rev up)" by simp
    obtain fs1 r where rd: "remove_dir (rev (x # up)) fs = (fs1, r)" by fastforce
    note effect = remove_dir_effect [OF rd Cons.prems(1)]
    have "q \<noteq> rev (x # up)" using assms(3) Cons.prems(2) by blast
    then have same: "fs_lookup fs1 q = fs_lookup fs q" "wf_fs fs1" using effect by (cases r; simp)+
    show ?thesis
      using rd False same Cons.IH [OF Cons.prems(1) up] Cons.IH [OF same(2) up] effect
      by (cases r) (simp_all add: delete_ancestors.simps [of base "x # up"])
  qed
qed

lemma delete_key_path_outside:
  assumes "delete_key_path lib st path c fs = (fs', r)" and "wf_fs fs"
    and "path_components path = path_components (base_path lib st c) @ rest" and "rest \<noteq> []"
    and "\<not> prefix (path_components (base_path lib st c)) q"
  shows "fs_lookup fs' q = fs_lookup fs q"
proof -
  let ?p = "path_components path" and ?b = "path_components (base_path lib st c)"
  have p: "?p \<noteq> []" "prefix ?b (rev (tl (rev ?p)))" and q: "q \<noteq> ?p"
    using assms(3-5) by (auto simp: butlast_append simp flip: butlast_rev)
  obtain fs1 r1 where rf: "remove_file ?p fs = (fs1, r1)" by fastforce
  have same: "wf_fs fs1" "fs_lookup fs1 q = fs_lookup fs q"
    using remove_file_effect [OF rf assms(2)] q by (cases r1; simp)+
  show ?thesis
    using assms(1) rf p(1) same delete_ancestors_outside [OF same(1) p(2) assms(5)]
    by (auto simp: delete_key_path_def Let_def split: sum.splits if_splits)
qed

lemma delete_key_path_effect:
  assumes "delete_key_path lib st path c fs = (fs', r)" and "wf_fs fs"
    and "path_components path = path_components (base_path lib st c) @ rest" and "rest \<noteq> []"
  shows "(case r of Inl _ \<Rightarrow> fs' = fs
    | Inr _ \<Rightarrow> wf_fs fs' \<and> file_at fs' = (file_at fs)(path_components path := None) \<and>
        fs_lookup fs' (path_components (base_path lib st c)) = fs_lookup fs (path_components (base_path lib st c)))"
proof -
  let ?p = "path_components path" and ?b = "path_components (base_path lib st c)"
  have p: "?p \<noteq> []" "prefix ?b (rev (tl (rev ?p)))" and neq: "?b \<noteq> ?p"
    using assms(3,4) by (auto simp: butlast_append simp flip: butlast_rev)
  obtain fs1 r1 where rf: "remove_file ?p fs = (fs1, r1)" by fastforce
  note removed = remove_file_effect [OF rf assms(2)]
  show ?thesis
  proof (cases "\<exists>e. r1 = Inl e \<and> e \<noteq> NotFound")
    case True
    with removed assms(1) rf show ?thesis by (auto simp: delete_key_path_def Let_def)
  next
    case False
    with assms(1) rf p(1) have res: "fs' = delete_ancestors ?b (tl (rev ?p)) fs1" "r = Inr ()"
      by (auto simp: delete_key_path_def Let_def split: sum.splits)
    have step: "file_at fs1 = (file_at fs)(?p := None) \<and> fs_lookup fs1 ?b = fs_lookup fs ?b"
    proof (cases r1)
      case (Inl e)
      with removed False have "fs1 = fs" "fs_lookup fs ?p = None" by auto
      then show ?thesis by (auto simp: file_at_def fun_eq_iff)
    next
      case (Inr u)
      with removed neq show ?thesis by (auto simp: file_at_def fun_eq_iff)
    qed
    from removed have "wf_fs fs1" by simp
    from delete_ancestors_effect [OF this p(2)] step res show ?thesis by simp
  qed
qed

lemma read_file_for_key_sound:
  assumes "read_file_for_key fs k path = Inr r" and "wf_fs fs"
  shows "r = file_at fs (path_components path)"
proof (cases "read_to_string fs (path_components path)")
  case (Inl e)
  with assms have "e = NotFound" "r = None" by (auto simp: read_file_for_key_def split: if_splits)
  with Inl read_to_string_NotFound [OF assms(2)] show ?thesis by (simp add: file_at_def)
next
  case (Inr v)
  with assms read_to_string_Ok_iff [OF assms(2)] show ?thesis by (auto simp: read_file_for_key_def file_at_def)
qed

lemma read_file_for_key_complete:
  "wf_fs fs \<Longrightarrow> file_at fs (path_components path) = Some v \<Longrightarrow> read_file_for_key fs k path = Inr (Some v)"
  using read_to_string_Ok_iff [of fs "path_components path" v] by (simp add: read_file_for_key_def)

lemma valid_character_ascii: "valid_character c \<Longrightarrow> ascii_char c"
  unfolding valid_character_def ascii_char_def Let_def by (elim disjE) simp_all

lemma ascii_wf_segment: "wf_segment s \<Longrightarrow> list_all ascii_char s"
  by (induction s) (use valid_character_ascii in \<open>auto simp: ascii_char_def [of "CHR ''.''"]\<close>)

locale fs_library =
  fixes lib :: fs_lib and base :: string
  assumes decode_encode:
      "A (CHR ''%'') \<Longrightarrow> list_all ascii_char s \<Longrightarrow> percent_decode lib (percent_encode lib A s) = Some s"
    and encode_char:
      "c \<in> set (percent_encode lib A s) \<Longrightarrow>
         c \<in> set s \<and> \<not> A c \<or> c = CHR ''%'' \<or> c \<in> set ''0123456789ABCDEF''"
    and encode_plain: "list_all (\<lambda>c. ascii_char c \<and> \<not> A c) s \<Longrightarrow> percent_encode lib A s = s"
    and encode_Nil: "percent_encode lib A s = [] \<longleftrightarrow> s = []"
    and walk_dir_entries:
      "wf_fs fs \<Longrightarrow> fs_lookup fs p = Some Dir \<Longrightarrow>
         set (walk_dir lib mn mx fs p) =
           {Inr (p @ r, n \<noteq> Dir) |r n. fs_lookup fs (p @ r) = Some n \<and> mn \<le> length r \<and>
              (case mx of None \<Rightarrow> True | Some d \<Rightarrow> length r \<le> d)}"
    and walk_dir_error: "fs_find fs p = Inl e \<Longrightarrow> walk_dir lib mn mx fs p = [Inl e]"
begin

abbreviation enc :: "string \<Rightarrow> string" where
  "enc \<equiv> encode_path_component lib"

abbreviation root :: "committed \<Rightarrow> fpath" where
  "root \<equiv> store_root lib base"

lemma enc_chars: "c \<in> set (enc s) \<Longrightarrow> c \<noteq> CHR ''.'' \<and> c \<noteq> CHR ''/''"
  using encode_char [of c ENCODE_CHARACTERS s]
  by (auto simp: encode_path_component_def ENCODE_CHARACTERS_def alphanumeric_def)

lemma enc_Nil [simp]: "enc s = [] \<longleftrightarrow> s = []"
  by (simp add: encode_path_component_def encode_Nil)

lemma decode_enc: "list_all ascii_char s \<Longrightarrow> percent_decode lib (enc s) = Some s"
  unfolding encode_path_component_def
  by (rule decode_encode) (simp_all add: ENCODE_CHARACTERS_def alphanumeric_def)

lemma enc_inj: "list_all ascii_char s \<Longrightarrow> list_all ascii_char t \<Longrightarrow> enc s = enc t \<Longrightarrow> s = t"
  by (metis decode_enc option.inject)

lemma enc_component: "s \<noteq> [] \<Longrightarrow> enc s \<noteq> [] \<and> enc s \<noteq> ''.'' \<and> CHR ''/'' \<notin> set (enc s) \<and> CHR ''.'' \<notin> set (enc s)"
proof -
  assume "s \<noteq> []"
  moreover have "CHR ''/'' \<notin> set (enc s)" "CHR ''.'' \<notin> set (enc s)" using enc_chars by blast+
  moreover from this(2) have "enc s \<noteq> ''.''" by (metis list.set_intros(1))
  ultimately show ?thesis by simp
qed

lemma root_components:
  assumes "good_committed c"
  shows "path_components (base_path lib (fs_store_new base) c) = root c"
proof -
  have live: "path_components (path_join base ''live'') = path_components base @ [''live'']"
    and pending: "path_components (path_join base ''pending'') = path_components base @ [''pending'']"
    by (simp_all add: path_components_path_join) (simp_all add: path_components_def)
  show ?thesis
  proof (cases c)
    case Live
    with live show ?thesis by (simp add: base_path_def fs_store_new_def store_root_def)
  next
    case (Pending tx)
    with assms have tx: "tx \<noteq> []" by (simp add: good_committed_def)
    note e = enc_component [OF tx]
    from e have "path_components (enc tx) = [enc tx]" using path_components_join [of "[enc tx]"] by simp
    moreover have "hd (enc tx) \<noteq> CHR ''/''" using e by (metis hd_in_set)
    ultimately show ?thesis
      using pending Pending by (simp add: base_path_def fs_store_new_def store_root_def path_components_path_join)
  qed
qed

lemma root_nonempty [simp]: "root c \<noteq> []"
  by (simp add: store_root_def split: committed.splits)

lemma root_inj:
  assumes "root c @ r = root c' @ r'" and "good_committed c" and "good_committed c'"
  shows "c = c' \<and> r = r'"
  using assms enc_inj by (auto simp: store_root_def good_committed_def split: committed.splits)

lemma good_segments_enc:
  "good_segments q \<Longrightarrow> s \<in> set q \<Longrightarrow> s \<noteq> [] \<and> list_all ascii_char s"
  using ascii_wf_segment by (auto simp: good_segments_def list_all_iff)

lemma key_file_inj: "good_segments q \<Longrightarrow> good_segments q' \<Longrightarrow> key_file lib q = key_file lib q' \<Longrightarrow> q = q'"
  unfolding key_file_def using good_segments_enc [of q] good_segments_enc [of q'] enc_inj
  by (intro map_inj_on [of enc q q']) (auto simp: inj_on_def)

lemma meta_file_not_key_file: "meta_file lib q m \<noteq> key_file lib q'"
proof
  assume "meta_file lib q m = key_file lib q'"
  then have "enc (last q) @ CHR ''.'' # enc m \<in> set (key_file lib q')"
    by (metis meta_file_def in_set_conv_decomp)
  then obtain s where "enc (last q) @ CHR ''.'' # enc m = enc s" by (auto simp: key_file_def)
  then have "CHR ''.'' \<in> set (enc s)" by (metis in_set_conv_decomp)
  with enc_chars show False by blast
qed

lemma meta_file_inj:
  assumes "good_segments q" and "good_segments q'" and "wf_segment m" and "wf_segment m'"
    and eq: "meta_file lib q m = meta_file lib q' m'"
  shows "q = q' \<and> m = m'"
proof -
  from eq have but: "map enc (butlast q) = map enc (butlast q')"
    and last: "enc (last q) @ CHR ''.'' # enc m = enc (last q') @ CHR ''.'' # enc m'"
    by (simp_all add: meta_file_def)
  have nodot: "CHR ''.'' \<notin> set (enc s)" for s using enc_chars by blast
  have "splitn2 (CHR ''.'') (enc (last q) @ CHR ''.'' # enc m) = splitn2 (CHR ''.'') (enc (last q') @ CHR ''.'' # enc m')"
    by (simp only: last)
  then have "enc (last q) = enc (last q')" and m: "enc m = enc m'"
    unfolding splitn2_append [OF nodot] by blast+
  with but have "map enc (butlast q @ [last q]) = map enc (butlast q' @ [last q'])" by simp
  with assms(1,2) have "key_file lib q = key_file lib q'" by (simp add: good_segments_def key_file_def)
  with key_file_inj assms(1,2) have "q = q'" by blast
  moreover have "m = m'" using enc_inj [OF _ _ m] ascii_wf_segment assms(3,4) by blast
  ultimately show ?thesis ..
qed

lemma key_file_components:
  "good_segments q \<Longrightarrow> \<forall>c \<in> set (key_file lib q). c \<noteq> [] \<and> c \<noteq> ''.'' \<and> CHR ''/'' \<notin> set c"
  using good_segments_enc [of q] enc_component by (auto simp: key_file_def)

lemma meta_file_components:
  assumes "good_segments q"
  shows "\<forall>c \<in> set (meta_file lib q m). c \<noteq> [] \<and> c \<noteq> ''.'' \<and> CHR ''/'' \<notin> set c"
proof -
  have "q \<noteq> []" using assms by (simp add: good_segments_def)
  then have "last q \<noteq> []" using good_segments_enc [OF assms, of "last q"] by simp
  then have "enc (last q) @ CHR ''.'' # enc m \<noteq> ''.''" by (cases "enc (last q)") auto
  moreover have "CHR ''/'' \<notin> set (enc s)" for s using enc_chars by blast
  ultimately show ?thesis
    using good_segments_enc [OF assms] enc_component by (auto simp: meta_file_def dest!: in_set_butlastD)
qed

lemma join_hd:
  assumes "cs \<noteq> []" and "hd cs \<noteq> []"
  shows "join sep cs \<noteq> [] \<and> hd (join sep cs) = hd (hd cs)"
  using assms by (cases cs rule: list.exhaust; cases "tl cs") auto

lemma path_join_components:
  assumes "cs \<noteq> []" and "\<forall>c \<in> set cs. c \<noteq> [] \<and> c \<noteq> ''.'' \<and> CHR ''/'' \<notin> set c"
  shows "path_components (path_join b (join ''/'' cs)) = path_components b @ cs"
proof -
  have "hd cs \<noteq> []" "hd (hd cs) \<noteq> CHR ''/''" using assms by (metis hd_in_set)+
  with join_hd [of cs "''/''"] assms(1) have "hd (join ''/'' cs) \<noteq> CHR ''/''" by simp
  with assms(2) show ?thesis by (simp add: path_components_path_join path_components_join)
qed

lemma data_path_ok:
  assumes "good_key k" and "good_committed c"
  shows "data_path lib (fs_store_new base) k c =
      Inr (path_join (base_path lib (fs_store_new base) c) (join ''/'' (key_file lib (key_segments k))))"
    and "path_components (path_join (base_path lib (fs_store_new base) c) (join ''/'' (key_file lib (key_segments k)))) =
      root c @ key_file lib (key_segments k)"
proof -
  have good: "good_segments (key_segments k)" using assms(1) by (rule good_key_segments)
  then have ne: "key_file lib (key_segments k) \<noteq> []" by (simp add: key_file_def good_segments_def)
  show comp: "path_components (path_join (base_path lib (fs_store_new base) c) (join ''/'' (key_file lib (key_segments k)))) =
      root c @ key_file lib (key_segments k)"
    using path_join_components [OF ne key_file_components [OF good]] by (simp add: root_components [OF assms(2)])
  then show "data_path lib (fs_store_new base) k c =
      Inr (path_join (base_path lib (fs_store_new base) c) (join ''/'' (key_file lib (key_segments k))))"
    using ne by (simp add: data_path_def Let_def root_components [OF assms(2)] key_file_def)
qed

lemma path_join_append:
  "b \<noteq> [] \<Longrightarrow> path_join a b @ x = path_join a (b @ x)"
  by (simp add: path_join_def)

lemma join_meta_file:
  assumes "good_segments q"
  shows "join ''/'' (meta_file lib q m) = join ''/'' (key_file lib q) @ CHR ''.'' # enc m"
proof -
  have q: "q = butlast q @ [last q]" using assms by (simp add: good_segments_def)
  show ?thesis
  proof (cases "butlast q = []")
    case True
    with q obtain x where "q = [x]" by (metis append_Nil)
    then show ?thesis by (simp add: key_file_def meta_file_def)
  next
    case False
    have "key_file lib q = map enc (butlast q) @ [enc (last q)]"
      by (subst q) (simp add: key_file_def)
    with False show ?thesis by (simp add: meta_file_def join_snoc)
  qed
qed

lemma metadata_path_ok:
  assumes "good_meta mk" and "good_key dk" and "good_committed c"
  shows "\<exists>path. metadata_path lib (fs_store_new base) mk dk c = Inr path \<and>
    path_components path = root c @ meta_file lib (key_segments dk) (hd (key_segments mk))"
proof -
  let ?q = "key_segments dk" and ?b = "base_path lib (fs_store_new base) c"
  obtain m where m: "key_segments mk = [m]" using assms(1) by (auto simp: good_meta_def length_Suc_conv)
  have good: "good_segments ?q" using assms(2) by (rule good_key_segments)
  have ne: "join ''/'' (key_file lib ?q) \<noteq> []"
    using join_hd [of "key_file lib ?q" "''/''"] key_file_components [OF good] good
    by (cases ?q) (auto simp: key_file_def good_segments_def)
  have "metadata_path lib (fs_store_new base) mk dk c = Inr (path_join ?b (join ''/'' (meta_file lib ?q m)))"
    using data_path_ok(1) [OF assms(2,3)] path_join_append [OF ne, of ?b "CHR ''.'' # enc m"]
    by (simp add: metadata_path_def m join_meta_file [OF good])
  moreover have "meta_file lib ?q m \<noteq> []" by (simp add: meta_file_def)
  ultimately show ?thesis
    using path_join_components [OF _ meta_file_components [OF good], of m ?b] m
    by (simp add: root_components [OF assms(3)])
qed

lemma views_key_upd:
  assumes "file_at fs' = (file_at fs)(root c @ key_file lib q := x)" and "good_committed c" and "good_segments q"
  shows "fs_data lib base fs' = upd2 (fs_data lib base fs) c q x" and "fs_meta lib base fs' = fs_meta lib base fs"
proof -
  have "fs_data lib base fs' c' q' = upd2 (fs_data lib base fs) c q x c' q'" for c' q'
  proof (cases "good_committed c' \<and> good_segments q'")
    case True
    then have "root c' @ key_file lib q' = root c @ key_file lib q \<longleftrightarrow> c' = c \<and> q' = q"
      using root_inj [of c' _ c] key_file_inj [of q' q] assms(2,3) by blast
    with True assms show ?thesis by (auto simp: fs_data_def upd2_def)
  qed (use assms(2,3) in \<open>auto simp: fs_data_def upd2_def\<close>)
  then show "fs_data lib base fs' = upd2 (fs_data lib base fs) c q x" by blast
  have "fs_meta lib base fs' c' (q', m) = fs_meta lib base fs c' (q', m)" for c' q' m
  proof (cases "good_committed c'")
    case True
    then have "root c' @ meta_file lib q' m \<noteq> root c @ key_file lib q"
      using root_inj [of c' _ c] meta_file_not_key_file assms(2) by blast
    with assms(1) show ?thesis by (simp add: fs_meta_def)
  qed (simp add: fs_meta_def)
  then show "fs_meta lib base fs' = fs_meta lib base fs" by (simp add: fun_eq_iff)
qed

lemma views_meta_upd:
  assumes "file_at fs' = (file_at fs)(root c @ meta_file lib q m := x)" and "good_committed c" and "good_segments q"
    and "wf_segment m"
  shows "fs_meta lib base fs' = upd2 (fs_meta lib base fs) c (q, m) x" and "fs_data lib base fs' = fs_data lib base fs"
proof -
  have "fs_meta lib base fs' c' (q', m') = upd2 (fs_meta lib base fs) c (q, m) x c' (q', m')" for c' q' m'
  proof (cases "good_committed c' \<and> good_segments q' \<and> wf_segment m'")
    case True
    then have "root c' @ meta_file lib q' m' = root c @ meta_file lib q m \<longleftrightarrow> c' = c \<and> q' = q \<and> m' = m"
      using root_inj [of c' _ c] meta_file_inj [of q' q m' m] assms(2-4) by blast
    with True assms show ?thesis by (auto simp: fs_meta_def upd2_def)
  qed (use assms(2-4) in \<open>auto simp: fs_meta_def upd2_def\<close>)
  then show "fs_meta lib base fs' = upd2 (fs_meta lib base fs) c (q, m) x" by (simp add: fun_eq_iff)
  have "fs_data lib base fs' c' q' = fs_data lib base fs c' q'" for c' q'
  proof (cases "good_committed c'")
    case True
    then have "root c' @ key_file lib q' \<noteq> root c @ meta_file lib q m"
      using root_inj [of c' _ c] meta_file_not_key_file [of q m q'] assms(2) by metis
    with assms(1) show ?thesis by (simp add: fs_data_def)
  qed (simp add: fs_data_def)
  then show "fs_data lib base fs' = fs_data lib base fs" by blast
qed

lemma views_same:
  "file_at fs' = file_at fs \<Longrightarrow> fs_data lib base fs' = fs_data lib base fs \<and> fs_meta lib base fs' = fs_meta lib base fs"
  by (simp add: fs_data_def fs_meta_def fun_eq_iff)

lemma fs_inv_same:
  "fs_inv lib base fs \<Longrightarrow> wf_fs fs' \<Longrightarrow> fs_lookup fs' (root Live) = Some Dir \<Longrightarrow> file_at fs' = file_at fs \<Longrightarrow>
     fs_inv lib base fs'"
  by (simp add: fs_inv_def)

lemma fs_inv_upd:
  assumes "fs_inv lib base fs" and "wf_fs fs'" and "fs_lookup fs' (root Live) = Some Dir"
    and upd: "file_at fs' = (file_at fs)(root c @ r := x)" and "good_committed c" and "store_file lib r"
  shows "fs_inv lib base fs'"
  unfolding fs_inv_def
proof (intro conjI allI impI assms(2,3))
  fix c' r' v
  assume c': "good_committed c'" and v: "file_at fs' (root c' @ r') = Some v"
  show "store_file lib r'"
  proof (cases "root c' @ r' = root c @ r")
    case True
    with root_inj [OF True c' assms(5)] assms(6) show ?thesis by simp
  next
    case False
    with v upd have "file_at fs (root c' @ r') = Some v" by simp
    with assms(1) c' show ?thesis unfolding fs_inv_def by blast
  qed
qed

lemma good_meta_segment:
  assumes "good_meta mk"
  shows "wf_segment (hd (key_segments mk))"
  using assms by (cases "key_segments mk") (auto simp: good_meta_def wf_key_def)

lemma fs_set_key_effect:
  assumes "fs_set_key lib (fs_store_new base) k v c fs = (fs', r)" and "fs_inv lib base fs" and "good_key k" and "good_committed c"
  shows "fs_inv lib base fs' \<and> fs_meta lib base fs' = fs_meta lib base fs \<and>
    fs_data lib base fs' = (case r of Inl _ \<Rightarrow> fs_data lib base fs
      | Inr _ \<Rightarrow> upd2 (fs_data lib base fs) c (key_segments k) (Some v))"
proof -
  let ?q = "key_segments k"
  have good: "good_segments ?q" using assms(3) by (rule good_key_segments)
  then have sf: "store_file lib (key_file lib ?q)" by (auto simp: store_file_def)
  from assms(2) have wf: "wf_fs fs" and live: "fs_lookup fs (root Live) = Some Dir" by (simp_all add: fs_inv_def)
  from assms(1) have "write_file_mkdir (path_join (base_path lib (fs_store_new base) c) (join ''/'' (key_file lib ?q))) v fs = (fs', r)"
    by (simp add: fs_set_key_def data_path_ok(1) [OF assms(3,4)])
  from write_file_mkdir_effect [OF this wf, unfolded data_path_ok(2) [OF assms(3,4)]] live
  have e: "wf_fs fs'" "fs_lookup fs' (root Live) = Some Dir"
    "case r of Inl _ \<Rightarrow> file_at fs' = file_at fs | Inr _ \<Rightarrow> file_at fs' = (file_at fs)(root c @ key_file lib ?q \<mapsto> v)"
    by blast+
  show ?thesis
  proof (cases r)
    case (Inl x)
    with e fs_inv_same [OF assms(2) e(1,2)] views_same [of fs' fs] show ?thesis by simp
  next
    case (Inr u)
    with e(3) have upd: "file_at fs' = (file_at fs)(root c @ key_file lib ?q := Some v)" by simp
    with Inr fs_inv_upd [OF assms(2) e(1,2) upd assms(4) sf] views_key_upd [OF upd assms(4) good] show ?thesis by simp
  qed
qed

lemma fs_set_metadata_effect:
  assumes "fs_set_metadata lib (fs_store_new base) mk dk v c fs = (fs', r)" and "fs_inv lib base fs"
    and "good_meta mk" and "good_key dk" and "good_committed c"
  shows "fs_inv lib base fs' \<and> fs_data lib base fs' = fs_data lib base fs \<and>
    fs_meta lib base fs' = (case r of Inl _ \<Rightarrow> fs_meta lib base fs
      | Inr _ \<Rightarrow> upd2 (fs_meta lib base fs) c (key_segments dk, hd (key_segments mk)) (Some v))"
proof -
  let ?q = "key_segments dk" and ?m = "hd (key_segments mk)"
  have good: "good_segments ?q" "wf_segment ?m" using assms(3,4) by (simp_all add: good_key_segments good_meta_segment)
  then have sf: "store_file lib (meta_file lib ?q ?m)" by (auto simp: store_file_def)
  from assms(2) have wf: "wf_fs fs" and live: "fs_lookup fs (root Live) = Some Dir" by (simp_all add: fs_inv_def)
  obtain path where path: "metadata_path lib (fs_store_new base) mk dk c = Inr path"
    "path_components path = root c @ meta_file lib ?q ?m" using metadata_path_ok [OF assms(3-5)] by blast
  with assms(1) have "write_file_mkdir path v fs = (fs', r)" by (simp add: fs_set_metadata_def)
  from write_file_mkdir_effect [OF this wf, unfolded path(2)] live
  have e: "wf_fs fs'" "fs_lookup fs' (root Live) = Some Dir"
    "case r of Inl _ \<Rightarrow> file_at fs' = file_at fs | Inr _ \<Rightarrow> file_at fs' = (file_at fs)(root c @ meta_file lib ?q ?m \<mapsto> v)"
    by blast+
  show ?thesis
  proof (cases r)
    case (Inl x)
    with e fs_inv_same [OF assms(2) e(1,2)] views_same [of fs' fs] show ?thesis by simp
  next
    case (Inr u)
    with e(3) have upd: "file_at fs' = (file_at fs)(root c @ meta_file lib ?q ?m := Some v)" by simp
    with Inr fs_inv_upd [OF assms(2) e(1,2) upd assms(5) sf] views_meta_upd [OF upd assms(5) good] show ?thesis by simp
  qed
qed

lemma delete_effect:
  assumes "delete_key_path lib (fs_store_new base) path c fs = (fs', r)" and "fs_inv lib base fs" and "good_committed c"
    and "path_components path = root c @ rest" and "rest \<noteq> []" and "store_file lib rest"
  shows "case r of Inl _ \<Rightarrow> fs' = fs
    | Inr _ \<Rightarrow> fs_inv lib base fs' \<and> file_at fs' = (file_at fs)(root c @ rest := None)"
proof (cases r)
  case (Inl e)
  with delete_key_path_effect [OF assms(1) _ _ assms(5)] assms(2,4) show ?thesis
    by (simp add: root_components [OF assms(3)] fs_inv_def)
next
  case (Inr u)
  from assms(2) have wf: "wf_fs fs" and live: "fs_lookup fs (root Live) = Some Dir" by (simp_all add: fs_inv_def)
  from delete_key_path_effect [OF assms(1) wf _ assms(5)] assms(4) Inr
  have e: "wf_fs fs'" "file_at fs' = (file_at fs)(root c @ rest := None)" "fs_lookup fs' (root c) = fs_lookup fs (root c)"
    by (simp_all add: root_components [OF assms(3)])
  have "fs_lookup fs' (root Live) = Some Dir"
  proof (cases c)
    case Live
    with e(3) live show ?thesis by simp
  next
    case (Pending tx)
    have "\<not> prefix (root c) (root Live)" by (simp add: Pending store_root_def)
    with delete_key_path_outside [OF assms(1) wf _ assms(5)] assms(4) live show ?thesis
      by (simp add: root_components [OF assms(3)])
  qed
  with fs_inv_upd [OF assms(2) e(1) _ e(2) assms(3,6)] e(2) Inr show ?thesis by simp
qed

lemma join_chars: "x \<in> set (join sep cs) \<Longrightarrow> x \<in> set sep \<or> (\<exists>c \<in> set cs. x \<in> set c)"
  by (induction sep cs rule: join.induct) auto

lemma key_file_split:
  assumes "good_segments q"
  shows "CHR ''.'' \<notin> set (join ''/'' (key_file lib q))" and "split_on (CHR ''/'') (join ''/'' (key_file lib q)) = key_file lib q"
proof -
  show "CHR ''.'' \<notin> set (join ''/'' (key_file lib q))"
    using join_chars [of "CHR ''.''" "''/''" "key_file lib q"] enc_chars by (auto simp: key_file_def)
  have "key_file lib q \<noteq> []" using assms by (simp add: good_segments_def key_file_def)
  with key_file_components [OF assms] show "split_on (CHR ''/'') (join ''/'' (key_file lib q)) = key_file lib q"
    by (intro split_on_join) auto
qed

lemma decode_key_file:
  assumes "good_segments q"
  shows "try_map (\<lambda>s. decode_path_component lib s p) (key_file lib q) = Inr q"
proof -
  have "decode_path_component lib (enc s) p = Inr s" if "s \<in> set q" for s
    using good_segments_enc [OF assms that] by (simp add: decode_path_component_def decode_enc)
  then show ?thesis by (simp add: try_map_Ok_iff key_file_def list_all2_conv_all_nth)
qed

abbreviation canonical_key :: "string list \<Rightarrow> key" where
  "canonical_key q \<equiv> \<lparr>key_name = canonical_name q, key_segments = q\<rparr>"

lemma from_segments_good: "good_segments q \<Longrightarrow> from_segments Data q = Inr (canonical_key q)"
  by (simp add: good_segments_def from_segments_Ok_iff list_all_iff)

lemma good_canonical_key: "good_segments q \<Longrightarrow> good_key (canonical_key q)"
  using good_key_from_segments [OF from_segments_good, of q] by (auto simp: good_segments_def list_all_iff)

lemma from_path_key:
  "good_segments q \<Longrightarrow> from_path lib (key_file lib q) = Inr \<lparr>kp_data_key = canonical_key q, kp_metadata_key = None\<rparr>"
  by (simp add: from_path_def splitn2_none key_file_split decode_key_file from_segments_good)

lemma from_path_meta:
  "good_segments q \<Longrightarrow> from_path lib (meta_file lib q m) =
     and_then (key_new Meta (enc m)) (\<lambda>k. Inr \<lparr>kp_data_key = canonical_key q, kp_metadata_key = Some k\<rparr>)"
  by (cases "key_new Meta (enc m)")
     (simp_all add: from_path_def splitn2_append join_meta_file key_file_split decode_key_file from_segments_good)

lemma parse_loop_plain:
  assumes "parse_loop nm segs seg False cs = Inr out" and "CHR ''.'' \<notin> set cs" and "quote_char \<notin> set cs"
  shows "out = segs @ [seg @ cs] \<and> (\<forall>c \<in> set cs. valid_character c)"
  using assms
proof (induction cs arbitrary: seg)
  case (Cons a cs)
  then show ?case using Cons.IH [of "seg @ [a]"] by (auto split: if_splits)
qed (auto simp: result_simps)

lemma key_new_enc:
  assumes "key_new Meta (enc m) = Inr k"
  shows "key_segments k = [enc m]" and "enc (enc m) = enc m" and "good_meta k"
    and "list_all (\<lambda>x. \<not> ENCODE_CHARACTERS x) (enc m)"
proof -
  have noquote: "quote_char \<notin> set (enc m)"
    using encode_char [of quote_char ENCODE_CHARACTERS m]
    by (auto simp: encode_path_component_def ENCODE_CHARACTERS_def alphanumeric_def)
  have nodot: "CHR ''.'' \<notin> set (enc m)" using enc_chars by blast
  from assms obtain segs where segs: "parse_name_segments (enc m) = Inr segs" "key_segments k = segs"
    by (auto simp: key_new_Ok_iff)
  then have "parse_loop (enc m) [] [] False (enc m) = Inr segs"
    by (auto simp: parse_name_segments_def result_simps)
  from parse_loop_plain [OF this nodot noquote] have s: "segs = [enc m]" and valid: "\<forall>c \<in> set (enc m). valid_character c"
    by simp_all
  from s segs show "key_segments k = [enc m]" by simp
  show "good_meta k" using wf_key_new [OF assms] segs s by (simp add: good_meta_def)
  have "ascii_char c \<and> \<not> ENCODE_CHARACTERS c" if "c \<in> set (enc m)" for c
    using valid [rule_format, OF that] enc_chars [OF that] valid_character_ascii [of c]
    by (auto simp: valid_character_def ENCODE_CHARACTERS_def alphanumeric_def Let_def)
  then have plain: "list_all (\<lambda>c. ascii_char c \<and> \<not> ENCODE_CHARACTERS c) (enc m)" by (simp add: list_all_iff)
  then show "list_all (\<lambda>x. \<not> ENCODE_CHARACTERS x) (enc m)" by (simp add: list_all_iff)
  from plain show "enc (enc m) = enc m"
    using encode_plain [of ENCODE_CHARACTERS "enc m"] by (simp add: encode_path_component_def)
qed

lemma root_not_file:
  assumes "fs_inv lib base fs" and "good_committed c"
  shows "fs_lookup fs (root c) = None \<or> fs_lookup fs (root c) = Some Dir"
proof -
  have "\<not> store_file lib []" by (auto simp: store_file_def key_file_def meta_file_def good_segments_def)
  with assms have "file_at fs (root c @ []) \<noteq> Some v" for v unfolding fs_inv_def by blast
  then have "fs_lookup fs (root c) \<noteq> Some (File v)" for v by simp
  then show ?thesis by (metis node.exhaust not_None_eq)
qed

lemma find_populated_ok:
  assumes inv: "fs_inv lib base fs" and c: "good_committed c"
  shows "\<exists>kps. find_populated_key_paths lib (fs_store_new base) fs t pre c = Inr kps \<and>
    set kps \<subseteq> {kp. \<exists>r v. file_at fs (root c @ r) = Some v \<and> accepted lib t pre r = Some kp} \<and>
    key_path_id ` set kps = key_path_id ` {kp. \<exists>r v. file_at fs (root c @ r) = Some v \<and> accepted lib t pre r = Some kp}"
proof (cases "fs_lookup fs (root c) = Some Dir")
  case False
  with root_not_file [OF assms] have none: "fs_lookup fs (root c) = None" by blast
  with inv have "c \<noteq> Live" by (auto simp: fs_inv_def)
  then obtain tx where tx: "c = Pending tx" by (cases c) auto
  from inv have wf: "wf_fs fs" by (simp add: fs_inv_def)
  have nofile: "file_at fs (root c @ r) \<noteq> Some v" for r v
    using wf_fs_ancestor [OF wf, of "root c" r] none by (cases "r = []") auto
  have "find_populated_key_paths lib (fs_store_new base) fs t pre c = Inr []"
    by (simp add: find_populated_key_paths_def Let_def root_components [OF c] fs_exists_iff [OF wf] none)
       (simp add: tx)
  with nofile show ?thesis by simp
next
  case True
  from inv have wf: "wf_fs fs" by (simp add: fs_inv_def)
  let ?f = "\<lambda>entry. case entry of Inr (p, is_file) \<Rightarrow>
      if is_file then accepted lib t pre (drop (length (root c)) p) else None | Inl _ \<Rightarrow> None"
  let ?ws = "walk_dir lib 0 None fs (root c)"
  have ws: "set ?ws = {Inr (root c @ r, n \<noteq> Dir) |r n. fs_lookup fs (root c @ r) = Some n}"
    using walk_dir_entries [OF wf True, of 0 None] by simp
  have step: "(\<lambda>key_paths entry. and_then (map_err ListKeys entry) (\<lambda>entry.
          and_then (from_entry lib entry (root c)) (\<lambda>found. case found of None \<Rightarrow> Inr key_paths
            | Some kp \<Rightarrow> if \<not> starts_with (key_name (kp_data_key kp)) pre then Inr key_paths
                else if key_type kp \<noteq> t then Inr key_paths else Inr (hs_insert key_path_id kp key_paths)))) acc w
      = Inr ((\<lambda>w acc. case ?f w of None \<Rightarrow> acc | Some y \<Rightarrow> hs_insert key_path_id y acc) w acc)"
    if "w \<in> set ?ws" for acc w
  proof -
    from that ws obtain r n where w: "w = Inr (root c @ r, n \<noteq> Dir)" by blast
    show ?thesis
      by (cases "n = Dir"; cases "from_path lib r") (simp_all add: w from_entry_def accepted_def)
  qed
  have "find_populated_key_paths lib (fs_store_new base) fs t pre c = Inr (hs_collect key_path_id ?f ?ws [])"
    unfolding find_populated_key_paths_def Let_def root_components [OF c] hs_collect_def
    using True by (simp add: fs_exists_iff [OF wf]) (rule try_fold_all_Ok, rule step)
  moreover have found: "(\<exists>w \<in> set ?ws. ?f w = Some kp) \<longleftrightarrow> (\<exists>r v. file_at fs (root c @ r) = Some v \<and> accepted lib t pre r = Some kp)" for kp
  proof
    assume "\<exists>w \<in> set ?ws. ?f w = Some kp"
    then obtain r n where "fs_lookup fs (root c @ r) = Some n" "n \<noteq> Dir" "accepted lib t pre r = Some kp"
      unfolding ws by (auto split: if_splits)
    then show "\<exists>r v. file_at fs (root c @ r) = Some v \<and> accepted lib t pre r = Some kp" by (cases n) auto
  next
    assume "\<exists>r v. file_at fs (root c @ r) = Some v \<and> accepted lib t pre r = Some kp"
    then obtain r v where "fs_lookup fs (root c @ r) = Some (File v)" "accepted lib t pre r = Some kp" by auto
    then have "Inr (root c @ r, File v \<noteq> Dir) \<in> set ?ws" "?f (Inr (root c @ r, File v \<noteq> Dir)) = Some kp"
      unfolding ws by auto
    then show "\<exists>w \<in> set ?ws. ?f w = Some kp" by blast
  qed
  ultimately show ?thesis
    using hs_collect_subset [of key_path_id ?f ?ws "[]"] hs_collect_image [of key_path_id ?f ?ws "[]"]
    unfolding found by (intro exI [of _ "hs_collect key_path_id ?f ?ws []"]) simp
qed

lemma accepted_data:
  assumes "fs_inv lib base fs" and "good_committed c"
  shows "(\<exists>r v. file_at fs (root c @ r) = Some v \<and> accepted lib Data pre r = Some kp) \<longleftrightarrow>
    (\<exists>q. fs_data lib base fs c q \<noteq> None \<and> starts_with (canonical_name q) pre \<and>
      kp = \<lparr>kp_data_key = canonical_key q, kp_metadata_key = None\<rparr>)"
proof
  assume "\<exists>r v. file_at fs (root c @ r) = Some v \<and> accepted lib Data pre r = Some kp"
  then obtain r v where rv: "file_at fs (root c @ r) = Some v" "accepted lib Data pre r = Some kp" by blast
  with assms have "store_file lib r" unfolding fs_inv_def by blast
  then show "\<exists>q. fs_data lib base fs c q \<noteq> None \<and> starts_with (canonical_name q) pre \<and>
      kp = \<lparr>kp_data_key = canonical_key q, kp_metadata_key = None\<rparr>"
    unfolding store_file_def
  proof (elim disjE exE conjE)
    fix q
    assume q: "good_segments q" "r = key_file lib q"
    with rv assms(2) show ?thesis
      by (intro exI [of _ q]) (auto simp: accepted_def from_path_key fs_data_def split: if_splits)
  next
    fix q m
    assume q: "good_segments q" "r = meta_file lib q m"
    with rv(2) show ?thesis
      by (cases "key_new Meta (enc m)") (auto simp: accepted_def from_path_meta key_type_def split: if_splits)
  qed
next
  assume "\<exists>q. fs_data lib base fs c q \<noteq> None \<and> starts_with (canonical_name q) pre \<and>
      kp = \<lparr>kp_data_key = canonical_key q, kp_metadata_key = None\<rparr>"
  then obtain q v where q: "fs_data lib base fs c q = Some v" "starts_with (canonical_name q) pre"
    "kp = \<lparr>kp_data_key = canonical_key q, kp_metadata_key = None\<rparr>" by blast
  then have "good_segments q" "file_at fs (root c @ key_file lib q) = Some v"
    by (auto simp: fs_data_def split: if_splits)
  with q show "\<exists>r v. file_at fs (root c @ r) = Some v \<and> accepted lib Data pre r = Some kp"
    by (intro exI [of _ "key_file lib q"]) (auto simp: accepted_def from_path_key key_type_def)
qed

lemma accepted_meta:
  assumes "fs_inv lib base fs" and "good_committed c"
    and "file_at fs (root c @ r) = Some v" and "accepted lib Meta pre r = Some kp"
  shows "\<exists>mk. kp_metadata_key kp = Some mk \<and> good_meta mk \<and> good_key (kp_data_key kp) \<and>
    starts_with (key_name (kp_data_key kp)) pre \<and>
    fs_meta lib base fs c (key_segments (kp_data_key kp), hd (key_segments mk)) = Some v \<and>
    list_all (\<lambda>x. \<not> ENCODE_CHARACTERS x) (hd (key_segments mk))"
proof -
  from assms(1-3) have "store_file lib r" unfolding fs_inv_def by blast
  then show ?thesis
    unfolding store_file_def
  proof (elim disjE exE conjE)
    fix q
    assume q: "good_segments q" "r = key_file lib q"
    with assms(4) show ?thesis by (auto simp: accepted_def from_path_key key_type_def split: if_splits)
  next
    fix q m
    assume q: "good_segments q" "wf_segment m" "r = meta_file lib q m"
    with assms(4) obtain mk where mk: "key_new Meta (enc m) = Inr mk"
      "kp = \<lparr>kp_data_key = canonical_key q, kp_metadata_key = Some mk\<rparr>" "starts_with (canonical_name q) pre"
      by (cases "key_new Meta (enc m)") (auto simp: accepted_def from_path_meta split: if_splits)
    note e = key_new_enc [OF mk(1)]
    have "meta_file lib q (enc m) = meta_file lib q m" by (simp add: meta_file_def e(2))
    moreover have "wf_segment (enc m)" using good_meta_segment [OF e(3)] e(1) by simp
    ultimately have "fs_meta lib base fs c (q, enc m) = Some v"
      using q assms(2,3) by (simp add: fs_meta_def)
    with mk e good_canonical_key [OF q(1)] show ?thesis by simp
  qed
qed

lemma fs_list_keys:
  assumes "fs_inv lib base fs" and "good_committed c"
  shows "\<exists>ks. fs_list_populated_keys lib (fs_store_new base) fs pre c = Inr ks \<and>
    (\<forall>k \<in> set ks. good_key k \<and> key_name k = canonical_name (key_segments k)) \<and>
    key_segments ` set ks = {q. fs_data lib base fs c q \<noteq> None \<and> starts_with (canonical_name q) pre}"
proof -
  let ?Q = "{q. fs_data lib base fs c q \<noteq> None \<and> starts_with (canonical_name q) pre}"
  let ?kp = "\<lambda>q. \<lparr>kp_data_key = canonical_key q, kp_metadata_key = None\<rparr>"
  have T: "{kp. \<exists>r v. file_at fs (root c @ r) = Some v \<and> accepted lib Data pre r = Some kp} = ?kp ` ?Q"
    unfolding accepted_data [OF assms] by blast
  from find_populated_ok [OF assms, of Data pre, unfolded T] obtain kps where
    kps: "find_populated_key_paths lib (fs_store_new base) fs Data pre c = Inr kps" "set kps \<subseteq> ?kp ` ?Q"
    "key_path_id ` set kps = key_path_id ` ?kp ` ?Q" by blast
  let ?ks = "hs_collect key_segments (\<lambda>kp. Some (kp_data_key kp)) kps []"
  have eq: "fs_list_populated_keys lib (fs_store_new base) fs pre c = Inr ?ks"
    by (simp add: fs_list_populated_keys_def kps(1) hs_collect_def)
  have "fst ` key_path_id ` set kps = fst ` key_path_id ` ?kp ` ?Q" using kps(3) by simp
  then have "(\<lambda>kp. key_segments (kp_data_key kp)) ` set kps = ?Q"
    by (simp add: image_image key_path_id_def)
  moreover have "key_segments ` set ?ks = (\<lambda>kp. key_segments (kp_data_key kp)) ` set kps"
    using hs_collect_image [of key_segments "\<lambda>kp. Some (kp_data_key kp)" kps "[]"] by auto
  moreover have "good_key k \<and> key_name k = canonical_name (key_segments k)" if "k \<in> set ?ks" for k
  proof -
    from that hs_collect_subset [of key_segments "\<lambda>kp. Some (kp_data_key kp)" kps "[]"] kps(2)
    obtain q where q: "q \<in> ?Q" "k = canonical_key q" by fastforce
    then have "good_segments q" by (auto simp: fs_data_def split: if_splits)
    with q good_canonical_key show ?thesis by simp
  qed
  ultimately show ?thesis using eq by (intro exI [of _ ?ks]) simp
qed

lemma fs_list_metadata:
  assumes "fs_inv lib base fs" and "good_committed c"
    and "fs_list_populated_metadata lib (fs_store_new base) fs pre c f = Inr mm" and "(dk, mks) \<in> set mm" and "mk \<in> set mks"
  shows "good_key dk \<and> good_meta mk \<and> starts_with (key_name dk) pre \<and> (f \<noteq> None \<longrightarrow> f = Some (key_name mk)) \<and>
    fs_meta lib base fs c (key_segments dk, hd (key_segments mk)) \<noteq> None \<and>
    list_all (\<lambda>x. \<not> ENCODE_CHARACTERS x) (hd (key_segments mk))"
proof -
  let ?fine = "\<lambda>q mk. good_meta mk \<and> (f \<noteq> None \<longrightarrow> f = Some (key_name mk)) \<and>
      fs_meta lib base fs c (q, hd (key_segments mk)) \<noteq> None \<and>
      list_all (\<lambda>x. \<not> ENCODE_CHARACTERS x) (hd (key_segments mk))"
  let ?I = "\<lambda>res. \<forall>dk mks. (dk, mks) \<in> set res \<longrightarrow> good_key dk \<and> starts_with (key_name dk) pre \<and>
      (\<forall>mk \<in> set mks. ?fine (key_segments dk) mk)"
  obtain kps where kps: "find_populated_key_paths lib (fs_store_new base) fs Meta pre c = Inr kps"
    "set kps \<subseteq> {kp. \<exists>r v. file_at fs (root c @ r) = Some v \<and> accepted lib Meta pre r = Some kp}"
    using find_populated_ok [OF assms(1,2), of Meta pre] by blast
  from assms(3) [unfolded fs_list_populated_metadata_def kps(1) and_then_simps] have "?I mm"
  proof (rule try_fold_invariant)
    fix res kp res'
    assume kp: "kp \<in> set kps" and I: "?I res"
      and step: "(case kp_metadata_key kp of None \<Rightarrow> Inl (Internal ''Found meta key path with no dot'')
         | Some meta_key \<Rightarrow>
             if f \<noteq> None \<and> f \<noteq> Some (key_name meta_key) then Inr res
             else let data_key = kp_data_key kp;
                   data_entry = (case hm_get key_segments data_key res of Some e \<Rightarrow> e | None \<Rightarrow> [])
               in Inr (hm_insert key_segments data_key (hs_insert key_segments meta_key data_entry) res)) = Inr res'"
    from kp kps(2) obtain r v where "file_at fs (root c @ r) = Some v" "accepted lib Meta pre r = Some kp" by blast
    from accepted_meta [OF assms(1,2) this] obtain mk where mk: "kp_metadata_key kp = Some mk" "good_meta mk"
      "good_key (kp_data_key kp)" "starts_with (key_name (kp_data_key kp)) pre"
      "fs_meta lib base fs c (key_segments (kp_data_key kp), hd (key_segments mk)) = Some v"
      "list_all (\<lambda>x. \<not> ENCODE_CHARACTERS x) (hd (key_segments mk))" by blast
    show "?I res'"
    proof (cases "f \<noteq> None \<and> f \<noteq> Some (key_name mk)")
      case True
      with step mk(1) I show ?thesis by simp
    next
      case False
      let ?dk = "kp_data_key kp"
      let ?old = "case hm_get key_segments ?dk res of Some e \<Rightarrow> e | None \<Rightarrow> []"
      have res': "res' = hm_insert key_segments ?dk (hs_insert key_segments mk ?old) res"
        using step mk(1) False by (simp add: Let_def split: if_splits)
      have "\<forall>x \<in> set ?old. ?fine (key_segments ?dk) x"
      proof (cases "hm_view key_segments res (key_segments ?dk)")
        case (Some e)
        from hm_view_Some_mem [OF Some] obtain k where k: "(k, e) \<in> set res" "key_segments k = key_segments ?dk" by blast
        from I [rule_format, OF k(1)] have "\<forall>x \<in> set e. ?fine (key_segments ?dk) x" unfolding k(2) by blast
        with Some show ?thesis by (simp add: hash_simps)
      qed (simp add: hash_simps)
      then have new: "\<forall>x \<in> set (hs_insert key_segments mk ?old). ?fine (key_segments ?dk) x"
        using mk False by (auto simp: hs_insert_def)
      show ?thesis
      proof (intro allI impI)
        fix k e
        assume e: "(k, e) \<in> set res'"
        have "good_key k \<and> starts_with (key_name k) pre"
          using hm_insert_fst [OF e [unfolded res']] mk(3,4) I by auto
        moreover have "\<forall>x \<in> set e. ?fine (key_segments k) x"
        proof (rule disjE [OF hm_insert_mem [OF e [unfolded res']]])
          assume "e = hs_insert key_segments mk ?old \<and> key_segments k = key_segments ?dk"
          with new show ?thesis by simp
        next
          assume "(k, e) \<in> set res"
          with I show ?thesis by blast
        qed
        ultimately show "good_key k \<and> starts_with (key_name k) pre \<and> (\<forall>x \<in> set e. ?fine (key_segments k) x)" by blast
      qed
    qed
  qed simp
  with assms(4,5) show ?thesis by blast
qed

lemma fs_unset_key_effect:
  assumes "fs_unset_key lib (fs_store_new base) k c fs = (fs', r)" and "fs_inv lib base fs" and "good_key k" and "good_committed c"
  shows "case r of Inl _ \<Rightarrow> fs' = fs
    | Inr _ \<Rightarrow> fs_inv lib base fs' \<and> fs_meta lib base fs' = fs_meta lib base fs \<and>
        fs_data lib base fs' = upd2 (fs_data lib base fs) c (key_segments k) None"
proof -
  let ?q = "key_segments k"
  have good: "good_segments ?q" using assms(3) by (rule good_key_segments)
  then have sf: "store_file lib (key_file lib ?q)" "key_file lib ?q \<noteq> []"
    by (auto simp: store_file_def key_file_def good_segments_def)
  from assms(1) have "delete_key_path lib (fs_store_new base)
      (path_join (base_path lib (fs_store_new base) c) (join ''/'' (key_file lib ?q))) c fs = (fs', r)"
    by (simp add: fs_unset_key_def data_path_ok(1) [OF assms(3,4)])
  from delete_effect [OF this assms(2,4) data_path_ok(2) [OF assms(3,4)] sf(2,1)]
  show ?thesis using views_key_upd [OF _ assms(4) good] by (cases r) auto
qed

lemma fs_unset_metadata_effect:
  assumes "fs_unset_metadata lib (fs_store_new base) mk dk fs = (fs', r)" and "fs_inv lib base fs" and "good_meta mk" and "good_key dk"
  shows "case r of Inl _ \<Rightarrow> fs' = fs
    | Inr _ \<Rightarrow> fs_inv lib base fs' \<and> fs_data lib base fs' = fs_data lib base fs \<and>
        fs_meta lib base fs' = upd2 (fs_meta lib base fs) Live (key_segments dk, hd (key_segments mk)) None"
proof -
  let ?q = "key_segments dk" and ?m = "hd (key_segments mk)"
  have good: "good_segments ?q" "wf_segment ?m" using assms(3,4) by (simp_all add: good_key_segments good_meta_segment)
  then have sf: "store_file lib (meta_file lib ?q ?m)" "meta_file lib ?q ?m \<noteq> []"
    by (auto simp: store_file_def meta_file_def)
  have live: "good_committed Live" by (simp add: good_committed_def)
  obtain path where path: "metadata_path lib (fs_store_new base) mk dk Live = Inr path"
    "path_components path = root Live @ meta_file lib ?q ?m" using metadata_path_ok [OF assms(3,4) live] by blast
  with assms(1) have "delete_key_path lib (fs_store_new base) path Live fs = (fs', r)" by (simp add: fs_unset_metadata_def)
  from delete_effect [OF this assms(2) live path(2) sf(2,1)]
  show ?thesis using views_meta_upd [OF _ live good] by (cases r) auto
qed

end

sublocale fs_library \<subseteq> fs_core: data_store_core "fs_data_store lib (fs_store_new base)" "fs_inv lib base"
  "fs_data lib base" "fs_meta lib base" "\<lambda>_ _. canonical_name" id
proof (unfold_locales, goal_cases)
  case (1 s c q v)
  then show ?case by (simp add: fs_data_def split: if_splits)
next
  case (2 s k c r)
  then have "read_file_for_key s k (path_join (base_path lib (fs_store_new base) c) (join ''/'' (key_file lib (key_segments k)))) = Inr r"
    "wf_fs s" by (simp_all add: fs_data_store_def fs_get_key_def data_path_ok(1) fs_inv_def)
  from read_file_for_key_sound [OF this] 2 show ?case
    by (simp add: data_path_ok(2) fs_data_def good_key_segments)
next
  case (3 s k c v)
  then have "wf_fs s" "file_at s (root c @ key_file lib (key_segments k)) = Some v"
    by (auto simp: fs_inv_def fs_data_def split: if_splits)
  with 3 read_file_for_key_complete [of s _ v k] show ?case
    by (simp add: fs_data_store_def fs_get_key_def data_path_ok)
next
  case (4 s k c v s' u)
  then show ?case using fs_set_key_effect [of k v c s s' "Inr u"] by (simp add: fs_data_store_def)
next
  case (5 s k c v s' e)
  then show ?case using fs_set_key_effect [of k v c s s' "Inl e"] by (simp add: fs_data_store_def)
next
  case (6 s k c s' u)
  then show ?case using fs_unset_key_effect [of k c s s' "Inr u"] by (simp add: fs_data_store_def)
next
  case (7 s k c s' e)
  then show ?case using fs_unset_key_effect [of k c s s' "Inl e"] by (simp add: fs_data_store_def)
next
  case (8 s c p)
  then show ?case using fs_list_keys [of s c p] by (auto simp: fs_data_store_def)
next
  case (9 s c p ks)
  then show ?case using fs_list_keys [of s c p] by (auto simp: fs_data_store_def)
next
  case (10 s mk dk c r)
  then obtain path where path: "metadata_path lib (fs_store_new base) mk dk c = Inr path"
    "path_components path = root c @ meta_file lib (key_segments dk) (hd (key_segments mk))"
    using metadata_path_ok [of mk dk c] by blast
  with 10 have "read_file_for_key s mk path = Inr r" "wf_fs s"
    by (simp_all add: fs_data_store_def fs_get_metadata_raw_def fs_inv_def)
  from read_file_for_key_sound [OF this] 10 path(2) show ?case
    by (simp add: fs_meta_def good_key_segments good_meta_segment)
next
  case (11 s mk dk c v s' u)
  then show ?case using fs_set_metadata_effect [of mk dk v c s s' "Inr u"] by (auto simp: fs_data_store_def upd2_def)
next
  case (12 s mk dk c v s' e)
  then show ?case using fs_set_metadata_effect [of mk dk v c s s' "Inl e"] by (simp add: fs_data_store_def)
next
  case (13 s mk dk s' u)
  then show ?case using fs_unset_metadata_effect [of mk dk s s' "Inr u"] by (simp add: fs_data_store_def)
next
  case (14 s c p f mm dk mks mk)
  then show ?case using fs_list_metadata [of s c p f mm dk mks mk] by (simp add: fs_data_store_def)
qed

section \<open>Transactions\<close>

lemma list_transactions_loop_ok:
  assumes "list_transactions_loop lib es acc = Inr txs" and "\<forall>e \<in> set es. is_ok e"
  shows "set acc \<subseteq> set txs \<and> (\<forall>p. Inr (p, False) \<in> set es \<longrightarrow> (\<exists>t \<in> set txs. percent_decode lib (last p) = Some t))"
  using assms
proof (induction lib es acc rule: list_transactions_loop.induct)
  case (3 lib p is_file es acc)
  show ?case
  proof (cases is_file)
    case True
    with 3 show ?thesis by auto
  next
    case False
    with "3.prems"(1) obtain t where t: "percent_decode lib (last p) = Some t"
      "list_transactions_loop lib es (hs_insert id t acc) = Inr txs"
      by (auto simp: decode_path_component_def result_simps)
    from t(1) have "decode_path_component lib (last p) p = Inr t" by (simp add: decode_path_component_def)
    from "3.IH"(2) [OF False this t(2)] "3.prems"(2) have "set (hs_insert id t acc) \<subseteq> set txs"
      "\<forall>p. Inr (p, False) \<in> set es \<longrightarrow> (\<exists>t \<in> set txs. percent_decode lib (last p) = Some t)" by auto
    moreover have "t \<in> set (hs_insert id t acc)" "set acc \<subseteq> set (hs_insert id t acc)" by (auto simp: hs_insert_def)
    ultimately show ?thesis using t(1) by auto
  qed
qed simp_all

context fs_library
begin

lemma list_transactions_ok:
  assumes "fs_inv lib base fs" and "fs_list_transactions lib (fs_store_new base) fs = Inr txs"
    and "good_committed (Pending tx)" and "fs_lookup fs (root (Pending tx)) = Some Dir"
  shows "tx \<in> set txs"
proof -
  let ?P = "path_components base @ [''pending'']"
  from assms(1) have wf: "wf_fs fs" by (simp add: fs_inv_def)
  have comp: "path_components (pending_base_path (fs_store_new base)) = ?P"
    by (simp add: fs_store_new_def path_components_path_join) (simp add: path_components_def)
  have root: "root (Pending tx) = ?P @ [enc tx]" by (simp add: store_root_def)
  with assms(4) wf_fs_ancestor [OF wf, of ?P "[enc tx]"] have "fs_lookup fs ?P = Some Dir" by simp
  note entries = walk_dir_entries [OF wf this, of 1 "Some 1"]
  let ?ws = "walk_dir lib 1 (Some 1) fs ?P"
  have "Inr (?P @ [enc tx], False) \<in> set ?ws" 
    unfolding entries mem_Collect_eq
    by (rule exI [of _ "[enc tx]"], rule exI [of _ Dir]) (use assms(4) root in simp)
  moreover have "\<forall>e \<in> set ?ws. is_ok e" unfolding entries by auto
  moreover have "list_transactions_loop lib ?ws [] = Inr txs"
    using assms(2) by (simp add: fs_list_transactions_def comp)
  ultimately have "\<exists>t \<in> set txs. percent_decode lib (last (?P @ [enc tx])) = Some t"
    using list_transactions_loop_ok [of lib ?ws "[]" txs] by blast
  with assms(3) decode_enc [of tx] show ?thesis by (auto simp: good_committed_def)
qed

lemma data_has_root:
  assumes "fs_inv lib base fs" and "fs_data lib base fs c q = Some v"
  shows "fs_lookup fs (root c) = Some Dir"
proof -
  from assms(2) have "good_segments q" "fs_lookup fs (root c @ key_file lib q) = Some (File v)"
    by (auto simp: fs_data_def split: if_splits)
  with wf_fs_ancestor [of fs "root c" "key_file lib q"] assms(1) show ?thesis
    by (auto simp: fs_inv_def key_file_def good_segments_def)
qed

lemma remove_transaction_effect:
  assumes "remove_dir_all (root (Pending tx)) fs = (fs', r)" and "fs_inv lib base fs" and "good_committed (Pending tx)"
    and "r = Inr u \<or> r = Inl NotFound"
  shows "fs_inv lib base fs' \<and> fs_data lib base fs' = (fs_data lib base fs)(Pending tx := Map.empty) \<and>
    fs_meta lib base fs' Live = fs_meta lib base fs Live"
proof (cases r)
  case (Inl e)
  from assms(2) have wf: "wf_fs fs" by (simp add: fs_inv_def)
  from remove_dir_all_effect [OF assms(1) wf root_nonempty] Inl
  have "fs' = fs" "fs_lookup fs (root (Pending tx)) \<noteq> Some Dir" by simp_all
  then have "fs_data lib base fs (Pending tx) q = None" for q
    using data_has_root [OF assms(2), of "Pending tx" q] by (cases "fs_data lib base fs (Pending tx) q") auto
  with \<open>fs' = fs\<close> assms(2) show ?thesis by (auto simp: fun_eq_iff)
next
  case (Inr u')
  let ?R = "root (Pending tx)"
  from assms(2) have wf: "wf_fs fs" and live: "fs_lookup fs (root Live) = Some Dir" by (simp_all add: fs_inv_def)
  from remove_dir_all_effect [OF assms(1) wf root_nonempty] Inr
  have e: "wf_fs fs'" "fs_lookup fs' = (\<lambda>q. if prefix ?R q then None else fs_lookup fs q)" by simp_all
  have under: "prefix ?R (root c @ x) \<longleftrightarrow> c = Pending tx" if c: "good_committed c" for c x
  proof
    assume "prefix ?R (root c @ x)"
    then obtain z where "root c @ x = ?R @ z" by (auto simp: prefix_def)
    from root_inj [OF this c assms(3)] show "c = Pending tx" ..
  qed simp
  have files: "file_at fs' (root c @ x) = (if c = Pending tx then None else file_at fs (root c @ x))"
    if "good_committed c" for c x
    using under [OF that, of x] by (simp add: file_at_def e(2))
  have "fs_lookup fs' (root Live) = Some Dir"
    using under [of Live "[]"] live by (simp add: e(2) good_committed_def)
  with e(1) assms(2) files have "fs_inv lib base fs'" unfolding fs_inv_def
    by (metis option.distinct(1))
  moreover have "fs_data lib base fs' c q = ((fs_data lib base fs)(Pending tx := Map.empty)) c q" for c q
    using files by (auto simp: fs_data_def)
  moreover have "fs_meta lib base fs' Live p = fs_meta lib base fs Live p" for p
    using files [of Live] by (auto simp: fs_meta_def good_committed_def split: prod.splits)
  ultimately show ?thesis by (simp add: fun_eq_iff)
qed

lemma set_metadata_loop:
  assumes "for_each (\<lambda>(mk, dk, v). fs_set_metadata lib (fs_store_new base) mk dk v Live) ms fs = (fs', Inr u)"
    and "fs_inv lib base fs" and "\<And>mk dk v. (mk, dk, v) \<in> set ms \<Longrightarrow> good_meta mk \<and> good_key dk"
  shows "fs_inv lib base fs' \<and> fs_data lib base fs' = fs_data lib base fs \<and>
    fs_meta lib base fs' Live =
      fs_meta lib base fs Live ++ map_of (rev (map (\<lambda>(mk, dk, v). ((key_segments dk, hd (key_segments mk)), v)) ms))"
  using assms
proof (induction ms arbitrary: fs)
  case (Cons m ms)
  obtain mk dk v where m: "m = (mk, dk, v)" by (cases m) auto
  with Cons.prems(1) obtain fs1 where step: "fs_set_metadata lib (fs_store_new base) mk dk v Live fs = (fs1, Inr ())"
    and rest: "for_each (\<lambda>(mk, dk, v). fs_set_metadata lib (fs_store_new base) mk dk v Live) ms fs1 = (fs', Inr u)"
    by (auto simp: result_simps)
  have "good_meta mk" "good_key dk" "good_committed Live" using Cons.prems(3) m by (auto simp: good_committed_def)
  from fs_set_metadata_effect [OF step Cons.prems(2) this]
  have e: "fs_inv lib base fs1" "fs_data lib base fs1 = fs_data lib base fs"
    "fs_meta lib base fs1 = upd2 (fs_meta lib base fs) Live (key_segments dk, hd (key_segments mk)) (Some v)" by simp_all
  have "\<And>mk dk v. (mk, dk, v) \<in> set ms \<Longrightarrow> good_meta mk \<and> good_key dk" using Cons.prems(3) by auto
  from Cons.IH [OF rest e(1) this] e show ?case
    by (simp add: m upd2_def map_add_upd_left) (simp add: map_add_def fun_eq_iff split: option.splits)
qed simp

lemma fs_commit_ok:
  assumes inv: "fs_inv lib base fs" and tx: "good_committed (Pending tx)"
    and pending: "fs_data lib base fs (Pending tx) \<noteq> Map.empty"
    and check: "check fs (Pending tx) = (fs, Inr (Approve aw))"
    and wf: "hm_wf key_segments (aw_settings aw)" and keys: "\<And>k v. (k, v) \<in> set (aw_settings aw) \<Longrightarrow> good_key k"
    and metas: "\<And>mk dk v. (mk, dk, v) \<in> set (aw_metadata aw) \<Longrightarrow> good_meta mk \<and> good_key dk"
    and commit: "fs_commit_transaction lib (fs_store_new base) tx check fs = (fs', Inr ks)"
  shows "fs_inv lib base fs' \<and>
    fs_data lib base fs' = (fs_data lib base fs)
      (Live := fs_data lib base fs Live ++ hm_view key_segments (aw_settings aw), Pending tx := Map.empty) \<and>
    key_segments ` set ks = dom (hm_view key_segments (aw_settings aw)) \<and>
    fs_meta lib base fs' Live = fs_meta lib base fs Live ++
      map_of (rev (map (\<lambda>(mk, dk, v). ((key_segments dk, hd (key_segments mk)), v)) (aw_metadata aw)))"
proof -
  let ?st = "fs_store_new base"
  obtain q v where "fs_data lib base fs (Pending tx) q = Some v" using pending by fastforce
  note dir = data_has_root [OF inv this]
  from commit obtain txs where txs: "fs_list_transactions lib ?st fs = Inr txs"
    by (auto simp: fs_commit_transaction_def result_simps)
  have "tx \<in> set txs" by (rule list_transactions_ok [OF inv txs tx dir])
  with commit txs check obtain fs1 fs2 where
    ms: "for_each (\<lambda>(mk, dk, v). fs_set_metadata lib ?st mk dk v Live) (aw_metadata aw) fs = (fs1, Inr ())"
    and ks: "(if aw_settings aw \<noteq> [] then
              op_bind (set_keys_with (fs_set_key lib ?st) (aw_settings aw) Live fs1)
                (\<lambda>_ fs. (fs, Inr (map fst (aw_settings aw)))) id
            else (fs1, Inr [])) = (fs2, Inr ks)"
    and rm: "remove_dir_all (root (Pending tx)) fs2 = (fs', Inr ())"
    by (auto simp: fs_commit_transaction_def approved_write_try_from_def result_simps Let_def root_components [OF tx])
  have m: "fs_inv lib base fs1 \<and> fs_data lib base fs1 = fs_data lib base fs \<and>
      fs_meta lib base fs1 Live = fs_meta lib base fs Live ++
        map_of (rev (map (\<lambda>(mk, dk, v). ((key_segments dk, hd (key_segments mk)), v)) (aw_metadata aw)))"
    by (rule set_metadata_loop [OF ms inv]) (rule metas)
  have live: "good_committed Live" by (simp add: good_committed_def)
  have s2: "fs_inv lib base fs2 \<and>
      fs_data lib base fs2 = (fs_data lib base fs)(Live := fs_data lib base fs Live ++ hm_view key_segments (aw_settings aw)) \<and>
      fs_meta lib base fs2 = fs_meta lib base fs1 \<and> key_segments ` set ks = dom (hm_view key_segments (aw_settings aw))"
  proof (cases "aw_settings aw = []")
    case True
    with ks m show ?thesis by auto
  next
    case False
    with ks obtain u where "set_keys_with (fs_set_key lib ?st) (aw_settings aw) Live fs1 = (fs2, Inr u)"
      and "ks = map fst (aw_settings aw)"
      by (auto simp: result_simps)
    moreover from this(1) have "set_keys (fs_data_store lib ?st) (aw_settings aw) Live fs1 = (fs2, Inr u)"
      by (simp add: set_keys_def fs_data_store_def)
    from fs_core.set_keys_ok [OF this _ live _ wf] keys m have "fs_inv lib base fs2 \<and>
      fs_data lib base fs2 = (fs_data lib base fs1)(Live := fs_data lib base fs1 Live ++ hm_view key_segments (aw_settings aw)) \<and>
      fs_meta lib base fs2 = fs_meta lib base fs1" by blast
    ultimately show ?thesis using m by (simp add: dom_hm_view image_image)
  qed
  then have "fs_inv lib base fs2" by blast
  from remove_transaction_effect [OF rm this tx] s2 m show ?thesis by simp
qed

lemma fs_delete_ok:
  assumes "fs_inv lib base fs" and "good_committed (Pending tx)"
    and "fs_delete_transaction lib (fs_store_new base) tx fs = (fs', Inr ks)"
  shows "fs_inv lib base fs' \<and> fs_data lib base fs' = (fs_data lib base fs)(Pending tx := Map.empty) \<and>
    key_segments ` set ks \<subseteq> dom (fs_data lib base fs (Pending tx))"
proof -
  let ?st = "fs_store_new base"
  obtain m where m: "get_prefix (fs_data_store lib ?st :: (fs, unit) data_store) fs ''settings.'' (Pending tx) = Inr m"
    "hm_view key_segments m = (\<lambda>q. if starts_with (canonical_name q) ''settings.'' then fs_data lib base fs (Pending tx) q else None)"
    using fs_core.get_prefix_ok [OF assms(1,2), of "''settings.''"] by blast
  then have g: "get_prefix_with (fs_list_populated_keys lib ?st) (fs_get_key lib ?st) fs ''settings.'' (Pending tx) = Inr m"
    by (simp add: get_prefix_def fs_data_store_def)
  obtain r where rm: "remove_dir_all (root (Pending tx)) fs = (fs', r)" and r: "r = Inr () \<or> r = Inl NotFound"
    and ks: "ks = map fst m"
    using assms(3) unfolding fs_delete_transaction_def g op_bind_simps Let_def root_components [OF assms(2)]
    by (cases "remove_dir_all (root (Pending tx)) fs") (auto split: sum.splits if_splits)
  have "key_segments ` set ks = dom (hm_view key_segments m)" by (simp add: ks dom_hm_view image_image)
  also have "\<dots> \<subseteq> dom (fs_data lib base fs (Pending tx))" by (auto simp: m(2) split: if_splits)
  finally show ?thesis using remove_transaction_effect [OF rm assms(1,2) r] by simp
qed

end

sublocale fs_library \<subseteq> fs_laws: data_store_laws "fs_data_store lib (fs_store_new base)" "fs_inv lib base"
  "fs_data lib base" "fs_meta lib base" "\<lambda>_ _. canonical_name" id
proof (unfold_locales, goal_cases)
  case (1 s tx txs q v)
  then show ?case
    using list_transactions_ok [of s txs tx] data_has_root [of s "Pending tx" q v] by (simp add: fs_data_store_def)
next
  case (2 s tx s' ks)
  then show ?case using fs_delete_ok [of s tx s' ks] by (simp add: fs_data_store_def)
next
  case (3 s tx check aw s' ks)
  have "fs_commit_transaction lib (fs_store_new base) tx check s = (s', Inr ks)"
    using 3(8) by (simp add: fs_data_store_def)
  from fs_commit_ok [OF 3(1-5) _ _ this] 3(6,7) show ?case by blast
next
  case (4 s check tx m s' r)
  then show ?case
    by (cases "fs_list_transactions lib (fs_store_new base) s")
       (auto simp: fs_data_store_def fs_commit_transaction_def approved_write_try_from_def split: if_splits)
qed

context fs_library
begin

lemma fs_implements: "data_store_laws (fs_data_store lib (fs_store_new base) :: (fs, 'b) data_store)
    (fs_inv lib base) (fs_data lib base) (fs_meta lib base) (\<lambda>_ _. canonical_name) id"
  by (rule fs_laws.data_store_laws_axioms)

lemma fs_get_key_complete:
  assumes "fs_inv lib base fs" and "good_key k" and "good_committed c" and "fs_data lib base fs c (key_segments k) = Some v"
  shows "fs_get_key lib (fs_store_new base) fs k c = Inr (Some v)"
  using fs_core.get_key_complete [OF assms] by (simp add: fs_data_store_def)

lemma fs_get_metadata_complete:
  assumes "fs_inv lib base fs" and "good_meta mk" and "good_key dk" and "good_committed c"
    and "fs_meta lib base fs c (key_segments dk, hd (key_segments mk)) = Some v"
  shows "fs_get_metadata_raw lib (fs_store_new base) fs mk dk c = Inr (Some v)"
proof -
  obtain path where path: "metadata_path lib (fs_store_new base) mk dk c = Inr path"
    "path_components path = root c @ meta_file lib (key_segments dk) (hd (key_segments mk))"
    using metadata_path_ok [OF assms(2-4)] by blast
  with assms(5) have "file_at fs (path_components path) = Some v" by (auto simp: fs_meta_def split: if_splits)
  with assms(1) path(1) show ?thesis
    by (simp add: fs_get_metadata_raw_def read_file_for_key_complete fs_inv_def)
qed

end

end
