(* ===== verification/Datastore_Filesystem_Instance.thy ===== *)
theory Datastore_Filesystem_Instance
  imports Datastore_Filesystem
begin

text \<open>
  A concrete library for the file system store (percent-encoding as in RFC 3986 and a complete
  directory walk), which shows that the hypotheses of \<open>fs_library\<close> can hold, and the properties of
  the store.
\<close>

section \<open>A concrete library\<close>

definition hex_digits :: string where
  "hex_digits = ''0123456789ABCDEF''"

definition hex_val :: "char \<Rightarrow> nat option" where
  "hex_val c = (case find (\<lambda>i. hex_digits ! i = c) [0..<16] of None \<Rightarrow> None | Some i \<Rightarrow> Some i)"

definition pct_byte :: "char \<Rightarrow> string" where
  "pct_byte c = [CHR ''%'', hex_digits ! ((of_char c :: nat) div 16), hex_digits ! ((of_char c :: nat) mod 16)]"

definition pct_encode :: "(char \<Rightarrow> bool) \<Rightarrow> string \<Rightarrow> string" where
  "pct_encode A s = concat (map (\<lambda>c. if A c \<or> \<not> ascii_char c then pct_byte c else [c]) s)"

fun pct_decode_bytes :: "string \<Rightarrow> string" where
  "pct_decode_bytes (c # a # b # rest) =
     (if c = CHR ''%'' \<and> hex_val a \<noteq> None \<and> hex_val b \<noteq> None
      then char_of (16 * the (hex_val a) + the (hex_val b)) # pct_decode_bytes rest
      else c # pct_decode_bytes (a # b # rest))"
| "pct_decode_bytes cs = cs"

definition pct_decode :: "string \<Rightarrow> string option" where
  "pct_decode s = (let r = pct_decode_bytes s in if list_all ascii_char r then Some r else None)"

definition full_walk :: "nat \<Rightarrow> nat option \<Rightarrow> fs \<Rightarrow> fpath \<Rightarrow> (io_kind + fpath \<times> bool) list" where
  "full_walk mn mx fs p =
     (case fs_find fs p of
        Inl e \<Rightarrow> [Inl e]
      | Inr _ \<Rightarrow> map (\<lambda>(q, n). Inr (q, n \<noteq> Dir))
          (filter (\<lambda>(q, n). prefix p q \<and> mn \<le> length q - length p \<and>
             (case mx of None \<Rightarrow> True | Some d \<Rightarrow> length q - length p \<le> d)) (([], Dir) # fs)))"

definition rfc_lib :: fs_lib where
  "rfc_lib = \<lparr>percent_encode = pct_encode, percent_decode = pct_decode, walk_dir = full_walk\<rparr>"

lemma hex_val_digit: "n < 16 \<Longrightarrow> hex_val (hex_digits ! n) = Some n"
proof -
  have "list_all (\<lambda>n. hex_val (hex_digits ! n) = Some n) [0..<16]" by code_simp
  then show "n < 16 \<Longrightarrow> hex_val (hex_digits ! n) = Some n" by (simp add: list_all_iff)
qed

lemma hex_digit_mem: "n < 16 \<Longrightarrow> hex_digits ! n \<in> set ''0123456789ABCDEF''"
  using nth_mem [of n hex_digits] by (simp add: hex_digits_def)

lemma byte_digits: "(of_char c :: nat) div 16 < 16" "(of_char c :: nat) mod 16 < 16"
  using nat_of_char_less_256 [of c] by (simp_all add: less_mult_imp_div_less)

lemma pct_decode_byte: "pct_decode_bytes (pct_byte c @ rest) = c # pct_decode_bytes rest"
  using byte_digits [of c] by (simp add: pct_byte_def hex_val_digit)

lemma pct_decode_skip: "c \<noteq> CHR ''%'' \<Longrightarrow> pct_decode_bytes (c # rest) = c # pct_decode_bytes rest"
  by (cases rest rule: pct_decode_bytes.cases) auto

lemma pct_decode_encode: "A (CHR ''%'') \<Longrightarrow> pct_decode_bytes (pct_encode A s) = s"
proof (induction s)
  case (Cons c s)
  then show ?case
    by (cases "A c \<or> \<not> ascii_char c") (auto simp: pct_encode_def pct_decode_byte intro: pct_decode_skip [THEN trans])
qed (simp add: pct_encode_def)

lemma full_walk_entries:
  assumes "wf_fs fs" and "fs_lookup fs p = Some Dir"
  shows "set (full_walk mn mx fs p) = {Inr (p @ r, n \<noteq> Dir) |r n. fs_lookup fs (p @ r) = Some n \<and> mn \<le> length r \<and>
     (case mx of None \<Rightarrow> True | Some d \<Rightarrow> length r \<le> d)}"
proof -
  have find: "fs_find fs p = Inr Dir" using assms fs_find_Ok_iff by blast
  have mem: "(q, n) \<in> set (([], Dir) # fs) \<longleftrightarrow> fs_lookup fs q = Some n" for q n
  proof (cases "q = []")
    case True
    with wf_fs_nonroot [OF assms(1)] show ?thesis by auto
  next
    case False
    with fs_lookup_mem_iff [OF wf_fs_hm [OF assms(1)]] show ?thesis by simp
  qed
  define D where "D k \<longleftrightarrow> mn \<le> k \<and> (case mx of None \<Rightarrow> True | Some d \<Rightarrow> k \<le> d)" for k
  have "set (full_walk mn mx fs p) =
      (\<lambda>(q, n). Inr (q, n \<noteq> Dir)) ` {(q, n). (q, n) \<in> set (([], Dir) # fs) \<and> prefix p q \<and> D (length q - length p)}"
    by (simp only: full_walk_def find sum.case set_map set_filter D_def) auto
  also have "\<dots> = (\<lambda>(r, n). Inr (p @ r, n \<noteq> Dir)) ` {(r, n). fs_lookup fs (p @ r) = Some n \<and> D (length r)}"
    unfolding mem by (force simp: prefix_def image_def)
  also have "\<dots> = {Inr (p @ r, n \<noteq> Dir) |r n. fs_lookup fs (p @ r) = Some n \<and> D (length r)}"
    by auto
  finally show ?thesis unfolding D_def .
qed

interpretation rfc: fs_library rfc_lib base for base
proof (unfold_locales, goal_cases)
  case (1 A s)
  then show ?case by (simp add: rfc_lib_def pct_decode_def pct_decode_encode Let_def)
next
  case (2 c A s)
  have "x \<in> set (pct_byte y) \<Longrightarrow> x = CHR ''%'' \<or> x \<in> set ''0123456789ABCDEF''" for x y
    using hex_digit_mem [OF byte_digits(1) [of y]] hex_digit_mem [OF byte_digits(2) [of y]]
    unfolding pct_byte_def by (elim set_ConsD [THEN disjE]; simp)
  then have byte: "\<And>x y. x \<in> set (pct_byte y) \<Longrightarrow> x = CHR ''%'' \<or> x \<in> set ''0123456789ABCDEF''" .
  from 2 obtain y where y: "y \<in> set s" "c \<in> set (if A y \<or> \<not> ascii_char y then pct_byte y else [y])"
    unfolding rfc_lib_def fs_lib.simps pct_encode_def set_concat set_map by blast
  show ?case
  proof (cases "A y \<or> \<not> ascii_char y")
    case True
    with y(2) byte [of c y] show ?thesis by presburger
  next
    case False
    with y have "c = y" by (simp only: if_False) simp
    with y(1) False show ?thesis by blast
  qed
next
  case (3 A s)
  then show ?case by (induction s) (simp_all add: rfc_lib_def pct_encode_def)
next
  case (4 A s)
  then show ?case by (cases s) (auto simp: rfc_lib_def pct_encode_def pct_byte_def)
next
  case (5 fs p mn mx)
  then show ?case by (simp add: rfc_lib_def full_walk_entries)
next
  case (6 fs p e mn mx)
  then show ?case by (simp add: rfc_lib_def full_walk_def)
qed

context fs_library
begin

lemma empty_transaction_root:
  "path_components (base_path lib (fs_store_new base) (Pending [])) = path_components base @ [''pending'']"
proof -
  have e: "enc [] = []" by simp
  show ?thesis
    by (simp add: e base_path_def fs_store_new_def path_components_path_join) (simp add: path_components_def)
qed

lemma delete_empty_transaction:
  assumes "fs_inv lib base fs" and "fs_delete_transaction lib (fs_store_new base) [] fs = (fs', Inr ks)"
  shows "fs_data lib base fs' (Pending tx) q = None"
proof -
  let ?P = "path_components base @ [''pending'']"
  from assms(1) have wf: "wf_fs fs" by (simp add: fs_inv_def)
  obtain fs1 r where rm1: "remove_dir_all ?P fs = (fs1, r)" by fastforce
  have "fs1 = fs'" and r: "r = Inr () \<or> r = Inl NotFound"
    using assms(2) unfolding fs_delete_transaction_def Let_def empty_transaction_root
    by (cases r; auto simp: result_simps rm1 split: if_splits)+
  with rm1 have rm: "remove_dir_all ?P fs = (fs', r)" by simp
  have under: "store_root lib base (Pending tx) @ key_file lib q = ?P @ encode_path_component lib tx # key_file lib q"
    by (simp add: store_root_def)
  have "fs_lookup fs' (?P @ x # rest) = None" for x rest
    using remove_dir_all_effect [OF rm wf] r wf_fs_ancestor [OF wf, of ?P "x # rest"]
    by (cases "fs_lookup fs (?P @ x # rest)") auto
  then show ?thesis unfolding fs_data_def under file_at_def by simp
qed

end

section \<open>Properties\<close>

definition sample_fs :: fs where
  "sample_fs = [([''d''], Dir), ([''d'', ''live''], Dir)]"

definition fs_key :: "string \<Rightarrow> key" where
  "fs_key nm = \<lparr>key_name = nm, key_segments = split_on (CHR ''.'') nm\<rparr>"

definition fs_sample_pending :: fs where
  "fs_sample_pending = [([''d''], Dir), ([''d'', ''live''], Dir), ([''d'', ''pending''], Dir),
     ([''d'', ''pending'', ''tx''], Dir), ([''d'', ''pending'', ''tx'', ''settings''], Dir),
     ([''d'', ''pending'', ''tx'', ''settings'', ''a''], File ''1'')]"

lemma fs_key_good:
  "good_key (fs_key ''settings.a'')" "good_key (fs_key ''settings'')" "good_meta (fs_key ''m'')"
  by (simp_all add: fs_key_def good_key_def good_meta_def wf_key_def quote_segment_def wf_segment_def
    valid_character_def)

lemma good_tx: "good_committed (Pending ''tx'')" "good_committed Live"
  by (simp_all add: good_committed_def ascii_char_def)

lemma fs_inv_sample: "fs_inv rfc_lib ''/d'' sample_fs"
proof -
  have "store_root rfc_lib ''/d'' Live = [''d'', ''live'']"
    by (simp add: store_root_def path_components_def)
  moreover have "fs_lookup sample_fs p \<noteq> Some (File v)" for p v
    by (simp add: sample_fs_def fs_lookup_def hm_get_def)
  moreover have "wf_fs sample_fs" by (simp add: sample_fs_def wf_fs_def hm_wf_def fs_lookup_def hm_get_def)
  ultimately show ?thesis by (simp add: fs_inv_def) (simp add: sample_fs_def fs_lookup_def hm_get_def)
qed

lemma set_pending_sample:
  "fs_set_key rfc_lib (fs_store_new ''/d'') (fs_key ''settings.a'') ''1'' (Pending ''tx'') sample_fs =
     (fs_sample_pending, Inr ())"
  by code_simp

lemma fs_inv_pending: "fs_inv rfc_lib ''/d'' fs_sample_pending"
  using rfc.fs_set_key_effect [OF set_pending_sample fs_inv_sample fs_key_good(1) good_tx(1)] by simp

text \<open>
  C9: Writing a key to the file system store and reading it back: after a successful \<open>set_key\<close>,
  \<open>get_key\<close> on that key returns the value, every other data key of every transaction and all
  metadata are as before, and the store's invariant is kept; after a failed one nothing the store
  holds has changed. This is for any percent-encoding and directory walk that meet their
  documented behaviour.
\<close>

theorem fs_set_key_get_key:
  assumes "fs_library lib" and "fs_inv lib base fs" and "good_key k" and "good_committed c"
    and "fs_set_key lib (fs_store_new base) k v c fs = (fs', r)"
  shows "fs_inv lib base fs' \<and> fs_meta lib base fs' = fs_meta lib base fs \<and>
    (case r of
       Inr _ \<Rightarrow> fs_get_key lib (fs_store_new base) fs' k c = Inr (Some v) \<and>
         (\<forall>c' q. (c', q) \<noteq> (c, key_segments k) \<longrightarrow> fs_data lib base fs' c' q = fs_data lib base fs c' q)
     | Inl _ \<Rightarrow> fs_data lib base fs' = fs_data lib base fs)"
proof -
  note effect = fs_library.fs_set_key_effect [OF assms(1,5,2-4)]
  show ?thesis
  proof (cases r)
    case (Inl e)
    with effect show ?thesis by simp
  next
    case (Inr u)
    with effect have e: "fs_inv lib base fs'" "fs_data lib base fs' = upd2 (fs_data lib base fs) c (key_segments k) (Some v)"
      by simp_all
    then have "fs_data lib base fs' c (key_segments k) = Some v" by (simp add: upd2_def)
    from fs_library.fs_get_key_complete [OF assms(1) e(1) assms(3,4) this]
    have "fs_get_key lib (fs_store_new base) fs' k c = Inr (Some v)" .
    with effect e Inr show ?thesis by (auto simp: upd2_def)
  qed
qed

theorem fs_set_key_get_key_witness:
  "fs_get_key rfc_lib (fs_store_new ''/d'') fs_sample_pending (fs_key ''settings.a'') (Pending ''tx'') = Inr (Some ''1'')"
  using fs_set_key_get_key [OF rfc.fs_library_axioms fs_inv_sample fs_key_good(1) good_tx(1) set_pending_sample] by simp



text \<open>
  C11: A metadata key whose name holds a dot or a slash can be written and read back, but
  \<open>list_populated_metadata\<close> never lists it: its file name is percent-encoded when written and not
  decoded when listed.
\<close>

theorem fs_encoded_metadata_not_listed:
  assumes "fs_library lib" and "fs_inv lib base fs" and "good_meta mk" and "good_key dk" and "good_committed c"
    and "fs_set_metadata lib (fs_store_new base) mk dk v c fs = (fs', Inr u)"
    and "\<exists>x \<in> set (hd (key_segments mk)). ENCODE_CHARACTERS x"
  shows "fs_get_metadata_raw lib (fs_store_new base) fs' mk dk c = Inr (Some v) \<and>
    (\<forall>mm. fs_list_populated_metadata lib (fs_store_new base) fs' pre c f = Inr mm \<longrightarrow>
      (\<forall>(dk', mks) \<in> set mm. \<forall>mk' \<in> set mks. \<not> key_eq mk' mk))"
proof -
  note effect = fs_library.fs_set_metadata_effect [OF assms(1,6,2-5)]
  then have inv: "fs_inv lib base fs'" and "fs_meta lib base fs' c (key_segments dk, hd (key_segments mk)) = Some v"
    by (simp_all add: upd2_def)
  from fs_library.fs_get_metadata_complete [OF assms(1) inv assms(3-5) this(2)]
  have "fs_get_metadata_raw lib (fs_store_new base) fs' mk dk c = Inr (Some v)" .
  moreover have "\<not> key_eq mk' mk"
    if "fs_list_populated_metadata lib (fs_store_new base) fs' pre c f = Inr mm" "(dk', mks) \<in> set mm" "mk' \<in> set mks"
    for mm dk' mks mk'
    using fs_library.fs_list_metadata [OF assms(1) inv assms(5) that] assms(7) by (auto simp: key_eq_def list_all_iff)
  ultimately show ?thesis by blast
qed

theorem fs_encoded_metadata_not_listed_witness:
  "\<exists>fs'. fs_set_metadata rfc_lib (fs_store_new ''/d'') \<lparr>key_name = ''a/b'', key_segments = [''a/b'']\<rparr> (fs_key ''settings.a'') ''x'' Live sample_fs = (fs', Inr ()) \<and>
    fs_get_metadata_raw rfc_lib (fs_store_new ''/d'') fs' \<lparr>key_name = ''a/b'', key_segments = [''a/b'']\<rparr> (fs_key ''settings.a'') Live = Inr (Some ''x'')"
proof -
  let ?mk = "\<lparr>key_name = ''a/b'', key_segments = [''a/b'']\<rparr>"
  have ok: "is_ok (snd (fs_set_metadata rfc_lib (fs_store_new ''/d'') ?mk (fs_key ''settings.a'') ''x'' Live sample_fs))"
    by code_simp
  obtain fs' where st: "fs_set_metadata rfc_lib (fs_store_new ''/d'') ?mk (fs_key ''settings.a'') ''x'' Live sample_fs = (fs', Inr ())"
    using op_is_ok [OF ok] by auto
  have "good_meta ?mk" by (simp add: good_meta_def wf_key_def wf_segment_def quote_segment_def valid_character_def)
  moreover have "\<exists>x \<in> set (hd (key_segments ?mk)). ENCODE_CHARACTERS x"
    by (simp add: ENCODE_CHARACTERS_def alphanumeric_def)
  ultimately show ?thesis
    using fs_encoded_metadata_not_listed [OF rfc.fs_library_axioms fs_inv_sample _ fs_key_good(1) good_tx(2) st] st by blast
qed

text \<open>
  C24: Deleting the transaction with the empty name deletes every pending transaction: an empty
  name encodes to an empty path component, so the directory removed is the parent of all
  transactions.
\<close>

theorem fs_delete_empty_transaction:
  assumes "fs_library lib" and "fs_inv lib base fs"
    and "fs_delete_transaction lib (fs_store_new base) [] fs = (fs', Inr ks)"
  shows "fs_data lib base fs' (Pending tx) = Map.empty"
  using fs_library.delete_empty_transaction [OF assms] by blast

theorem fs_delete_empty_transaction_witness:
  "\<exists>fs' ks. fs_delete_transaction rfc_lib (fs_store_new ''/d'') [] fs_sample_pending = (fs', Inr ks) \<and>
    fs_data rfc_lib ''/d'' fs_sample_pending (Pending ''tx'') [''settings'', ''a''] = Some ''1'' \<and>
    fs_data rfc_lib ''/d'' fs' (Pending ''tx'') = Map.empty"
proof -
  have "is_ok (snd (fs_delete_transaction rfc_lib (fs_store_new ''/d'') [] fs_sample_pending))" by code_simp
  then obtain fs' ks where "fs_delete_transaction rfc_lib (fs_store_new ''/d'') [] fs_sample_pending = (fs', Inr ks)"
    using op_is_ok by blast
  moreover have "fs_data rfc_lib ''/d'' fs_sample_pending (Pending ''tx'') [''settings'', ''a''] = Some ''1''"
    by code_simp
  ultimately show ?thesis using fs_delete_empty_transaction [OF rfc.fs_library_axioms fs_inv_pending] by blast
qed

end
