(* ===== verification/Signpost.thy ===== *)
theory Signpost
  imports Prelude "HOL-Library.Word"
begin

text \<open>
  \<open>sources/updater/signpost\<close>: the partition sets of the OS disk and the GPT attribute bits that tell
  the boot loader which set to try. The crates \<open>bit_field\<close>, \<open>gptman\<close> and \<open>block_party\<close> are the
  fields of the record \<open>signpost_lib\<close>, with their documented behaviour as the locale
  \<open>signpost_library\<close>.
\<close>

section \<open>Definitions\<close>

type_synonym u64 = "64 word"

text \<open>
  \<open>'g\<close> is \<open>gptman::GPT\<close>, \<open>'d\<close> a \<open>block_party::BlockDevice\<close>, \<open>'e\<close> their errors. \<open>set_bits\<close> panics on a
  value that does not fit the range, and indexing a table panics on a number it does not have;
  what they return then is left open.
\<close>

record ('g, 'd, 'e) signpost_lib =
  get_bits :: "u64 \<Rightarrow> nat \<Rightarrow> nat \<Rightarrow> u64"
  set_bits :: "u64 \<Rightarrow> nat \<Rightarrow> nat \<Rightarrow> u64 \<Rightarrow> u64"
  get_bit :: "u64 \<Rightarrow> nat \<Rightarrow> bool"
  put_bit :: "u64 \<Rightarrow> nat \<Rightarrow> bool \<Rightarrow> u64"
  gpt_iter :: "'g \<Rightarrow> (nat \<times> nat list) list"
  attribute_bits :: "'g \<Rightarrow> nat \<Rightarrow> u64"
  put_attribute_bits :: "nat \<Rightarrow> u64 \<Rightarrow> 'g \<Rightarrow> 'g"
  from_device_path :: "string \<Rightarrow> 'e + 'd"
  lower_devices :: "'d \<Rightarrow> 'e + ('e + 'd) list"
  device_disk :: "'d \<Rightarrow> 'e + 'd option"
  disk_partition :: "'d \<Rightarrow> nat \<Rightarrow> 'e + 'd option"
  device_path :: "'d \<Rightarrow> string"

subsection \<open>gptprio.rs\<close>

text \<open>\<open>GptPrio\<close> wraps the attribute word.\<close>

definition priority :: "('g, 'd, 'e) signpost_lib \<Rightarrow> u64 \<Rightarrow> u64" where
  "priority lib w = get_bits lib w 48 52"

definition set_priority :: "('g, 'd, 'e) signpost_lib \<Rightarrow> u64 \<Rightarrow> u64 \<Rightarrow> u64" where
  "set_priority lib p w = set_bits lib w 48 52 p"

definition tries_left :: "('g, 'd, 'e) signpost_lib \<Rightarrow> u64 \<Rightarrow> u64" where
  "tries_left lib w = get_bits lib w 52 56"

definition set_tries_left :: "('g, 'd, 'e) signpost_lib \<Rightarrow> u64 \<Rightarrow> u64 \<Rightarrow> u64" where
  "set_tries_left lib t w = set_bits lib w 52 56 t"

definition successful :: "('g, 'd, 'e) signpost_lib \<Rightarrow> u64 \<Rightarrow> bool" where
  "successful lib w = get_bit lib w 56"

definition set_successful :: "('g, 'd, 'e) signpost_lib \<Rightarrow> bool \<Rightarrow> u64 \<Rightarrow> u64" where
  "set_successful lib b w = put_bit lib w 56 b"

definition will_boot :: "('g, 'd, 'e) signpost_lib \<Rightarrow> u64 \<Rightarrow> bool" where
  "will_boot lib w \<longleftrightarrow> priority lib w > 0 \<and> tries_left lib w > 0 \<or> successful lib w"

definition boot_has_succeeded :: "('g, 'd, 'e) signpost_lib \<Rightarrow> u64 \<Rightarrow> u64" where
  "boot_has_succeeded lib w = put_bit lib w 57 True"

definition gptprio_has_boot_succeeded :: "('g, 'd, 'e) signpost_lib \<Rightarrow> u64 \<Rightarrow> bool" where
  "gptprio_has_boot_succeeded lib w = get_bit lib w 57"

definition display_gptprio :: "('g, 'd, 'e) signpost_lib \<Rightarrow> u64 \<Rightarrow> string" where
  "display_gptprio lib w =
     ''priority='' @ show_nat (unat (priority lib w)) @ '' tries_left='' @ show_nat (unat (tries_left lib w))
       @ '' successful='' @ show_bool (successful lib w)"

subsection \<open>set.rs and guid.rs\<close>

record partition_set =
  set_boot :: string
  set_root :: string
  set_hash :: string

definition set_contains :: "partition_set \<Rightarrow> string \<Rightarrow> bool" where
  "set_contains s device \<longleftrightarrow> set_boot s = device \<or> set_root s = device \<or> set_hash s = device"

definition display_partition_set :: "partition_set \<Rightarrow> string" where
  "display_partition_set s = ''boot='' @ set_boot s @ '' root='' @ set_root s @ '' hash='' @ set_hash s"

datatype set_select = Set_A | Set_B

fun select_idx :: "set_select \<Rightarrow> nat" where
  "select_idx Set_A = 0"
| "select_idx Set_B = 1"

fun select_not :: "set_select \<Rightarrow> set_select" where
  "select_not Set_A = Set_B"
| "select_not Set_B = Set_A"

fun display_set_select :: "set_select \<Rightarrow> string" where
  "display_set_select Set_A = ''A''"
| "display_set_select Set_B = ''B''"

definition uuid_to_guid :: "nat list \<Rightarrow> nat list" where
  "uuid_to_guid uuid = map ((!) uuid) [3, 2, 1, 0, 5, 4, 7, 6, 8, 9, 10, 11, 12, 13, 14, 15]"

subsection \<open>state.rs\<close>

definition BOTTLEROCKET_BOOT :: "nat list" where
  "BOTTLEROCKET_BOOT = uuid_to_guid
     [0x6b, 0x63, 0x61, 0x68, 0x74, 0x20, 0x65, 0x68, 0x20, 0x70, 0x6c, 0x61, 0x6e, 0x65, 0x74, 0x21]"

definition BOTTLEROCKET_ROOT :: "nat list" where
  "BOTTLEROCKET_ROOT = uuid_to_guid
     [0x55, 0x26, 0x01, 0x6a, 0x1a, 0x97, 0x4e, 0xa4, 0xb3, 0x9a, 0xb7, 0xc8, 0xc6, 0xca, 0x45, 0x02]"

definition BOTTLEROCKET_HASH :: "nat list" where
  "BOTTLEROCKET_HASH = uuid_to_guid
     [0x59, 0x8f, 0x10, 0xaf, 0xc9, 0x55, 0x44, 0x56, 0x6a, 0x99, 0x77, 0x20, 0x06, 0x8a, 0x6c, 0xea]"

definition BOTTLEROCKET_PRIVATE :: "nat list" where
  "BOTTLEROCKET_PRIVATE = uuid_to_guid
     [0x44, 0x04, 0x08, 0xbb, 0xeb, 0x0b, 0x43, 0x28, 0xa6, 0xe5, 0xa2, 0x90, 0x38, 0xfa, 0xd7, 0x06]"

datatype partition_sets = Single partition_set | Dual partition_set partition_set set_select

record 'g state =
  os_disk :: string
  private_partition_num :: nat
  sets :: partition_sets
  boot_partition_nums :: "nat list"
  table :: 'g

datatype 'e signpost_error =
    ActiveNotInSet string "partition_set list"
  | BlockDeviceFromPath string 'e
  | DiskFromPartition string 'e
  | ConvertVec
  | PartitionFromDisk string 'e
  | GPTFind string 'e
  | GPTWrite string 'e
  | InactiveAlreadyMarked string
  | InactiveNotAvailable string
  | InactiveNotValid string
  | InactiveInvalidRollback u64 u64 bool
  | OpenError string string 'e
  | PartitionMissingFromSet string string
  | PartitionNotFoundOnDevice nat string
  | RootHasNoLowerDevices string
  | RootLowerDevices string 'e
  | RootNotPartition string

text \<open>The closures of \<open>State::load\<close>. \<open>stringify!(guid)\<close> is the text \<open>guid\<close>, whatever the argument.\<close>

definition nth_guid :: "('g, 'd, 'e) signpost_lib \<Rightarrow> 'g \<Rightarrow> nat list \<Rightarrow> nat \<Rightarrow> nat option" where
  "nth_guid lib tbl guid n =
     (let found = filter (\<lambda>(_, g). g = guid) (gpt_iter lib tbl)
      in if n < length found then Some (fst (found ! n)) else None)"

definition required_guid ::
  "('g, 'd, 'e) signpost_lib \<Rightarrow> 'g \<Rightarrow> nat list \<Rightarrow> nat \<Rightarrow> 'e signpost_error + nat" where
  "required_guid lib tbl guid n =
     ok_or (PartitionMissingFromSet ''guid'' (if n = 0 then ''A'' else ''B'')) (nth_guid lib tbl guid n)"

definition device_from_part_num ::
  "('g, 'd, 'e) signpost_lib \<Rightarrow> 'd \<Rightarrow> nat \<Rightarrow> 'e signpost_error + string" where
  "device_from_part_num lib disk num =
     and_then (map_err (PartitionFromDisk (device_path lib disk)) (disk_partition lib disk num)) (\<lambda>p.
     and_then (ok_or (PartitionNotFoundOnDevice num (device_path lib disk)) p) (\<lambda>d.
     Inr (device_path lib d)))"

definition load_set ::
  "('g, 'd, 'e) signpost_lib \<Rightarrow> 'd \<Rightarrow> 'g \<Rightarrow> nat \<Rightarrow> nat \<Rightarrow> 'e signpost_error + partition_set" where
  "load_set lib disk tbl boot_num n =
     and_then (device_from_part_num lib disk boot_num) (\<lambda>boot.
     and_then (and_then (required_guid lib tbl BOTTLEROCKET_ROOT n) (device_from_part_num lib disk)) (\<lambda>root.
     and_then (and_then (required_guid lib tbl BOTTLEROCKET_HASH n) (device_from_part_num lib disk)) (\<lambda>hash.
     Inr \<lparr>set_boot = boot, set_root = root, set_hash = hash\<rparr>)))"

text \<open>\<open>iter.next().transpose()\<close>\<close>

definition first_lower :: "('e + 'd) list \<Rightarrow> 'e + 'd option" where
  "first_lower ds = (case ds of [] \<Rightarrow> Inr None | Inl e # _ \<Rightarrow> Inl e | Inr d # _ \<Rightarrow> Inr (Some d))"

text \<open>
  \<open>State::load\<close>: the partition that holds the root file system and its disk, then the sets from the
  disk's table. \<open>read_table\<close> is opening the disk and \<open>GPT::find_from\<close>: \<open>Inl (Inl e)\<close> when the device
  cannot be opened, \<open>Inl (Inr e)\<close> when no table is found on it.
\<close>

definition locate_disk :: "('g, 'd, 'e) signpost_lib \<Rightarrow> 'e signpost_error + 'd \<times> 'd" where
  "locate_disk lib =
     and_then (map_err (BlockDeviceFromPath ''/'') (from_device_path lib ''/'')) (\<lambda>root_fs.
     and_then (map_err (RootLowerDevices (device_path lib root_fs))
                 (and_then (lower_devices lib root_fs) first_lower)) (\<lambda>lower.
     and_then (ok_or (RootHasNoLowerDevices (device_path lib root_fs)) lower) (\<lambda>active_partition.
     and_then (map_err (DiskFromPartition (device_path lib root_fs)) (device_disk lib active_partition)) (\<lambda>disk.
     and_then (ok_or (RootNotPartition (device_path lib root_fs)) disk) (\<lambda>disk.
     Inr (active_partition, disk))))))"

definition load_sets ::
  "('g, 'd, 'e) signpost_lib \<Rightarrow> 'd \<Rightarrow> 'd \<Rightarrow> 'g \<Rightarrow> nat list \<Rightarrow> 'e signpost_error + partition_sets" where
  "load_sets lib active_device disk tbl nums =
     and_then (load_set lib disk tbl (nums ! 0) 0) (\<lambda>set_a.
     if length nums = 2 then
       and_then (load_set lib disk tbl (nums ! 1) 1) (\<lambda>set_b.
       let active_partition = device_path lib active_device in
       if set_contains set_a active_partition then Inr (Dual set_a set_b Set_A)
       else if set_contains set_b active_partition then Inr (Dual set_a set_b Set_B)
       else Inl (ActiveNotInSet active_partition [set_a, set_b]))
     else Inr (Single set_a))"

definition load_table :: "('g, 'd, 'e) signpost_lib \<Rightarrow> 'd \<Rightarrow> 'd \<Rightarrow> 'g \<Rightarrow> 'e signpost_error + 'g state" where
  "load_table lib active_device disk tbl =
     and_then (required_guid lib tbl BOTTLEROCKET_BOOT 0) (\<lambda>boot_a.
     let nums = boot_a # (case nth_guid lib tbl BOTTLEROCKET_BOOT 1 of Some b \<Rightarrow> [b] | None \<Rightarrow> []) in
     and_then (load_sets lib active_device disk tbl nums) (\<lambda>psets.
     and_then (required_guid lib tbl BOTTLEROCKET_PRIVATE 0) (\<lambda>private.
     Inr \<lparr>os_disk = device_path lib disk, private_partition_num = private, sets = psets,
          boot_partition_nums = nums, table = tbl\<rparr>)))"

definition load_state ::
  "('g, 'd, 'e) signpost_lib \<Rightarrow> (string \<Rightarrow> ('e + 'e) + 'g) \<Rightarrow> 'e signpost_error + 'g state" where
  "load_state lib read_table =
     and_then (locate_disk lib) (\<lambda>(active_device, disk).
     and_then (map_err (case_sum (OpenError (device_path lib disk) ''reading'')
                          (GPTFind (device_path lib disk))) (read_table (device_path lib disk))) (\<lambda>tbl.
     load_table lib active_device disk tbl))"

definition gpt_attributes :: "('g, 'd, 'e) signpost_lib \<Rightarrow> 'g state \<Rightarrow> nat \<Rightarrow> u64" where
  "gpt_attributes lib s num = attribute_bits lib (table s) num"

definition gptprio :: "('g, 'd, 'e) signpost_lib \<Rightarrow> 'g state \<Rightarrow> set_select \<Rightarrow> u64" where
  "gptprio lib s sel = gpt_attributes lib s (boot_partition_nums s ! select_idx sel)"

definition set_gpt_attributes :: "('g, 'd, 'e) signpost_lib \<Rightarrow> nat \<Rightarrow> u64 \<Rightarrow> 'g state \<Rightarrow> 'g state" where
  "set_gpt_attributes lib num flags s = s\<lparr>table := put_attribute_bits lib num flags (table s)\<rparr>"

definition set_gptprio :: "('g, 'd, 'e) signpost_lib \<Rightarrow> set_select \<Rightarrow> u64 \<Rightarrow> 'g state \<Rightarrow> 'g state" where
  "set_gptprio lib sel flags s = set_gpt_attributes lib (boot_partition_nums s ! select_idx sel) flags s"

definition active :: "'g state \<Rightarrow> set_select" where
  "active s = (case sets s of Dual _ _ a \<Rightarrow> a | Single _ \<Rightarrow> Set_A)"

definition inactive :: "'g state \<Rightarrow> set_select option" where
  "inactive s = (case sets s of Dual _ _ a \<Rightarrow> Some (select_not a) | Single _ \<Rightarrow> None)"

definition pick_set :: "partition_set \<Rightarrow> partition_set \<Rightarrow> set_select \<Rightarrow> partition_set" where
  "pick_set sa sb sel = [sa, sb] ! select_idx sel"

definition active_set :: "'g state \<Rightarrow> partition_set" where
  "active_set s = (case sets s of Dual sa sb a \<Rightarrow> pick_set sa sb a | Single x \<Rightarrow> x)"

definition inactive_set :: "'g state \<Rightarrow> partition_set option" where
  "inactive_set s = (case sets s of Dual sa sb a \<Rightarrow> Some (pick_set sa sb (select_not a)) | Single _ \<Rightarrow> None)"

definition next_set :: "('g, 'd, 'e) signpost_lib \<Rightarrow> 'g state \<Rightarrow> set_select option" where
  "next_set lib s =
     (case sets s of
        Single _ \<Rightarrow> if will_boot lib (gptprio lib s Set_A) then Some Set_A else None
      | Dual _ _ _ \<Rightarrow>
          let a = gptprio lib s Set_A; b = gptprio lib s Set_B in
          case (will_boot lib a, will_boot lib b) of
            (True, True) \<Rightarrow> if priority lib a \<ge> priority lib b then Some Set_A else Some Set_B
          | (True, False) \<Rightarrow> Some Set_A
          | (False, True) \<Rightarrow> Some Set_B
          | (False, False) \<Rightarrow> None)"

definition mark_successful_boot :: "('g, 'd, 'e) signpost_lib \<Rightarrow> 'g state \<Rightarrow> 'g state" where
  "mark_successful_boot lib s =
     (let flags = set_successful lib True (gptprio lib s (active s));
          s = set_gptprio lib (active s) flags s;
          private_flags = boot_has_succeeded lib (gpt_attributes lib s (private_partition_num s))
      in set_gpt_attributes lib (private_partition_num s) private_flags s)"

definition require_inactive :: "'g state \<Rightarrow> 'e signpost_error + set_select" where
  "require_inactive s = ok_or (InactiveNotAvailable (os_disk s)) (inactive s)"

definition clear_inactive :: "('g, 'd, 'e) signpost_lib \<Rightarrow> 'g state \<Rightarrow> 'g state \<times> ('e signpost_error + unit)" where
  "clear_inactive lib s =
     op_bind (s, require_inactive s) (\<lambda>ina s.
       let flags = set_successful lib False (set_tries_left lib 0 (set_priority lib 0 (gptprio lib s ina)))
       in (set_gptprio lib ina flags s, Inr ())) id"

definition mark_inactive_valid :: "('g, 'd, 'e) signpost_lib \<Rightarrow> 'g state \<Rightarrow> 'g state \<times> ('e signpost_error + unit)" where
  "mark_inactive_valid lib s =
     op_bind (s, require_inactive s) (\<lambda>ina s.
       (set_gptprio lib ina (set_tries_left lib 1 (gptprio lib s ina)) s, Inr ())) id"

definition upgrade_to_inactive :: "('g, 'd, 'e) signpost_lib \<Rightarrow> 'g state \<Rightarrow> 'g state \<times> ('e signpost_error + unit)" where
  "upgrade_to_inactive lib s =
     op_bind (s, require_inactive s) (\<lambda>ina s.
       let flags = gptprio lib s ina in
       op_bind (s, ensure (priority lib flags = 0 \<and> \<not> successful lib flags) (InactiveAlreadyMarked (os_disk s))) (\<lambda>_ s.
       op_bind (s, ensure (tries_left lib flags > 0) (InactiveNotValid (os_disk s))) (\<lambda>_ s.
         let s = set_gptprio lib ina (set_successful lib False (set_priority lib 2 flags)) s
         in (set_gptprio lib (active s) (set_priority lib 1 (gptprio lib s (active s))) s, Inr ())) id) id) id"

definition cancel_upgrade :: "('g, 'd, 'e) signpost_lib \<Rightarrow> 'g state \<Rightarrow> 'g state \<times> ('e signpost_error + unit)" where
  "cancel_upgrade lib s =
     op_bind (s, require_inactive s) (\<lambda>ina s.
       let s = set_gptprio lib ina (set_priority lib 0 (gptprio lib s ina)) s
       in (set_gptprio lib (active s) (set_priority lib 2 (gptprio lib s (active s))) s, Inr ())) id"

definition rollback_to_inactive :: "('g, 'd, 'e) signpost_lib \<Rightarrow> 'g state \<Rightarrow> 'g state \<times> ('e signpost_error + unit)" where
  "rollback_to_inactive lib s =
     op_bind (s, require_inactive s) (\<lambda>ina s.
       let flags = gptprio lib s ina in
       if \<not> will_boot lib flags then
         (s, Inl (InactiveInvalidRollback (priority lib flags) (tries_left lib flags) (successful lib flags)))
       else
         let s = set_gptprio lib ina (set_priority lib 2 flags) s
         in (set_gptprio lib (active s) (set_priority lib 1 (gptprio lib s (active s))) s, Inr ())) id"

definition has_boot_succeeded :: "('g, 'd, 'e) signpost_lib \<Rightarrow> 'g state \<Rightarrow> bool" where
  "has_boot_succeeded lib s = gptprio_has_boot_succeeded lib (gpt_attributes lib s (private_partition_num s))"

text \<open>
  \<open>State::write\<close>: \<open>write_table\<close> opens the disk and writes the table into it, and returns the new
  contents of the disk; its errors are as for \<open>read_table\<close>.
\<close>

definition write_state ::
  "('g \<Rightarrow> 'k \<Rightarrow> 'k \<times> (('e + 'e) + unit)) \<Rightarrow> 'g state \<Rightarrow> 'k \<Rightarrow> 'k \<times> ('e signpost_error + unit)" where
  "write_state write_table s disk =
     (case write_table (table s) disk of
        (disk', r) \<Rightarrow> (disk', map_err (case_sum (OpenError (os_disk s) ''writing'') (GPTWrite (os_disk s))) r))"

text \<open>\<open>Display for State\<close>, line by line.\<close>

definition display_state :: "('g, 'd, 'e) signpost_lib \<Rightarrow> 'g state \<Rightarrow> string list" where
  "display_state lib s =
     [''OS disk: '' @ os_disk s,
      ''Set A:   '' @ display_partition_set (active_set s) @ '' '' @ display_gptprio lib (gptprio lib s Set_A)] @
     (case inactive_set s of
        Some pset \<Rightarrow> [''Set B:   '' @ display_partition_set pset @ '' '' @ display_gptprio lib (gptprio lib s Set_B)]
      | None \<Rightarrow> []) @
     [''Active:  Set '' @ display_set_select (active s),
      (case next_set lib s of Some n \<Rightarrow> ''Next:    Set '' @ display_set_select n | None \<Rightarrow> ''Next:    None'')]"

subsection \<open>main.rs\<close>

datatype signpost_command =
    Status | MarkSuccessfulBoot | MarkInactiveValid | ClearInactive | UpgradeToInactive
  | CancelUpgrade | RollbackToInactive | HasBootEverSucceeded | RewriteTable

text \<open>The change a command makes to the loaded state, and whether it then writes the table.\<close>

fun command_change ::
  "('g, 'd, 'e) signpost_lib \<Rightarrow> signpost_command \<Rightarrow> 'g state \<Rightarrow> 'g state \<times> ('e signpost_error + bool)" where
  "command_change lib Status s = (s, Inr False)"
| "command_change lib ClearInactive s = op_bind (clear_inactive lib s) (\<lambda>_ s. (s, Inr True)) id"
| "command_change lib MarkSuccessfulBoot s = (mark_successful_boot lib s, Inr True)"
| "command_change lib MarkInactiveValid s = op_bind (mark_inactive_valid lib s) (\<lambda>_ s. (s, Inr True)) id"
| "command_change lib UpgradeToInactive s = op_bind (upgrade_to_inactive lib s) (\<lambda>_ s. (s, Inr True)) id"
| "command_change lib CancelUpgrade s = op_bind (cancel_upgrade lib s) (\<lambda>_ s. (s, Inr True)) id"
| "command_change lib RollbackToInactive s = op_bind (rollback_to_inactive lib s) (\<lambda>_ s. (s, Inr True)) id"
| "command_change lib HasBootEverSucceeded s = (s, Inr False)"
| "command_change lib RewriteTable s = (s, Inr True)"

fun command_output ::
  "('g, 'd, 'e) signpost_lib \<Rightarrow> signpost_command \<Rightarrow> 'g state \<Rightarrow> string list" where
  "command_output lib Status s = display_state lib s"
| "command_output lib HasBootEverSucceeded s = (if has_boot_succeeded lib s then [''true''] else [])"
| "command_output lib _ s = []"


text \<open>
  \<open>main\<close>: the disk afterwards, the lines printed and the exit code, from the program's arguments.
  \<open>read_table\<close> and \<open>write_table\<close> give the disk's contents to \<open>gptman\<close>.
\<close>

fun parse_command :: "string \<Rightarrow> signpost_command option" where
  "parse_command arg =
     map_of [(''status'', Status), (''mark-successful-boot'', MarkSuccessfulBoot),
             (''mark-inactive-valid'', MarkInactiveValid), (''clear-inactive'', ClearInactive),
             (''upgrade-to-inactive'', UpgradeToInactive), (''cancel-upgrade'', CancelUpgrade),
             (''rollback-to-inactive'', RollbackToInactive),
             (''has-boot-ever-succeeded'', HasBootEverSucceeded), (''rewrite-table'', RewriteTable)] arg"

definition signpost_main ::
  "('g, 'd, 'e) signpost_lib \<Rightarrow> ('k \<Rightarrow> string \<Rightarrow> ('e + 'e) + 'g) \<Rightarrow>
     ('g \<Rightarrow> 'k \<Rightarrow> 'k \<times> (('e + 'e) + unit)) \<Rightarrow> string list \<Rightarrow> 'k \<Rightarrow> 'k \<times> string list \<times> nat" where
  "signpost_main lib read_table write_table args disk =
     (if length args < 2 then (disk, [], 1) else
      case parse_command (args ! 1) of
        None \<Rightarrow> (disk, [], 1)
      | Some cmd \<Rightarrow>
          (case load_state lib (read_table disk) of
             Inl _ \<Rightarrow> (disk, [], 1)
           | Inr s \<Rightarrow>
               (case command_change lib cmd s of
                  (_, Inl _) \<Rightarrow> (disk, [], 1)
                | (s', Inr writes) \<Rightarrow>
                    if writes then
                      (case write_state write_table s' disk of
                         (disk', Inl _) \<Rightarrow> (disk', [], 1)
                       | (disk', Inr _) \<Rightarrow> (disk', [], 0))
                    else (disk, command_output lib cmd s', 0))))"

section \<open>The boot protocol as a specification\<close>

text \<open>
  What the attribute bits mean: per set its priority, remaining tries and whether it has booted,
  and whether any boot has ever succeeded. \<open>spec_command\<close> is \<open>None\<close> when the command is refused.
\<close>

type_synonym slot = "nat \<times> nat \<times> bool"

record boot_spec =
  sp_active :: set_select
  sp_inactive :: "set_select option"
  sp_slot :: "set_select \<Rightarrow> slot"
  sp_ever :: bool

fun slot_boots :: "slot \<Rightarrow> bool" where
  "slot_boots (p, t, ok) \<longleftrightarrow> p > 0 \<and> t > 0 \<or> ok"

fun slot_priority :: "slot \<Rightarrow> nat" where
  "slot_priority (p, t, ok) = p"

fun with_priority :: "nat \<Rightarrow> slot \<Rightarrow> slot" where
  "with_priority p (_, t, ok) = (p, t, ok)"

fun with_tries :: "nat \<Rightarrow> slot \<Rightarrow> slot" where
  "with_tries t (p, _, ok) = (p, t, ok)"

fun with_successful :: "slot \<Rightarrow> slot" where
  "with_successful (p, t, _) = (p, t, True)"

definition upd_slot :: "set_select \<Rightarrow> (slot \<Rightarrow> slot) \<Rightarrow> boot_spec \<Rightarrow> boot_spec" where
  "upd_slot sel f sp = sp\<lparr>sp_slot := (sp_slot sp)(sel := f (sp_slot sp sel))\<rparr>"

definition prefer_slot :: "set_select \<Rightarrow> nat \<Rightarrow> nat \<Rightarrow> boot_spec \<Rightarrow> boot_spec" where
  "prefer_slot i p q sp = upd_slot (sp_active sp) (with_priority q) (upd_slot i (with_priority p) sp)"

fun spec_command :: "signpost_command \<Rightarrow> boot_spec \<Rightarrow> boot_spec option" where
  "spec_command ClearInactive sp = map_option (\<lambda>i. upd_slot i (\<lambda>_. (0, 0, False)) sp) (sp_inactive sp)"
| "spec_command MarkInactiveValid sp = map_option (\<lambda>i. upd_slot i (with_tries 1) sp) (sp_inactive sp)"
| "spec_command MarkSuccessfulBoot sp = Some ((upd_slot (sp_active sp) with_successful sp)\<lparr>sp_ever := True\<rparr>)"
| "spec_command UpgradeToInactive sp =
     (case sp_inactive sp of
        None \<Rightarrow> None
      | Some i \<Rightarrow> (case sp_slot sp i of (p, t, ok) \<Rightarrow>
          if p = 0 \<and> \<not> ok \<and> t > 0 then Some (prefer_slot i 2 1 sp) else None))"
| "spec_command CancelUpgrade sp = map_option (\<lambda>i. prefer_slot i 0 2 sp) (sp_inactive sp)"
| "spec_command RollbackToInactive sp =
     (case sp_inactive sp of
        None \<Rightarrow> None
      | Some i \<Rightarrow> if slot_boots (sp_slot sp i) then Some (prefer_slot i 2 1 sp) else None)"
| "spec_command Status sp = Some sp"
| "spec_command HasBootEverSucceeded sp = Some sp"
| "spec_command RewriteTable sp = Some sp"

definition spec_next :: "boot_spec \<Rightarrow> set_select option" where
  "spec_next sp =
     (let a = sp_slot sp Set_A; b = sp_slot sp Set_B in
      if slot_boots a \<and> (slot_boots b \<longrightarrow> slot_priority a \<ge> slot_priority b) then Some Set_A
      else if slot_boots b then Some Set_B else None)"

definition has_set :: "'g state \<Rightarrow> set_select \<Rightarrow> bool" where
  "has_set s sel \<longleftrightarrow> select_idx sel < length (boot_partition_nums s)"

definition slot_of :: "('g, 'd, 'e) signpost_lib \<Rightarrow> u64 \<Rightarrow> slot" where
  "slot_of lib w = (unat (priority lib w), unat (tries_left lib w), successful lib w)"

definition boot_abs :: "('g, 'd, 'e) signpost_lib \<Rightarrow> 'g state \<Rightarrow> boot_spec" where
  "boot_abs lib s =
     \<lparr>sp_active = active s, sp_inactive = inactive s,
      sp_slot = (\<lambda>sel. if has_set s sel then slot_of lib (gptprio lib s sel) else (0, 0, False)),
      sp_ever = has_boot_succeeded lib s\<rparr>"

text \<open>The numbers a loaded state holds are entries of its table, all different.\<close>

definition nums_of :: "('g, 'd, 'e) signpost_lib \<Rightarrow> 'g \<Rightarrow> nat set" where
  "nums_of lib g = fst ` set (gpt_iter lib g)"

definition wf_state :: "('g, 'd, 'e) signpost_lib \<Rightarrow> 'g state \<Rightarrow> bool" where
  "wf_state lib s \<longleftrightarrow>
     distinct (private_partition_num s # boot_partition_nums s) \<and>
     set (private_partition_num s # boot_partition_nums s) \<subseteq> nums_of lib (table s) \<and>
     length (boot_partition_nums s) = (case sets s of Single _ \<Rightarrow> 1 | Dual _ _ _ \<Rightarrow> 2)"

text \<open>An operation's outcome against its specification: a refused operation leaves the state alone.\<close>

definition refines ::
  "('g, 'd, 'e) signpost_lib \<Rightarrow> 'g state \<Rightarrow> 'g state \<times> ('e signpost_error + 'a) \<Rightarrow> boot_spec option \<Rightarrow> bool" where
  "refines lib s r sp \<longleftrightarrow>
     (case r of
        (s', Inr _) \<Rightarrow> sp = Some (boot_abs lib s') \<and> wf_state lib s' \<and> gpt_iter lib (table s') = gpt_iter lib (table s)
      | (s', Inl _) \<Rightarrow> sp = None \<and> s' = s)"

text \<open>The disk takes every table and gives it back.\<close>

definition faithful_disk ::
  "('k \<Rightarrow> string \<Rightarrow> ('e + 'e) + 'g) \<Rightarrow> ('g \<Rightarrow> 'k \<Rightarrow> 'k \<times> (('e + 'e) + unit)) \<Rightarrow> bool" where
  "faithful_disk rd wr \<longleftrightarrow> (\<forall>g k. snd (wr g k) = Inr () \<and> rd (fst (wr g k)) = (\<lambda>_. Inr g))"

text \<open>A sequence of runs, each given by its arguments.\<close>

definition run_signpost ::
  "('g, 'd, 'e) signpost_lib \<Rightarrow> ('k \<Rightarrow> string \<Rightarrow> ('e + 'e) + 'g) \<Rightarrow>
     ('g \<Rightarrow> 'k \<Rightarrow> 'k \<times> (('e + 'e) + unit)) \<Rightarrow> string list list \<Rightarrow> 'k \<Rightarrow> 'k" where
  "run_signpost lib rd wr argss k = fold (\<lambda>args k. fst (signpost_main lib rd wr args k)) argss k"

definition upgrade_args :: "string \<Rightarrow> string list list" where
  "upgrade_args arg0 =
     [[arg0, ''clear-inactive''], [arg0, ''mark-inactive-valid''], [arg0, ''upgrade-to-inactive'']]"

section \<open>Properties of the specification\<close>

lemma select_not_not [simp]: "select_not (select_not x) = x" "select_not x \<noteq> x" "x \<noteq> select_not x"
  by (cases x; simp)+

lemma uuid_to_guid_involutive: "length u = 16 \<Longrightarrow> uuid_to_guid (uuid_to_guid u) = u"
  by (simp add: uuid_to_guid_def list_eq_iff_nth_eq nth_Cons' numeral_eq_Suc less_Suc_eq_0_disj all_conj_distrib)
     (auto simp: less_Suc_eq_0_disj)

definition spec_wf :: "boot_spec \<Rightarrow> bool" where
  "spec_wf sp \<longleftrightarrow>
     (case sp_inactive sp of
        Some i \<Rightarrow> i = select_not (sp_active sp)
      | None \<Rightarrow> sp_active sp = Set_A \<and> sp_slot sp Set_B = (0, 0, False))"

lemma slot_boots_with [simp]:
  "slot_boots (with_successful x)"
  "slot_boots (with_priority p x) \<longleftrightarrow> p > 0 \<and> fst (snd x) > 0 \<or> snd (snd x)"
  "slot_priority (with_priority p x) = p"
  by (cases x; simp)+

lemma spec_command_wf: "spec_command c sp = Some sp' \<Longrightarrow> spec_wf sp \<Longrightarrow> spec_wf sp'"
  by (cases c) (auto simp: spec_wf_def upd_slot_def prefer_slot_def split: option.splits if_splits prod.splits)

text \<open>A set with a successful boot stays bootable: only clearing the inactive set takes that away.\<close>

lemma spec_active_stays_bootable:
  assumes "spec_command c sp = Some sp'" "spec_wf sp" "slot_boots (sp_slot sp (sp_active sp))"
  shows "slot_boots (sp_slot sp' (sp_active sp'))"
  using assms
  by (cases c; cases "sp_slot sp (sp_active sp)")
     (auto simp: spec_wf_def upd_slot_def prefer_slot_def split: option.splits if_splits prod.splits)

lemma spec_active_same: "spec_command c sp = Some sp' \<Longrightarrow> sp_active sp' = sp_active sp \<and> sp_inactive sp' = sp_inactive sp"
  by (cases c) (auto simp: upd_slot_def prefer_slot_def split: option.splits if_splits prod.splits)

lemma spec_next_some: "slot_boots (sp_slot sp sel) \<Longrightarrow> spec_next sp \<noteq> None"
  by (cases sel) (auto simp: spec_next_def Let_def)

lemma spec_next_preferred:
  assumes "slot_boots (sp_slot sp sel)"
    and "slot_priority (sp_slot sp (select_not sel)) < slot_priority (sp_slot sp sel)
           \<or> \<not> slot_boots (sp_slot sp (select_not sel))"
  shows "spec_next sp = Some sel"
  using assms by (cases sel) (auto simp: spec_next_def Let_def)

lemma spec_upgraded_next:
  assumes "sp_active sp = select_not i"
  shows "spec_next (prefer_slot i 2 1 (upd_slot i (\<lambda>_. (0, 1, False)) sp)) = Some i"
  using assms by (intro spec_next_preferred) (simp_all add: prefer_slot_def upd_slot_def)

lemma spec_upgraded_fallback:
  assumes "sp_active sp = select_not i" "slot_boots (sp_slot sp (select_not i))"
  shows "spec_next (upd_slot i (with_tries 0) (prefer_slot i 2 1 (upd_slot i (\<lambda>_. (0, 1, False)) sp))) = Some (select_not i)"
proof -
  obtain p t b where "sp_slot sp (select_not i) = (p, t, b)" by (cases "sp_slot sp (select_not i)")
  then show ?thesis
    using assms by (intro spec_next_preferred) (auto simp: prefer_slot_def upd_slot_def)
qed

lemma spec_rollback_next:
  assumes "sp_active sp = select_not i" "slot_boots (sp_slot sp i)"
  shows "spec_next (prefer_slot i 2 1 sp) = Some i"
proof -
  obtain p t b where "sp_slot sp i = (p, t, b)" by (cases "sp_slot sp i")
  then show ?thesis
    using assms by (intro spec_next_preferred) (auto simp: prefer_slot_def upd_slot_def)
qed

lemma set_same_rest: "set_gptprio lib sel f s\<lparr>table := g\<rparr> = s\<lparr>table := g\<rparr>"
  "set_gpt_attributes lib n f s\<lparr>table := g\<rparr> = s\<lparr>table := g\<rparr>"
  by (simp_all add: set_gptprio_def set_gpt_attributes_def)

lemma command_change_table:
  assumes "command_change lib c s = (s', Inr b)"
  shows "s' = s\<lparr>table := table s'\<rparr>"
proof -
  have "s\<lparr>table := g\<rparr> = s'\<lparr>table := g\<rparr>" for g
    using assms
    by (cases c)
       (auto simp: mark_successful_boot_def mark_inactive_valid_def clear_inactive_def upgrade_to_inactive_def
          cancel_upgrade_def rollback_to_inactive_def Let_def result_simps set_same_rest split: if_splits)
  then show ?thesis by simp
qed

lemma command_change_unwritten:
  assumes "command_change lib c s = (s', Inr b)" "\<not> b"
  shows "s' = s"
  using assms by (cases c) (auto simp: result_simps)

lemma parse_command_names:
  "parse_command ''clear-inactive'' = Some ClearInactive"
  "parse_command ''mark-inactive-valid'' = Some MarkInactiveValid"
  "parse_command ''upgrade-to-inactive'' = Some UpgradeToInactive"
  "parse_command ''rollback-to-inactive'' = Some RollbackToInactive"
  by simp_all

declare parse_command.simps [simp del]

section \<open>The crates' documented behaviour\<close>

text \<open>
  \<open>bit_field\<close> reads and writes a range of bits (writing needs a value that fits), \<open>gptman\<close> numbers
  the entries of a table and changes one entry's attributes at a time.
\<close>

locale signpost_library =
  fixes lib :: "('g, 'd, 'e) signpost_lib"
  assumes bit_get_bits: "lo < hi \<Longrightarrow> hi \<le> 64 \<Longrightarrow> bit (get_bits lib w lo hi) n \<longleftrightarrow> n < hi - lo \<and> bit w (lo + n)"
    and bit_set_bits: "lo < hi \<Longrightarrow> hi \<le> 64 \<Longrightarrow> unat v < 2 ^ (hi - lo) \<Longrightarrow>
      bit (set_bits lib w lo hi v) n \<longleftrightarrow> (if lo \<le> n \<and> n < hi then bit v (n - lo) else bit w n)"
    and get_bit_bit: "n < 64 \<Longrightarrow> get_bit lib w n \<longleftrightarrow> bit w n"
    and bit_put_bit: "n < 64 \<Longrightarrow> bit (put_bit lib w n b) m \<longleftrightarrow> (if m = n then b else bit w m)"
    and distinct_iter: "distinct (map fst (gpt_iter lib g))"
    and attribute_bits_put: "n \<in> nums_of lib g \<Longrightarrow> m \<in> nums_of lib g \<Longrightarrow>
      attribute_bits lib (put_attribute_bits lib n w g) m = (if m = n then w else attribute_bits lib g m)"
    and iter_put: "n \<in> nums_of lib g \<Longrightarrow> gpt_iter lib (put_attribute_bits lib n w g) = gpt_iter lib g"
begin

lemma nums_put [simp]: "n \<in> nums_of lib g \<Longrightarrow> nums_of lib (put_attribute_bits lib n w g) = nums_of lib g"
  by (simp add: nums_of_def iter_put)

lemma get_bits_bound:
  assumes "lo < hi" "hi \<le> 64"
  shows "unat (get_bits lib w lo hi) < 2 ^ (hi - lo)"
proof -
  have "take_bit (hi - lo) (get_bits lib w lo hi) = get_bits lib w lo hi"
    using assms by (intro bit_eqI) (auto simp: bit_take_bit_iff bit_get_bits)
  then have "unat (get_bits lib w lo hi) = take_bit (hi - lo) (unat (get_bits lib w lo hi))"
    by (metis unsigned_take_bit_eq)
  then show ?thesis by (metis take_bit_nat_less_exp)
qed

lemma bit_fits:
  assumes "unat (v :: u64) < 2 ^ k"
  shows "bit v n \<Longrightarrow> n < k"
proof -
  have "take_bit k v = v"
    by (metis assms take_bit_nat_eq_self unsigned_take_bit_eq word_unat_eq_iff)
  then show "bit v n \<Longrightarrow> n < k" by (metis bit_take_bit_iff)
qed

lemma get_set_bits:
  assumes "lo < hi" "hi \<le> 64" "unat v < 2 ^ (hi - lo)"
  shows "get_bits lib (set_bits lib w lo hi v) lo hi = v"
proof (rule bit_eqI)
  fix n
  have "bit v n \<Longrightarrow> n < hi - lo" using bit_fits [OF assms(3)] .
  then show "bit (get_bits lib (set_bits lib w lo hi v) lo hi) n = bit v n"
    using assms by (auto simp: bit_get_bits bit_set_bits)
qed

lemma get_set_bits_disjoint:
  assumes "lo < hi" "hi \<le> 64" "lo' < hi'" "hi' \<le> 64" "unat v < 2 ^ (hi - lo)" "hi \<le> lo' \<or> hi' \<le> lo"
  shows "get_bits lib (set_bits lib w lo hi v) lo' hi' = get_bits lib w lo' hi'"
  using assms by (intro bit_eqI) (auto simp: bit_get_bits bit_set_bits)

lemma get_put_bit_outside:
  assumes "n < 64" "lo < hi" "hi \<le> 64" "n < lo \<or> hi \<le> n"
  shows "get_bits lib (put_bit lib w n b) lo hi = get_bits lib w lo hi"
  using assms by (intro bit_eqI) (auto simp: bit_get_bits bit_put_bit)

lemma priority_simps [simp]:
  "unat p < 16 \<Longrightarrow> priority lib (set_priority lib p w) = p"
  "unat t < 16 \<Longrightarrow> priority lib (set_tries_left lib t w) = priority lib w"
  "priority lib (set_successful lib b w) = priority lib w"
  "priority lib (boot_has_succeeded lib w) = priority lib w"
  by (simp_all add: priority_def set_priority_def set_tries_left_def set_successful_def boot_has_succeeded_def
      get_set_bits get_set_bits_disjoint get_put_bit_outside)

lemma tries_left_simps [simp]:
  "unat p < 16 \<Longrightarrow> tries_left lib (set_priority lib p w) = tries_left lib w"
  "unat t < 16 \<Longrightarrow> tries_left lib (set_tries_left lib t w) = t"
  "tries_left lib (set_successful lib b w) = tries_left lib w"
  "tries_left lib (boot_has_succeeded lib w) = tries_left lib w"
  by (simp_all add: tries_left_def set_priority_def set_tries_left_def set_successful_def boot_has_succeeded_def
      get_set_bits get_set_bits_disjoint get_put_bit_outside)

lemma successful_simps [simp]:
  "unat p < 16 \<Longrightarrow> successful lib (set_priority lib p w) = successful lib w"
  "unat t < 16 \<Longrightarrow> successful lib (set_tries_left lib t w) = successful lib w"
  "successful lib (set_successful lib b w) = b"
  "successful lib (boot_has_succeeded lib w) = successful lib w"
  by (simp_all add: successful_def set_priority_def set_tries_left_def set_successful_def boot_has_succeeded_def
      get_bit_bit bit_set_bits bit_put_bit)

lemma has_boot_succeeded_simps [simp]:
  "unat p < 16 \<Longrightarrow> gptprio_has_boot_succeeded lib (set_priority lib p w) = gptprio_has_boot_succeeded lib w"
  "unat t < 16 \<Longrightarrow> gptprio_has_boot_succeeded lib (set_tries_left lib t w) = gptprio_has_boot_succeeded lib w"
  "gptprio_has_boot_succeeded lib (set_successful lib b w) = gptprio_has_boot_succeeded lib w"
  "gptprio_has_boot_succeeded lib (boot_has_succeeded lib w)"
  by (simp_all add: gptprio_has_boot_succeeded_def set_priority_def set_tries_left_def set_successful_def
      boot_has_succeeded_def get_bit_bit bit_set_bits bit_put_bit)

lemma other_bits_kept:
  "unat p < 16 \<Longrightarrow> n \<notin> {48..<52} \<Longrightarrow> bit (set_priority lib p w) n = bit w n"
  "unat t < 16 \<Longrightarrow> n \<notin> {52..<56} \<Longrightarrow> bit (set_tries_left lib t w) n = bit w n"
  "n \<noteq> 56 \<Longrightarrow> bit (set_successful lib b w) n = bit w n"
  "n \<noteq> 57 \<Longrightarrow> bit (boot_has_succeeded lib w) n = bit w n"
  by (auto simp: set_priority_def set_tries_left_def set_successful_def boot_has_succeeded_def
      bit_set_bits bit_put_bit)

text \<open>States: what one attribute update changes.\<close>

lemma set_fields [simp]:
  "os_disk (set_gptprio lib sel f s) = os_disk s"
  "sets (set_gptprio lib sel f s) = sets s"
  "boot_partition_nums (set_gptprio lib sel f s) = boot_partition_nums s"
  "private_partition_num (set_gptprio lib sel f s) = private_partition_num s"
  "sets (set_gpt_attributes lib n f s) = sets s"
  "boot_partition_nums (set_gpt_attributes lib n f s) = boot_partition_nums s"
  "private_partition_num (set_gpt_attributes lib n f s) = private_partition_num s"
  by (simp_all add: set_gptprio_def set_gpt_attributes_def)

lemma set_active [simp]:
  "active (set_gptprio lib sel f s) = active s"
  "inactive (set_gptprio lib sel f s) = inactive s"
  "active (set_gpt_attributes lib n f s) = active s"
  "inactive (set_gpt_attributes lib n f s) = inactive s"
  "has_set (set_gptprio lib sel f s) = has_set s"
  "has_set (set_gpt_attributes lib n f s) = has_set s"
  by (simp_all add: active_def inactive_def has_set_def fun_eq_iff)

lemma has_set_num:
  assumes "wf_state lib s" "has_set s sel"
  shows "boot_partition_nums s ! select_idx sel \<in> nums_of lib (table s)"
    and "boot_partition_nums s ! select_idx sel \<noteq> private_partition_num s"
proof -
  have "boot_partition_nums s ! select_idx sel \<in> set (boot_partition_nums s)"
    using assms by (simp add: has_set_def)
  then show "boot_partition_nums s ! select_idx sel \<in> nums_of lib (table s)"
    and "boot_partition_nums s ! select_idx sel \<noteq> private_partition_num s"
    using assms(1) by (auto simp: wf_state_def)
qed

lemma select_idx_inj [simp]: "select_idx x = select_idx y \<longleftrightarrow> x = y"
  by (cases x; cases y) simp_all

lemma gptprio_set:
  assumes "wf_state lib s" "has_set s sel" "has_set s sel'"
  shows "gptprio lib (set_gptprio lib sel f s) sel' = (if sel' = sel then f else gptprio lib s sel')"
proof -
  have "boot_partition_nums s ! select_idx sel' = boot_partition_nums s ! select_idx sel \<longleftrightarrow> sel' = sel"
    using assms by (subst nth_eq_iff_index_eq) (auto simp: wf_state_def has_set_def)
  then show ?thesis
    using has_set_num(1) [OF assms(1,2)] has_set_num(1) [OF assms(1,3)]
    by (simp add: gptprio_def gpt_attributes_def set_gptprio_def set_gpt_attributes_def attribute_bits_put)
qed

lemma wf_set_gptprio: "wf_state lib s \<Longrightarrow> has_set s sel \<Longrightarrow> wf_state lib (set_gptprio lib sel f s)"
  using has_set_num(1) [of s sel] by (simp add: wf_state_def set_gptprio_def set_gpt_attributes_def)

lemma wf_private: "wf_state lib s \<Longrightarrow> private_partition_num s \<in> nums_of lib (table s)"
  by (simp add: wf_state_def)

lemma private_set_gptprio:
  "wf_state lib s \<Longrightarrow> has_set s sel \<Longrightarrow> has_boot_succeeded lib (set_gptprio lib sel f s) = has_boot_succeeded lib s"
  using has_set_num [of s sel] wf_private [of s]
  by (simp add: has_boot_succeeded_def gpt_attributes_def set_gptprio_def set_gpt_attributes_def attribute_bits_put)

lemma set_private:
  assumes "wf_state lib s"
  shows "wf_state lib (set_gpt_attributes lib (private_partition_num s) f s)"
    and "has_boot_succeeded lib (set_gpt_attributes lib (private_partition_num s) f s) = gptprio_has_boot_succeeded lib f"
    and "has_set s sel \<Longrightarrow> gptprio lib (set_gpt_attributes lib (private_partition_num s) f s) sel = gptprio lib s sel"
  using assms wf_private [OF assms] has_set_num [of s sel]
  by (auto simp: wf_state_def has_boot_succeeded_def gptprio_def gpt_attributes_def set_gpt_attributes_def attribute_bits_put)

lemma wf_has_set:
  "wf_state lib s \<Longrightarrow> has_set s (active s)"
  "wf_state lib s \<Longrightarrow> inactive s = Some i \<Longrightarrow> has_set s i"
  "wf_state lib s \<Longrightarrow> inactive s = Some i \<Longrightarrow> i = select_not (active s)"
  by (auto simp: wf_state_def has_set_def active_def inactive_def less_2_cases_iff
      split: partition_sets.splits intro: select_idx.elims)

lemma abs_set_gptprio:
  assumes "wf_state lib s" "has_set s sel" "slot_of lib f = g (slot_of lib (gptprio lib s sel))"
  shows "boot_abs lib (set_gptprio lib sel f s) = upd_slot sel g (boot_abs lib s)"
  using assms by (auto simp: boot_abs_def upd_slot_def private_set_gptprio gptprio_set fun_eq_iff)

lemma slot_of_set [simp]:
  "unat p < 16 \<Longrightarrow> slot_of lib (set_priority lib p w) = with_priority (unat p) (slot_of lib w)"
  "unat t < 16 \<Longrightarrow> slot_of lib (set_tries_left lib t w) = with_tries (unat t) (slot_of lib w)"
  "slot_of lib (set_successful lib True w) = with_successful (slot_of lib w)"
  "\<not> successful lib w \<Longrightarrow> slot_of lib (set_successful lib False w) = slot_of lib w"
  by (simp_all add: slot_of_def)

lemma slot_boots_of [simp]: "slot_boots (slot_of lib w) = will_boot lib w"
  by (simp add: slot_of_def will_boot_def word_gt_0 unat_gt_0)

text \<open>Each operation implements its specification.\<close>

lemma abs_sel [simp]: "sp_active (boot_abs lib s) = active s" "sp_inactive (boot_abs lib s) = inactive s"
  by (simp_all add: boot_abs_def)

lemma abs_slot [simp]: "has_set s sel \<Longrightarrow> sp_slot (boot_abs lib s) sel = slot_of lib (gptprio lib s sel)"
  by (simp add: boot_abs_def)

lemma iter_set_gptprio:
  "wf_state lib s \<Longrightarrow> has_set s sel \<Longrightarrow> gpt_iter lib (table (set_gptprio lib sel f s)) = gpt_iter lib (table s)"
  using has_set_num(1) [of s sel] by (simp add: set_gptprio_def set_gpt_attributes_def iter_put)

lemma prefer_inactive:
  assumes "wf_state lib s" "inactive s = Some i" "unat (p :: u64) < 16" "unat q < 16"
    and "slot_of lib f = with_priority (unat p) (slot_of lib (gptprio lib s i))"
  defines "s1 \<equiv> set_gptprio lib i f s"
  defines "s2 \<equiv> set_gptprio lib (active s1) (set_priority lib q (gptprio lib s1 (active s1))) s1"
  shows "boot_abs lib s2 = prefer_slot i (unat p) (unat q) (boot_abs lib s) \<and> wf_state lib s2
           \<and> gpt_iter lib (table s2) = gpt_iter lib (table s)"
proof -
  note h = wf_has_set(1) [OF assms(1)] wf_has_set(2) [OF assms(1,2)]
  have w1: "wf_state lib s1" unfolding s1_def by (rule wf_set_gptprio [OF assms(1) h(2)])
  have a: "has_set s1 (active s1)" by (rule wf_has_set(1) [OF w1])
  have "boot_abs lib s2 = upd_slot (active s1) (with_priority (unat q)) (boot_abs lib s1)"
    unfolding s2_def by (rule abs_set_gptprio [OF w1 a]) (simp add: assms)
  moreover have "boot_abs lib s1 = upd_slot i (with_priority (unat p)) (boot_abs lib s)"
    unfolding s1_def by (rule abs_set_gptprio [OF assms(1) h(2)]) (simp add: assms)
  ultimately show ?thesis
    using w1 a iter_set_gptprio [OF assms(1) h(2)] iter_set_gptprio [OF w1 a] wf_set_gptprio [OF w1 a]
    by (simp add: s1_def s2_def prefer_slot_def)
qed

lemma clear_inactive_refines:
  assumes "wf_state lib s"
  shows "refines lib s (clear_inactive lib s) (spec_command ClearInactive (boot_abs lib s))"
proof (cases "inactive s")
  case None
  then show ?thesis by (simp add: refines_def clear_inactive_def op_bind_def require_inactive_def ok_or_def)
next
  case (Some i)
  note h = wf_has_set(2) [OF assms Some]
  let ?f = "set_successful lib False (set_tries_left lib 0 (set_priority lib 0 (gptprio lib s i)))"
  have "boot_abs lib (set_gptprio lib i ?f s) = upd_slot i (\<lambda>_. (0, 0, False)) (boot_abs lib s)"
    by (rule abs_set_gptprio [OF assms h]) (simp add: slot_of_def)
  then show ?thesis
    using Some wf_set_gptprio [OF assms h] iter_set_gptprio [OF assms h]
    by (simp add: refines_def clear_inactive_def op_bind_def require_inactive_def ok_or_def)
qed

lemma mark_inactive_valid_refines:
  assumes "wf_state lib s"
  shows "refines lib s (mark_inactive_valid lib s) (spec_command MarkInactiveValid (boot_abs lib s))"
proof (cases "inactive s")
  case None
  then show ?thesis by (simp add: refines_def mark_inactive_valid_def op_bind_def require_inactive_def ok_or_def)
next
  case (Some i)
  note h = wf_has_set(2) [OF assms Some]
  have "boot_abs lib (set_gptprio lib i (set_tries_left lib 1 (gptprio lib s i)) s)
      = upd_slot i (with_tries 1) (boot_abs lib s)"
    by (rule abs_set_gptprio [OF assms h]) simp
  then show ?thesis
    using Some wf_set_gptprio [OF assms h] iter_set_gptprio [OF assms h]
    by (simp add: refines_def mark_inactive_valid_def op_bind_def require_inactive_def ok_or_def)
qed

lemma upgrade_to_inactive_refines:
  assumes "wf_state lib s"
  shows "refines lib s (upgrade_to_inactive lib s) (spec_command UpgradeToInactive (boot_abs lib s))"
proof (cases "inactive s")
  case None
  then show ?thesis by (simp add: refines_def upgrade_to_inactive_def op_bind_def require_inactive_def ok_or_def)
next
  case (Some i)
  note h = wf_has_set(2) [OF assms Some]
  let ?w = "gptprio lib s i"
  have guard: "spec_command UpgradeToInactive (boot_abs lib s) =
      (if priority lib ?w = 0 \<and> \<not> successful lib ?w \<and> tries_left lib ?w > 0
       then Some (prefer_slot i 2 1 (boot_abs lib s)) else None)"
    using Some h by (auto simp: slot_of_def word_gt_0 unat_gt_0 unat_eq_0)
  show ?thesis
  proof (cases "priority lib ?w = 0 \<and> \<not> successful lib ?w \<and> tries_left lib ?w > 0")
    case True
    then have "slot_of lib (set_successful lib False (set_priority lib 2 ?w)) = with_priority (unat (2 :: u64)) (slot_of lib ?w)"
      by simp
    note prefer_inactive [OF assms Some _ _ this, of 1]
    with True show ?thesis
      using Some unfolding guard
      by (simp add: refines_def upgrade_to_inactive_def op_bind_def require_inactive_def ok_or_def ensure_def Let_def)
  next
    case False
    then show ?thesis
      using Some unfolding guard
      by (auto simp: refines_def upgrade_to_inactive_def op_bind_def require_inactive_def ok_or_def ensure_def Let_def)
  qed
qed

lemma cancel_upgrade_refines:
  assumes "wf_state lib s"
  shows "refines lib s (cancel_upgrade lib s) (spec_command CancelUpgrade (boot_abs lib s))"
proof (cases "inactive s")
  case None
  then show ?thesis by (simp add: refines_def cancel_upgrade_def op_bind_def require_inactive_def ok_or_def)
next
  case (Some i)
  then show ?thesis
    using prefer_inactive [OF assms Some, of 0 2 "set_priority lib 0 (gptprio lib s i)"]
    by (auto simp: refines_def cancel_upgrade_def op_bind_def require_inactive_def ok_or_def Let_def)
qed

lemma rollback_to_inactive_refines:
  assumes "wf_state lib s"
  shows "refines lib s (rollback_to_inactive lib s) (spec_command RollbackToInactive (boot_abs lib s))"
proof (cases "inactive s")
  case None
  then show ?thesis by (simp add: refines_def rollback_to_inactive_def op_bind_def require_inactive_def ok_or_def)
next
  case (Some i)
  then show ?thesis
    using wf_has_set(2) [OF assms Some] prefer_inactive [OF assms Some, of 2 1 "set_priority lib 2 (gptprio lib s i)"]
    by (auto simp: refines_def rollback_to_inactive_def op_bind_def require_inactive_def ok_or_def Let_def)
qed

lemma mark_successful_boot_refines:
  assumes "wf_state lib s"
  shows "spec_command MarkSuccessfulBoot (boot_abs lib s) = Some (boot_abs lib (mark_successful_boot lib s))"
    and "wf_state lib (mark_successful_boot lib s)"
    and "gpt_iter lib (table (mark_successful_boot lib s)) = gpt_iter lib (table s)"
proof -
  note h = wf_has_set(1) [OF assms]
  let ?s1 = "set_gptprio lib (active s) (set_successful lib True (gptprio lib s (active s))) s"
  have w1: "wf_state lib ?s1" by (rule wf_set_gptprio [OF assms h])
  have "boot_abs lib ?s1 = upd_slot (active s) with_successful (boot_abs lib s)"
    by (rule abs_set_gptprio [OF assms h]) simp
  moreover have "boot_abs lib (mark_successful_boot lib s) = (boot_abs lib ?s1)\<lparr>sp_ever := True\<rparr>"
    using set_private(2,3) [OF w1] by (auto simp: mark_successful_boot_def Let_def boot_abs_def fun_eq_iff)
  ultimately show "spec_command MarkSuccessfulBoot (boot_abs lib s) = Some (boot_abs lib (mark_successful_boot lib s))"
    by simp
  show "wf_state lib (mark_successful_boot lib s)"
    using set_private(1) [OF w1] by (simp add: mark_successful_boot_def Let_def)
  show "gpt_iter lib (table (mark_successful_boot lib s)) = gpt_iter lib (table s)"
    using wf_private [OF w1] iter_set_gptprio [OF assms h]
    by (simp add: mark_successful_boot_def Let_def set_gpt_attributes_def iter_put)
qed

lemma refines_bind:
  "refines lib s r sp \<Longrightarrow> refines lib s (op_bind r (\<lambda>_ s. (s, Inr True)) id) sp"
  by (auto simp: refines_def op_bind_def split: prod.splits sum.splits)

lemma command_refines:
  assumes "wf_state lib s"
  shows "refines lib s (command_change lib c s) (spec_command c (boot_abs lib s))"
proof (cases c)
  case MarkSuccessfulBoot
  then show ?thesis using mark_successful_boot_refines [OF assms] by (simp add: refines_def)
next
  case MarkInactiveValid
  then show ?thesis using refines_bind [OF mark_inactive_valid_refines [OF assms]] by simp
next
  case ClearInactive
  then show ?thesis using refines_bind [OF clear_inactive_refines [OF assms]] by simp
next
  case UpgradeToInactive
  then show ?thesis using refines_bind [OF upgrade_to_inactive_refines [OF assms]] by simp
next
  case CancelUpgrade
  then show ?thesis using refines_bind [OF cancel_upgrade_refines [OF assms]] by simp
next
  case RollbackToInactive
  then show ?thesis using refines_bind [OF rollback_to_inactive_refines [OF assms]] by simp
qed (simp_all add: refines_def assms)

lemma spec_wf_abs: "wf_state lib s \<Longrightarrow> spec_wf (boot_abs lib s)"
  using wf_has_set(3) [of s]
  by (auto simp: spec_wf_def boot_abs_def has_set_def wf_state_def active_def inactive_def
      split: option.splits partition_sets.splits)

lemma next_refines:
  assumes "wf_state lib s"
  shows "next_set lib s = spec_next (boot_abs lib s)"
proof (cases "sets s")
  case (Single x)
  then show ?thesis
    using assms by (simp add: next_set_def spec_next_def boot_abs_def has_set_def wf_state_def)
next
  case (Dual x y a)
  moreover have "slot_priority (slot_of lib w) = unat (priority lib w)" for w
    by (simp add: slot_of_def)
  ultimately show ?thesis
    using assms by (simp add: next_set_def spec_next_def boot_abs_def has_set_def wf_state_def Let_def word_le_nat_alt
        split: bool.splits)
qed

text \<open>Loading.\<close>

lemma nth_guid_mem:
  assumes "nth_guid lib g x n = Some k"
  shows "(k, x) \<in> set (gpt_iter lib g)"
proof -
  let ?l = "filter (\<lambda>(_, y). y = x) (gpt_iter lib g)"
  from assms have "n < length ?l" "k = fst (?l ! n)"
    by (auto simp: nth_guid_def Let_def split: if_splits)
  moreover from this(1) have "?l ! n \<in> set ?l" by (rule nth_mem)
  ultimately show ?thesis by (cases "?l ! n") auto
qed

lemma nth_guid_inj:
  assumes "nth_guid lib g x n = Some k" "nth_guid lib g y m = Some k"
  shows "x = y \<and> n = m"
proof -
  have "(k, x) \<in> set (gpt_iter lib g)" "(k, y) \<in> set (gpt_iter lib g)"
    using assms by (auto intro: nth_guid_mem)
  then have e: "x = y" using distinct_iter [of g] by (metis eq_key_imp_eq_value)
  let ?l = "map fst (filter (\<lambda>(_, y). y = x) (gpt_iter lib g))"
  have "distinct ?l" by (simp add: distinct_iter distinct_map_filter)
  moreover have "n < length ?l" "m < length ?l" "?l ! n = k" "?l ! m = k"
    using assms e by (auto simp: nth_guid_def Let_def split: if_splits)
  ultimately show ?thesis using e by (metis nth_eq_iff_index_eq)
qed

lemma guids_distinct:
  "BOTTLEROCKET_BOOT \<noteq> BOTTLEROCKET_PRIVATE"
  by (simp add: BOTTLEROCKET_BOOT_def BOTTLEROCKET_PRIVATE_def uuid_to_guid_def)

lemma required_guid_Ok: "required_guid lib g x n = Inr k \<longleftrightarrow> nth_guid lib g x n = Some k"
  by (simp add: required_guid_def ok_or_def split: option.splits)

lemma nth_guid_cong: "gpt_iter lib g = gpt_iter lib g' \<Longrightarrow> nth_guid lib g = nth_guid lib g'"
  by (simp add: nth_guid_def fun_eq_iff)

lemma load_table_cong:
  assumes "load_table lib ad disk g = Inr s" "gpt_iter lib g' = gpt_iter lib g"
  shows "load_table lib ad disk g' = Inr (s\<lparr>table := g'\<rparr>)"
proof -
  note n = nth_guid_cong [OF assms(2)]
  have r: "required_guid lib g' = required_guid lib g" by (simp add: n required_guid_def fun_eq_iff)
  have l: "load_set lib disk g' = load_set lib disk g" by (simp add: r load_set_def fun_eq_iff)
  have "load_sets lib ad disk g' = load_sets lib ad disk g" by (intro ext) (simp only: load_sets_def l)
  then show ?thesis using assms(1) by (auto simp: load_table_def n r Let_def result_simps)
qed

lemma load_table_table: "load_table lib ad disk g = Inr s \<Longrightarrow> table s = g"
  by (auto simp: load_table_def Let_def result_simps)

lemma load_table_sets:
  "load_table lib ad disk g = Inr s \<Longrightarrow> load_sets lib ad disk g (boot_partition_nums s) = Inr (sets s)"
  by (auto simp: load_table_def Let_def result_simps)

lemma load_sets_length:
  "load_sets lib ad disk g nums = Inr ps \<Longrightarrow> length nums \<in> {1, 2} \<Longrightarrow>
     length nums = (case ps of Single _ \<Rightarrow> 1 | Dual _ _ _ \<Rightarrow> 2)"
  by (auto simp: load_sets_def Let_def result_simps split: if_splits)

lemma load_sets_active:
  "load_sets lib ad disk g nums = Inr (Dual x y a) \<Longrightarrow> set_contains (pick_set x y a) (device_path lib ad)"
  by (auto simp: load_sets_def Let_def result_simps pick_set_def split: if_splits)

lemma load_table_wf:
  assumes "load_table lib ad disk g = Inr s"
  shows "wf_state lib s"
proof -
  from assms obtain a p ps where
    s: "nth_guid lib g BOTTLEROCKET_BOOT 0 = Some a" "nth_guid lib g BOTTLEROCKET_PRIVATE 0 = Some p"
       "boot_partition_nums s = a # (case nth_guid lib g BOTTLEROCKET_BOOT 1 of Some b \<Rightarrow> [b] | None \<Rightarrow> [])"
       "private_partition_num s = p" "sets s = ps" "table s = g"
       "load_sets lib ad disk g (boot_partition_nums s) = Inr ps"
    by (auto simp: load_table_def Let_def result_simps required_guid_Ok)
  have len: "length (boot_partition_nums s) \<in> {1, 2}" by (simp add: s(3) split: option.splits)
  have "p \<noteq> k" if "nth_guid lib g BOTTLEROCKET_BOOT n = Some k" for n k
    using nth_guid_inj [OF that, of BOTTLEROCKET_PRIVATE 0] s(2) guids_distinct by blast
  moreover have "a \<noteq> b" if "nth_guid lib g BOTTLEROCKET_BOOT 1 = Some b" for b
    using nth_guid_inj [OF s(1), of BOTTLEROCKET_BOOT 1] that by auto
  ultimately have "distinct (p # boot_partition_nums s)"
    using s(1,3) by (cases "nth_guid lib g BOTTLEROCKET_BOOT 1") auto
  moreover have "k \<in> nums_of lib g" if "nth_guid lib g x n = Some k" for x n k
    using nth_guid_mem [OF that] by (auto simp: nums_of_def rev_image_eqI)
  then have "set (p # boot_partition_nums s) \<subseteq> nums_of lib g"
    using s(1-3) by (cases "nth_guid lib g BOTTLEROCKET_BOOT 1") auto
  ultimately show ?thesis
    using s load_sets_length [OF s(7) len] by (simp add: wf_state_def)
qed

lemma load_state_Ok:
  assumes "load_state lib r = Inr s"
  obtains ad disk where "locate_disk lib = Inr (ad, disk)" "load_table lib ad disk (table s) = Inr s"
  using assms load_table_table by (fastforce simp: load_state_def result_simps)

lemma load_state_wf: "load_state lib r = Inr s \<Longrightarrow> wf_state lib s"
  by (metis load_state_Ok load_table_wf)

lemma reload:
  assumes "load_state lib r = Inr s" "gpt_iter lib g' = gpt_iter lib (table s)"
  shows "load_state lib (\<lambda>_. Inr g') = Inr (s\<lparr>table := g'\<rparr>)"
proof -
  obtain ad disk where "locate_disk lib = Inr (ad, disk)" "load_table lib ad disk (table s) = Inr s"
    using assms(1) by (rule load_state_Ok)
  then show ?thesis using load_table_cong assms(2) by (simp add: load_state_def result_simps)
qed

text \<open>Whole runs of the program, each command reading the table its predecessor left on the disk.\<close>

lemma main_step:
  assumes f: "faithful_disk rd wr" and l: "load_state lib (rd k) = Inr s" and c: "parse_command (args ! 1) = Some c" "1 < length args"
    and sp: "spec_command c (boot_abs lib s) = Some sp"
  shows "\<exists>s'. load_state lib (rd (fst (signpost_main lib rd wr args k))) = Inr s' \<and> boot_abs lib s' = sp
           \<and> snd (snd (signpost_main lib rd wr args k)) = 0"
proof -
  obtain s' b where s': "command_change lib c s = (s', Inr b)" "boot_abs lib s' = sp"
    "gpt_iter lib (table s') = gpt_iter lib (table s)"
    using command_refines [OF load_state_wf [OF l], of c] sp
    by (auto simp: refines_def split: prod.splits sum.splits)
  have t: "s' = s\<lparr>table := table s'\<rparr>"
    using s'(1) by (rule command_change_table)
  obtain k' where w: "wr (table s') k = (k', Inr ())" "rd k' = (\<lambda>_. Inr (table s'))"
    using f unfolding faithful_disk_def by (metis prod.collapse)
  show ?thesis
  proof (cases b)
    case True
    have "fst (signpost_main lib rd wr args k) = k'" "snd (snd (signpost_main lib rd wr args k)) = 0"
      using True s' w c l by (simp_all add: signpost_main_def write_state_def map_err_def)
    then show ?thesis using reload [OF l s'(3)] w t s' by auto
  next
    case False
    then have "s' = s" using command_change_unwritten [OF s'(1)] by simp
    then show ?thesis using False s' c l by (simp add: signpost_main_def)
  qed
qed

lemma main_step_named:
  assumes "faithful_disk rd wr" "load_state lib (rd k) = Inr s" "parse_command name = Some c"
    and "spec_command c (boot_abs lib s) = Some sp"
  obtains s' where "load_state lib (rd (fst (signpost_main lib rd wr [arg0, name] k))) = Inr s'" "boot_abs lib s' = sp"
  using main_step [OF assms(1,2) _ _ assms(4), of "[arg0, name]"] assms(3) by auto

lemma main_refused:
  assumes "load_state lib (rd k) = Inr s" "parse_command (args ! 1) = Some c"
    and "spec_command c (boot_abs lib s) = None"
  shows "signpost_main lib rd wr args k = (k, [], 1)"
  using command_refines [OF load_state_wf [OF assms(1)], of c] assms
  by (auto simp: signpost_main_def refines_def split: prod.splits sum.splits)

lemma main_fails:
  "length args < 2 \<or> parse_command (args ! 1) = None \<Longrightarrow> signpost_main lib rd wr args k = (k, [], 1)"
  by (auto simp: signpost_main_def)

lemma main_keeps_active:
  assumes f: "faithful_disk rd wr" and l: "load_state lib (rd k) = Inr s"
    and a: "slot_boots (sp_slot (boot_abs lib s) (active s))"
  shows "\<exists>s'. load_state lib (rd (fst (signpost_main lib rd wr args k))) = Inr s' \<and> active s' = active s
           \<and> slot_boots (sp_slot (boot_abs lib s') (active s'))"
proof (cases "length args < 2 \<or> parse_command (args ! 1) = None")
  case True
  then show ?thesis using l a by (simp add: main_fails)
next
  case False
  then obtain c where c: "parse_command (args ! 1) = Some c" "1 < length args" by auto
  show ?thesis
  proof (cases "spec_command c (boot_abs lib s)")
    case None
    then show ?thesis using l a main_refused [of rd k s args c wr] c(1) by simp
  next
    case (Some sp)
    then obtain s' where s': "load_state lib (rd (fst (signpost_main lib rd wr args k))) = Inr s'" "boot_abs lib s' = sp"
      using main_step [OF f l c] by blast
    moreover have "active s' = active s" "sp_active sp = active s"
      using spec_active_same [OF Some] unfolding s'(2) [symmetric] by simp_all
    ultimately show ?thesis
      using spec_active_stays_bootable [OF Some spec_wf_abs [OF load_state_wf [OF l]]] a by simp
  qed
qed

lemma runs_keep_active:
  assumes f: "faithful_disk rd wr"
  shows "load_state lib (rd k) = Inr s \<Longrightarrow> slot_boots (sp_slot (boot_abs lib s) (active s)) \<Longrightarrow>
    \<exists>s'. load_state lib (rd (run_signpost lib rd wr argss k)) = Inr s' \<and> active s' = active s
       \<and> slot_boots (sp_slot (boot_abs lib s') (active s'))"
proof (induction argss arbitrary: k s)
  case (Cons args argss)
  obtain s1 where s1: "load_state lib (rd (fst (signpost_main lib rd wr args k))) = Inr s1" "active s1 = active s"
    "slot_boots (sp_slot (boot_abs lib s1) (active s1))"
    using main_keeps_active [OF f Cons.prems] by blast
  show ?case using Cons.IH [OF s1(1,3)] s1(2) by (simp add: run_signpost_def)
qed (simp add: run_signpost_def)

lemma active_bootable: "wf_state lib s \<Longrightarrow> slot_boots (sp_slot (boot_abs lib s) (active s)) = will_boot lib (gptprio lib s (active s))"
  using wf_has_set(1) [of s] by simp

lemma runs_next_exists:
  assumes f: "faithful_disk rd wr" and l: "load_state lib (rd k) = Inr s" and b: "will_boot lib (gptprio lib s (active s))"
  shows "\<exists>s'. load_state lib (rd (run_signpost lib rd wr argss k)) = Inr s' \<and> active s' = active s \<and> next_set lib s' \<noteq> None"
proof -
  obtain s' where s': "load_state lib (rd (run_signpost lib rd wr argss k)) = Inr s'" "active s' = active s"
    "slot_boots (sp_slot (boot_abs lib s') (active s'))"
    using runs_keep_active [OF f l] b active_bootable [OF load_state_wf [OF l]] by blast
  then show ?thesis
    using next_refines [OF load_state_wf [OF s'(1)]] spec_next_some [OF s'(3)] by auto
qed

text \<open>The three commands of an update, from any state with two sets.\<close>

lemma upgrade_run:
  assumes f: "faithful_disk rd wr" and l: "load_state lib (rd k) = Inr s" and i: "inactive s = Some i"
  fixes arg0
  defines "k' \<equiv> run_signpost lib rd wr (upgrade_args arg0) k"
  shows "\<exists>s'. load_state lib (rd k') = Inr s' \<and>
    boot_abs lib s' = prefer_slot i 2 1 (upd_slot i (\<lambda>_. (0, 1, False)) (boot_abs lib s))"
proof -
  let ?sp1 = "upd_slot i (\<lambda>_. (0, 0, False)) (boot_abs lib s)"
  let ?sp2 = "upd_slot i (\<lambda>_. (0, 1, False)) (boot_abs lib s)"
  define k1 where "k1 = fst (signpost_main lib rd wr [arg0, ''clear-inactive''] k)"
  define k2 where "k2 = fst (signpost_main lib rd wr [arg0, ''mark-inactive-valid''] k1)"
  define k3 where "k3 = fst (signpost_main lib rd wr [arg0, ''upgrade-to-inactive''] k2)"
  have "spec_command ClearInactive (boot_abs lib s) = Some ?sp1" using i by simp
  then obtain s1 where s1: "load_state lib (rd k1) = Inr s1" "boot_abs lib s1 = ?sp1"
    using main_step_named [OF f, of k s _ ClearInactive ?sp1] l parse_command_names(1) unfolding k1_def by metis
  have "spec_command MarkInactiveValid (boot_abs lib s1) = Some ?sp2"
    unfolding s1(2) using i by (simp add: upd_slot_def boot_abs_def)
  then obtain s2 where s2: "load_state lib (rd k2) = Inr s2" "boot_abs lib s2 = ?sp2"
    using main_step_named [OF f, of k1 s1 _ MarkInactiveValid ?sp2] s1(1) parse_command_names(2) unfolding k2_def by metis
  have "spec_command UpgradeToInactive (boot_abs lib s2) = Some (prefer_slot i 2 1 ?sp2)"
    unfolding s2(2) using i by (simp add: upd_slot_def boot_abs_def)
  then obtain s3 where "load_state lib (rd k3) = Inr s3" "boot_abs lib s3 = prefer_slot i 2 1 ?sp2"
    using main_step_named [OF f, of k2 s2 _ UpgradeToInactive "prefer_slot i 2 1 ?sp2"] s2(1) parse_command_names(3)
    unfolding k3_def by metis
  then show ?thesis by (simp add: k'_def run_signpost_def upgrade_args_def k1_def k2_def k3_def)
qed

lemma upgrade_next:
  assumes f: "faithful_disk rd wr" and l: "load_state lib (rd k) = Inr s" and i: "inactive s = Some i"
    and b: "will_boot lib (gptprio lib s (active s))"
  fixes arg0
  defines "k' \<equiv> run_signpost lib rd wr (upgrade_args arg0) k"
  shows "\<exists>s'. load_state lib (rd k') = Inr s' \<and> next_set lib s' = Some i \<and>
    next_set lib (set_gptprio lib i (set_tries_left lib 0 (gptprio lib s' i)) s') = Some (active s)"
proof -
  obtain s' where s': "load_state lib (rd k') = Inr s'"
    "boot_abs lib s' = prefer_slot i 2 1 (upd_slot i (\<lambda>_. (0, 1, False)) (boot_abs lib s))"
    using upgrade_run [OF f l i] unfolding k'_def by blast
  note w = load_state_wf [OF s'(1)] load_state_wf [OF l]
  have a: "active s = select_not i" using wf_has_set(3) [OF w(2) i] by simp
  have "sp_inactive (boot_abs lib s') = inactive s" by (simp add: s'(2) prefer_slot_def upd_slot_def)
  then have i': "inactive s' = Some i" using i by simp
  note h = wf_has_set(2) [OF w(1) i']
  have fb: "boot_abs lib (set_gptprio lib i (set_tries_left lib 0 (gptprio lib s' i)) s') = upd_slot i (with_tries 0) (boot_abs lib s')"
    by (rule abs_set_gptprio [OF w(1) h]) simp
  have bs: "slot_boots (sp_slot (boot_abs lib s) (select_not i))" using b active_bootable [OF w(2)] a by simp
  have "next_set lib s' = Some i"
    unfolding next_refines [OF w(1)] s'(2)
    by (rule spec_upgraded_next) (simp add: a)
  moreover have "next_set lib (set_gptprio lib i (set_tries_left lib 0 (gptprio lib s' i)) s') = Some (select_not i)"
    unfolding next_refines [OF wf_set_gptprio [OF w(1) h]] fb s'(2)
    by (rule spec_upgraded_fallback) (simp_all add: a bs)
  ultimately show ?thesis using s'(1) by (simp add: a)
qed

lemma single_refused:
  assumes l: "load_state lib (rd k) = Inr s" and i: "inactive s = None" and c: "parse_command name = Some c"
    and "c \<in> {ClearInactive, MarkInactiveValid, UpgradeToInactive, CancelUpgrade, RollbackToInactive}"
  shows "signpost_main lib rd wr [arg0, name] k = (k, [], 1)"
proof -
  have "spec_command c (boot_abs lib s) = None" using assms by auto
  then show ?thesis
    using main_refused [where rd = rd and k = k and args = "[arg0, name]", OF l] c by simp
qed

lemma load_active:
  assumes "load_state lib r = Inr s" "locate_disk lib = Inr (ad, disk)" "inactive s \<noteq> None"
  shows "set_contains (active_set s) (device_path lib ad)"
proof -
  have t: "load_table lib ad disk (table s) = Inr s"
    using assms(1,2) by (metis load_state_Ok sum.inject(2) prod.inject)
  obtain x y a where d: "sets s = Dual x y a"
    using assms(3) by (auto simp: inactive_def split: partition_sets.splits)
  show ?thesis using load_sets_active load_table_sets [OF t] d by (simp add: active_set_def)
qed

lemma rollback_run:
  assumes f: "faithful_disk rd wr" and l: "load_state lib (rd k) = Inr s" and i: "inactive s = Some i"
  shows "if will_boot lib (gptprio lib s i)
    then \<exists>s'. load_state lib (rd (run_signpost lib rd wr [[arg0, ''rollback-to-inactive'']] k)) = Inr s' \<and> next_set lib s' = Some i
    else signpost_main lib rd wr [arg0, ''rollback-to-inactive''] k = (k, [], 1)"
proof (cases "will_boot lib (gptprio lib s i)")
  case True
  note w = load_state_wf [OF l]
  note h = wf_has_set(2,3) [OF w i]
  have sp: "spec_command RollbackToInactive (boot_abs lib s) = Some (prefer_slot i 2 1 (boot_abs lib s))"
    using i h True by simp
  obtain s' where s': "load_state lib (rd (run_signpost lib rd wr [[arg0, ''rollback-to-inactive'']] k)) = Inr s'"
    "boot_abs lib s' = prefer_slot i 2 1 (boot_abs lib s)"
    using main_step_named [OF f l parse_command_names(4) sp] by (auto simp: run_signpost_def)
  have "slot_boots (sp_slot (boot_abs lib s) i)" using True h by simp
  then have "next_set lib s' = Some i"
    unfolding next_refines [OF load_state_wf [OF s'(1)]] s'(2)
    using h by (intro spec_rollback_next) simp_all
  then show ?thesis using s'(1) True by auto
next
  case False
  then have "spec_command RollbackToInactive (boot_abs lib s) = None"
    using i wf_has_set(2) [OF load_state_wf [OF l] i] by simp
  then show ?thesis using False main_refused [where rd = rd and k = k and args = "[arg0, ''rollback-to-inactive'']", OF l]
    by (simp add: parse_command_names)
qed

end

section \<open>The crates computed on words and lists\<close>

text \<open>A table as the list of its entries, numbered from 1, and one disk whose root is its partition.\<close>

unbundle bit_operations_syntax

definition word_lib :: "string \<Rightarrow> ((nat list \<times> u64) list, string, string) signpost_lib" where
  "word_lib root =
     \<lparr>get_bits = \<lambda>w lo hi. take_bit (hi - lo) (drop_bit lo w),
      set_bits = \<lambda>w lo hi v.
        (w AND NOT (push_bit lo (mask (hi - lo)))) OR push_bit lo (take_bit (hi - lo) v),
      get_bit = bit,
      put_bit = \<lambda>w n b. (if b then set_bit n w else unset_bit n w),
      gpt_iter = \<lambda>g. zip [1..<Suc (length g)] (map fst g),
      attribute_bits = \<lambda>g n. snd (g ! (n - 1)),
      put_attribute_bits = \<lambda>n w g. g[n - 1 := (fst (g ! (n - 1)), w)],
      from_device_path = \<lambda>_. Inr ''/dev/dm-0'',
      lower_devices = \<lambda>_. Inr [Inr root],
      device_disk = \<lambda>_. Inr (Some ''/dev/sda''),
      disk_partition = \<lambda>_ n. Inr (Some (''/dev/sda'' @ show_nat n)),
      device_path = id\<rparr>"

lemma nums_of_word [simp]: "nums_of (word_lib root) g = {1..length g}"
proof -
  have "nums_of (word_lib root) g = set (map fst (zip [1..<Suc (length g)] (map fst g)))"
    by (simp add: nums_of_def word_lib_def)
  also have "map fst (zip [1..<Suc (length g)] (map fst g)) = [1..<Suc (length g)]"
    by (rule map_fst_zip) (simp del: upt_Suc)
  finally show ?thesis by (simp only: set_upt atLeastLessThanSuc_atLeastAtMost)
qed

interpretation wl: signpost_library "word_lib root" for root
proof (unfold_locales, goal_cases)
  case (1 lo hi w n)
  then show ?case by (auto simp: word_lib_def bit_take_bit_iff bit_drop_bit_eq add.commute)
next
  case (2 lo hi v w n)
  then have "bit w n \<Longrightarrow> n < 64" "n < hi \<Longrightarrow> n < 64" by (auto dest: bit_imp_le_length)
  with 2 show ?case
    by (auto simp: word_lib_def bit_or_iff bit_and_iff bit_not_iff bit_push_bit_iff bit_mask_iff bit_take_bit_iff)
next
  case (3 n w)
  then show ?case by (simp add: word_lib_def)
next
  case (4 n w b m)
  then show ?case by (auto simp: word_lib_def bit_set_bit_iff bit_unset_bit_iff)
next
  case (5 g)
  then show ?case by (simp add: word_lib_def)
next
  case (6 n g m w)
  then have b: "n \<in> {1..length g}" "m \<in> {1..length g}" by simp_all
  then have "m - 1 = n - 1 \<longleftrightarrow> m = n" by auto
  with b show ?case by (auto simp: word_lib_def nth_list_update)
next
  case (7 n g w)
  then have "n \<in> {1..length g}" by simp
  then have "map fst (g[n - 1 := (fst (g ! (n - 1)), w)]) = map fst g" by (auto simp: map_update list_update_same_conv)
  then show ?case by (simp add: word_lib_def del: upt_Suc)
qed

section \<open>Properties\<close>

text \<open>
  A disk with two partition sets, its root in set A, which has booted before. The disk holds its
  table and gives it back.
\<close>

definition sample_table :: "(nat list \<times> u64) list" where
  "sample_table =
     [(BOTTLEROCKET_BOOT, 0x0112000000000000), (BOTTLEROCKET_ROOT, 0), (BOTTLEROCKET_HASH, 0),
      (BOTTLEROCKET_BOOT, 0x5), (BOTTLEROCKET_ROOT, 0), (BOTTLEROCKET_HASH, 0), (BOTTLEROCKET_PRIVATE, 0)]"

definition sample_lib :: "((nat list \<times> u64) list, string, string) signpost_lib" where
  "sample_lib = word_lib ''/dev/sda2''"

definition sample_read :: "'g \<Rightarrow> string \<Rightarrow> (string + string) + 'g" where
  "sample_read k p = Inr k"

definition sample_write :: "'g \<Rightarrow> 'g \<Rightarrow> 'g \<times> ((string + string) + unit)" where
  "sample_write g k = (g, Inr ())"

definition sample_state :: "(nat list \<times> u64) list state" where
  "sample_state = \<lparr>os_disk = ''/dev/sda'', private_partition_num = 7,
     sets = Dual \<lparr>set_boot = ''/dev/sda1'', set_root = ''/dev/sda2'', set_hash = ''/dev/sda3''\<rparr>
              \<lparr>set_boot = ''/dev/sda4'', set_root = ''/dev/sda5'', set_hash = ''/dev/sda6''\<rparr> Set_A,
     boot_partition_nums = [1, 4], table = sample_table\<rparr>"

lemma sample_faithful: "faithful_disk sample_read sample_write"
  by (simp add: faithful_disk_def sample_read_def sample_write_def fun_eq_iff)

lemma sample_library: "signpost_library sample_lib"
  unfolding sample_lib_def by (rule wl.signpost_library_axioms)

lemma sample_load: "load_state sample_lib (sample_read sample_table) = Inr sample_state"
  by code_simp

lemma sample_boots: "will_boot sample_lib (gptprio sample_lib sample_state (active sample_state))"
  by code_simp

lemma sample_inactive: "inactive sample_state = Some Set_B"
  by code_simp

text \<open>
  C1: signpost implements the boot protocol. On a loaded state every command has the outcome the
  protocol prescribes for the meaning of the attribute bits (clearing, validating, preferring the
  inactive set, falling back, rolling back), a command the protocol refuses leaves the state alone,
  and \<open>next\<close> names the set the protocol boots.
\<close>

theorem signpost_implements_protocol:
  assumes "signpost_library lib" "wf_state lib s"
  shows "refines lib s (command_change lib c s) (spec_command c (boot_abs lib s))
    \<and> next_set lib s = spec_next (boot_abs lib s)"
  using signpost_library.command_refines [OF assms] signpost_library.next_refines [OF assms] by blast

lemma sample_wf: "wf_state sample_lib sample_state"
  using signpost_library.load_state_wf [OF sample_library sample_load] .

theorem signpost_implements_protocol_witness:
  "refines sample_lib sample_state (command_change sample_lib MarkInactiveValid sample_state)
     (spec_command MarkInactiveValid (boot_abs sample_lib sample_state))"
  using signpost_implements_protocol [OF sample_library sample_wf, of MarkInactiveValid] by blast

text \<open>
  C25: the update protocol works across processes. On a disk with two sets whose active set boots,
  running clear-inactive, mark-inactive-valid and upgrade-to-inactive leaves a table on which the
  inactive set is booted next, and if its one try is used up without success, the set that was
  active is booted again.
\<close>

theorem signpost_upgrade_boots_inactive:
  assumes "signpost_library lib" "faithful_disk rd wr" "load_state lib (rd k) = Inr s"
    and "inactive s = Some i" "will_boot lib (gptprio lib s (active s))"
  shows "\<exists>s'. load_state lib (rd (run_signpost lib rd wr (upgrade_args arg0) k)) = Inr s' \<and>
    next_set lib s' = Some i \<and>
    next_set lib (set_gptprio lib i (set_tries_left lib 0 (gptprio lib s' i)) s') = Some (active s)"
  using signpost_library.upgrade_next [OF assms] .

theorem signpost_upgrade_boots_inactive_witness:
  "\<exists>s'. load_state sample_lib
      (sample_read (run_signpost sample_lib sample_read sample_write (upgrade_args ''signpost'') sample_table)) = Inr s'
    \<and> next_set sample_lib s' = Some Set_B"
  using signpost_upgrade_boots_inactive [OF sample_library sample_faithful sample_load sample_inactive sample_boots,
      of "''signpost''"] by blast

text \<open>
  C3: no sequence of signpost commands, successful or refused, leaves the machine without a set to
  boot: while the active set boots at the start, the table still loads, the active set is the same
  and \<open>next\<close> names a set.
\<close>

theorem signpost_always_bootable:
  assumes "signpost_library lib" "faithful_disk rd wr" "load_state lib (rd k) = Inr s"
    and "will_boot lib (gptprio lib s (active s))"
  shows "\<exists>s'. load_state lib (rd (run_signpost lib rd wr argss k)) = Inr s' \<and> active s' = active s
    \<and> next_set lib s' \<noteq> None"
  using signpost_library.runs_next_exists [OF assms] .

theorem signpost_always_bootable_witness:
  "\<exists>s'. load_state sample_lib (sample_read (run_signpost sample_lib sample_read sample_write
      [[''signpost'', ''clear-inactive''], [''signpost''], [''signpost'', ''rollback-to-inactive'']] sample_table)) = Inr s'
    \<and> next_set sample_lib s' \<noteq> None"
  using signpost_always_bootable [OF sample_library sample_faithful sample_load sample_boots] by blast

text \<open>
  C26: rolling back. With two sets, rollback-to-inactive exits with an error and leaves the disk alone
  when the inactive set would not boot; otherwise the inactive set is booted next.
\<close>

theorem signpost_rollback:
  assumes "signpost_library lib" "faithful_disk rd wr" "load_state lib (rd k) = Inr s" "inactive s = Some i"
  shows "if will_boot lib (gptprio lib s i)
    then \<exists>s'. load_state lib (rd (run_signpost lib rd wr [[arg0, ''rollback-to-inactive'']] k)) = Inr s' \<and> next_set lib s' = Some i
    else signpost_main lib rd wr [arg0, ''rollback-to-inactive''] k = (k, [], 1)"
  using signpost_library.rollback_run [OF assms] .

theorem signpost_rollback_witness:
  "signpost_main sample_lib sample_read sample_write [''signpost'', ''rollback-to-inactive''] sample_table
     = (sample_table, [], 1)"
proof -
  have "\<not> will_boot sample_lib (gptprio sample_lib sample_state Set_B)" by code_simp
  then show ?thesis
    using signpost_rollback [OF sample_library sample_faithful sample_load sample_inactive] by simp
qed



text \<open>
  C28: the four fields of the attribute word are independent. Each setter, given a value that fits its
  field, is read back by its getter, leaves the other fields and every bit outside its field alone,
  and the fields read never exceed fifteen.
\<close>

theorem gptprio_fields_independent:
  assumes "signpost_library lib" "unat p < 16" "unat t < 16"
  shows "priority lib (set_priority lib p w) = p \<and> tries_left lib (set_priority lib p w) = tries_left lib w
    \<and> successful lib (set_priority lib p w) = successful lib w
    \<and> tries_left lib (set_tries_left lib t w) = t \<and> priority lib (set_tries_left lib t w) = priority lib w
    \<and> successful lib (set_tries_left lib t w) = successful lib w
    \<and> successful lib (set_successful lib b w) = b \<and> priority lib (set_successful lib b w) = priority lib w
    \<and> tries_left lib (set_successful lib b w) = tries_left lib w
    \<and> unat (priority lib w) < 16 \<and> unat (tries_left lib w) < 16
    \<and> (\<forall>n. n \<notin> {48..<52} \<longrightarrow> bit (set_priority lib p w) n = bit w n)
    \<and> (\<forall>n. n \<notin> {52..<56} \<longrightarrow> bit (set_tries_left lib t w) n = bit w n)
    \<and> (\<forall>n. n \<noteq> 56 \<longrightarrow> bit (set_successful lib b w) n = bit w n)"
  using assms signpost_library.get_bits_bound [OF assms(1), of 48 52 w] signpost_library.get_bits_bound [OF assms(1), of 52 56 w]
    signpost_library.other_bits_kept [OF assms(1)]
    signpost_library.priority_simps [OF assms(1)] signpost_library.tries_left_simps [OF assms(1)]
    signpost_library.successful_simps [OF assms(1)]
  by (simp add: priority_def [of lib w] tries_left_def [of lib w])

theorem gptprio_fields_independent_witness: "priority sample_lib (set_priority sample_lib 9 0x0112000000000005) = 9"
  using gptprio_fields_independent [OF sample_library, of 9 0] by simp

text \<open>
  C29: with a single partition set, every command that works on the inactive set exits with an error
  and leaves the disk alone.
\<close>

theorem signpost_single_set_refused:
  assumes "signpost_library lib" "load_state lib (rd k) = Inr s" "inactive s = None" "parse_command name = Some c"
    and "c \<in> {ClearInactive, MarkInactiveValid, UpgradeToInactive, CancelUpgrade, RollbackToInactive}"
  shows "signpost_main lib rd wr [arg0, name] k = (k, [], 1)"
  using signpost_library.single_refused [where rd = rd and k = k, OF assms] .

definition single_table :: "(nat list \<times> u64) list" where
  "single_table = [(BOTTLEROCKET_BOOT, 0), (BOTTLEROCKET_ROOT, 0), (BOTTLEROCKET_HASH, 0), (BOTTLEROCKET_PRIVATE, 0)]"

theorem signpost_single_set_refused_witness:
  "signpost_main sample_lib sample_read sample_write [''signpost'', ''cancel-upgrade''] single_table = (single_table, [], 1)"
proof -
  have "load_state sample_lib (sample_read single_table) = Inr \<lparr>os_disk = ''/dev/sda'', private_partition_num = 4,
     sets = Single \<lparr>set_boot = ''/dev/sda1'', set_root = ''/dev/sda2'', set_hash = ''/dev/sda3''\<rparr>,
     boot_partition_nums = [1], table = single_table\<rparr>" by code_simp
  moreover have "parse_command ''cancel-upgrade'' = Some CancelUpgrade" by code_simp
  ultimately show ?thesis
    using signpost_single_set_refused [OF sample_library, of sample_read single_table _ "''cancel-upgrade''" CancelUpgrade]
    by (simp add: inactive_def)
qed



end
