(* ===== verification/Rust_Std.thy ===== *)
theory Rust_Std
  imports Prelude "HOL-Library.List_Lexorder" "HOL-Library.Char_ord" "HOL-Library.Product_Lexorder" "HOL-Library.Word"
begin

text \<open>
  What the programs use of the Rust standard library beyond results and hash maps: \<open>BTreeMap\<close> as the
  list of its entries in key order, integer parsing, whitespace, \<open>f32\<close> division of small integers,
  machine integers, and text with its slices by bytes.
\<close>

type_synonym u32 = "32 word"

section \<open>BTreeMap\<close>

type_synonym ('k, 'v) btree = "('k \<times> 'v) list"

fun bt_insert :: "'k::linorder \<Rightarrow> 'v \<Rightarrow> ('k, 'v) btree \<Rightarrow> ('k, 'v) btree" where
  "bt_insert k v [] = [(k, v)]"
| "bt_insert k v ((k', v') # m) =
     (if k < k' then (k, v) # (k', v') # m
      else if k = k' then (k, v) # m
      else (k', v') # bt_insert k v m)"

definition bt_get :: "'k \<Rightarrow> ('k, 'v) btree \<Rightarrow> 'v option" where
  "bt_get k m = map_of m k"

definition bt_remove :: "'k \<Rightarrow> ('k, 'v) btree \<Rightarrow> ('k, 'v) btree" where
  "bt_remove k m = filter (\<lambda>e. fst e \<noteq> k) m"

definition bt_wf :: "('k::linorder, 'v) btree \<Rightarrow> bool" where
  "bt_wf m \<longleftrightarrow> sorted_wrt (<) (map fst m)"

lemma bt_view_insert: "map_of (bt_insert k v m) = (map_of m)(k \<mapsto> v)"
  by (induction m) auto

lemma bt_insert_keys: "fst ` set (bt_insert k v m) = insert k (fst ` set m)"
proof (induction m)
  case (Cons e m)
  then show ?case by (cases e) (simp add: insert_commute)
qed simp

lemma bt_wf_insert: "bt_wf m \<Longrightarrow> bt_wf (bt_insert k v m)"
proof (induction m)
  case (Cons e m)
  obtain k' v' where e: "e = (k', v')" by force
  have "\<forall>x \<in> fst ` set (bt_insert k v m). k' < x" if "k' < k"
    using Cons.prems that unfolding bt_insert_keys e by (auto simp: bt_wf_def)
  then show ?case using Cons e by (auto simp: bt_wf_def intro: less_trans)
qed (simp add: bt_wf_def)

lemma bt_view_remove: "map_of (bt_remove k m) = (map_of m)(k := None)"
  by (induction m) (auto simp: bt_remove_def)

lemma bt_wf_remove: "bt_wf m \<Longrightarrow> bt_wf (bt_remove k m)"
  by (simp add: bt_wf_def bt_remove_def sorted_wrt_map sorted_wrt_filter)

lemma bt_wf_distinct: "bt_wf m \<Longrightarrow> distinct (map fst m)"
  unfolding bt_wf_def by (induction m) auto

lemma bt_ext:
  assumes "bt_wf m" "bt_wf m'" "map_of m = map_of m'"
  shows "m = m'"
proof -
  have d: "distinct (map fst m)" "distinct (map fst m')" using assms by (auto intro: bt_wf_distinct)
  have "set m = set m'"
    using assms(3) d by (metis set_map_of_compr)
  moreover have "inj_on fst (set m \<union> set m')"
    using d calculation by (simp add: distinct_map)
  ultimately show ?thesis
    using assms d by (intro map_sorted_distinct_set_unique [of fst]) (auto simp: bt_wf_def strict_sorted_iff)
qed

interpretation btree: finite_map "[]" bt_insert bt_remove bt_get map_of id bt_wf
  by unfold_locales (simp_all add: bt_view_insert bt_view_remove bt_get_def bt_wf_insert bt_wf_remove, simp add: bt_wf_def)

section \<open>Parsing integers and words\<close>

definition is_digit :: "char \<Rightarrow> bool" where
  "is_digit c \<longleftrightarrow> 48 \<le> (of_char c :: nat) \<and> of_char c \<le> (57 :: nat)"

fun parse_digits :: "int \<Rightarrow> string \<Rightarrow> int option" where
  "parse_digits acc [] = Some acc"
| "parse_digits acc (c # cs) = (if is_digit c then parse_digits (acc * 10 + (of_char c - 48)) cs else None)"

text \<open>\<open>str::parse\<close> at an unsigned type with the given maximum: an optional plus sign, then digits.\<close>

definition parse_uint :: "int \<Rightarrow> string \<Rightarrow> int option" where
  "parse_uint bound str =
     (let ds = (case str of [] \<Rightarrow> [] | c # cs \<Rightarrow> if c = CHR ''+'' then cs else str) in
      if ds = [] then None
      else case parse_digits 0 ds of Some n \<Rightarrow> if n \<le> bound then Some n else None | None \<Rightarrow> None)"

definition parse_u32 :: "string \<Rightarrow> u32 option" where
  "parse_u32 str = map_option of_int (parse_uint 4294967295 str)"

definition is_space :: "char \<Rightarrow> bool" where
  "is_space c \<longleftrightarrow> of_char c \<in> {9, 10, 11, 12, 13, 32 :: nat}"

fun split_whitespace :: "string \<Rightarrow> string list" where
  "split_whitespace [] = []"
| "split_whitespace (c # cs) =
     (if is_space c then split_whitespace cs
      else case cs of
             [] \<Rightarrow> [[c]]
           | d # _ \<Rightarrow> if is_space d then [c] # split_whitespace cs
                     else case split_whitespace cs of w # ws \<Rightarrow> (c # w) # ws | [] \<Rightarrow> [[c]])"

lemma digit_char_is_digit: "n < 10 \<Longrightarrow> is_digit (digit_char n) \<and> of_char (digit_char n) - 48 = int n"
proof -
  assume "n < 10"
  then have "(of_char (digit_char n) :: nat) = 48 + n" by (simp add: digit_char_def)
  moreover have "(of_char (digit_char n) :: int) = int (of_char (digit_char n))" by (simp add: of_nat_of_char)
  ultimately show ?thesis using \<open>n < 10\<close> by (simp add: is_digit_def)
qed

lemma parse_digits_append:
  "parse_digits acc (xs @ ys) = (case parse_digits acc xs of Some a \<Rightarrow> parse_digits a ys | None \<Rightarrow> None)"
  by (induction xs arbitrary: acc) auto

lemma parse_digits_show: "parse_digits 0 (show_nat n) = Some (int n)"
proof (induction n rule: show_nat.induct)
  case (1 n)
  have "int (n div 10) * 10 + int (n mod 10) = int n" by presburger
  with 1 show ?case
    by (subst show_nat.simps) (auto simp: parse_digits_append digit_char_is_digit)
qed

lemma show_nat_Cons: "\<exists>c cs. show_nat n = c # cs \<and> is_digit c"
proof (induction n rule: show_nat.induct)
  case (1 n)
  show ?case
  proof (cases "n < 10")
    case True
    then show ?thesis by (simp add: show_nat.simps digit_char_is_digit)
  next
    case False
    then show ?thesis using 1 by (subst show_nat.simps) auto
  qed
qed

lemma show_nat_digits: "c \<in> set (show_nat n) \<Longrightarrow> is_digit c"
proof (induction n rule: show_nat.induct)
  case (1 n)
  then show ?case
    by (subst (asm) (2) show_nat.simps) (auto simp: digit_char_is_digit split: if_splits)
qed

lemma parse_uint_show: "int n \<le> b \<Longrightarrow> parse_uint b (show_nat n) = Some (int n)"
proof -
  assume "int n \<le> b"
  obtain c cs where c: "show_nat n = c # cs" "is_digit c" using show_nat_Cons by blast
  then have "c \<noteq> CHR ''+''" by (auto simp: is_digit_def)
  then show ?thesis using \<open>int n \<le> b\<close> c parse_digits_show [of n] by (simp add: parse_uint_def)
qed

lemma parse_u32_show: "parse_u32 (show_nat (unat w)) = Some w"
proof -
  have "uint w < 2 ^ LENGTH(32)" by (rule unsigned_less)
  then have "int (unat w) \<le> 4294967295" by simp
  then show ?thesis by (simp add: parse_u32_def parse_uint_show)
qed

section \<open>f32\<close>

text \<open>
  The quotient of two positive integers below \<open>2 ^ 24\<close> (exact in \<open>f32\<close>) rounded to a 24 bit
  significand, ties to even: \<open>(m, s)\<close> stands for \<open>m / 2 ^ s\<close>. The exponents here stay in \<open>f32\<close>'s
  normal range.
\<close>

definition round_div :: "int \<Rightarrow> int \<Rightarrow> int" where
  "round_div a b =
     (let q = a div b; r = a mod b in
      if 2 * r < b \<or> 2 * r = b \<and> even q then q else q + 1)"

fun f32_div_steps :: "nat \<Rightarrow> nat \<Rightarrow> int \<Rightarrow> int \<Rightarrow> int \<times> nat" where
  "f32_div_steps 0 s a b = (round_div a b, s)"
| "f32_div_steps (Suc n) s a b =
     (if a \<ge> 8388608 * b then (round_div a b, s) else f32_div_steps n (Suc s) (2 * a) b)"

definition f32_div :: "int \<Rightarrow> int \<Rightarrow> int \<times> nat" where
  "f32_div a b = f32_div_steps 48 0 a b"

text \<open>Multiplying by a power of two is exact; \<open>as u32\<close> drops the fraction.\<close>

definition f32_scale_trunc :: "int \<times> nat \<Rightarrow> int \<Rightarrow> int" where
  "f32_scale_trunc x k = fst x * k div 2 ^ snd x"

section \<open>Text\<close>

text \<open>
  A \<open>string\<close> here is text whose characters are the code points up to \<open>U+00FF\<close>; from \<open>U+0080\<close> on they
  take two bytes in UTF-8. Slices are by bytes: \<open>None\<close> is the panic of a range that ends outside the
  text or inside a character.
\<close>

definition is_ascii :: "char \<Rightarrow> bool" where
  "is_ascii c \<longleftrightarrow> (of_char c :: nat) < 128"

definition utf8_len :: "char \<Rightarrow> nat" where
  "utf8_len c = (if is_ascii c then 1 else 2)"

definition byte_len :: "string \<Rightarrow> nat" where
  "byte_len s = sum_list (map utf8_len s)"

definition utf8_char :: "char \<Rightarrow> 8 word list" where
  "utf8_char c =
     (let n = of_char c :: int in if is_ascii c then [word_of_int n] else [word_of_int (192 + n div 64), word_of_int (128 + n mod 64)])"

definition into_bytes :: "string \<Rightarrow> 8 word list" where
  "into_bytes s = concat (map utf8_char s)"

fun str_from :: "nat \<Rightarrow> string \<Rightarrow> string option" where
  "str_from n [] = (if n = 0 then Some [] else None)"
| "str_from n (c # cs) = (if n = 0 then Some (c # cs) else if utf8_len c \<le> n then str_from (n - utf8_len c) cs else None)"

fun str_upto :: "nat \<Rightarrow> string \<Rightarrow> string option" where
  "str_upto n [] = (if n = 0 then Some [] else None)"
| "str_upto n (c # cs) =
     (if n = 0 then Some [] else if utf8_len c \<le> n then map_option ((#) c) (str_upto (n - utf8_len c) cs) else None)"

definition str_range :: "nat \<Rightarrow> nat \<Rightarrow> string \<Rightarrow> string option" where
  "str_range a b s = (if a \<le> b then Option.bind (str_from a s) (str_upto (b - a)) else None)"

definition is_whitespace :: "char \<Rightarrow> bool" where
  "is_whitespace c \<longleftrightarrow> of_char c \<in> {9, 10, 11, 12, 13, 32, 133, 160 :: nat}"

definition trim_start :: "string \<Rightarrow> string" where
  "trim_start s = dropWhile is_whitespace s"

definition trim :: "string \<Rightarrow> string" where
  "trim s = rev (dropWhile is_whitespace (rev (trim_start s)))"

definition strip_cr :: "string \<Rightarrow> string" where
  "strip_cr l = (if l \<noteq> [] \<and> last l = CHR 0x0D then butlast l else l)"

text \<open>\<open>str::lines\<close>: a last line that is not ended by a line feed keeps a carriage return.\<close>

definition str_lines :: "string \<Rightarrow> string list" where
  "str_lines s = (let ls = split_on (CHR 0x0A) s in map strip_cr (butlast ls) @ (if last ls = [] then [] else [last ls]))"

text \<open>The question mark in code that may also panic: \<open>None\<close>.\<close>

definition try_bind :: "('e + 'a) option \<Rightarrow> ('a \<Rightarrow> ('e + 'b) option) \<Rightarrow> ('e + 'b) option" where
  "try_bind r f = (case r of None \<Rightarrow> None | Some (Inl e) \<Rightarrow> Some (Inl e) | Some (Inr x) \<Rightarrow> f x)"

lemma try_bind_simps [simp]:
  "try_bind None f = None" "try_bind (Some (Inl e)) f = Some (Inl e)" "try_bind (Some (Inr x)) f = f x"
  by (simp_all add: try_bind_def)

lemma try_bind_cong [fundef_cong]:
  "r = r' \<Longrightarrow> (\<And>x. r' = Some (Inr x) \<Longrightarrow> f x = g x) \<Longrightarrow> try_bind r f = try_bind r' g"
  by (simp add: try_bind_def split: option.splits sum.splits)

lemma try_bind_Ok_iff [result_simps]: "try_bind r f = Some (Inr y) \<longleftrightarrow> (\<exists>x. r = Some (Inr x) \<and> f x = Some (Inr y))"
  by (simp add: try_bind_def split: option.splits sum.splits)

lemma try_bind_None_iff [result_simps]: "try_bind r f = None \<longleftrightarrow> r = None \<or> (\<exists>x. r = Some (Inr x) \<and> f x = None)"
  by (auto simp: try_bind_def split: option.splits sum.splits)

lemma try_bind_Err_iff [result_simps]:
  "try_bind r f = Some (Inl e) \<longleftrightarrow> r = Some (Inl e) \<or> (\<exists>x. r = Some (Inr x) \<and> f x = Some (Inl e))"
  by (auto simp: try_bind_def split: option.splits sum.splits)

lemma ascii_slices:
  assumes "list_all is_ascii s"
  shows "byte_len s = length s" "str_from n s = (if n \<le> length s then Some (drop n s) else None)"
    "str_upto n s = (if n \<le> length s then Some (take n s) else None)"
  using assms
  by (induction s arbitrary: n) (auto simp: byte_len_def utf8_len_def drop_Cons take_Cons split: nat.splits)

lemma ascii_range:
  assumes "list_all is_ascii s" "a \<le> b" "b \<le> length s"
  shows "str_range a b s = Some (take (b - a) (drop a s))"
proof -
  have "list_all is_ascii (drop a s)" using assms(1) by (auto simp: list_all_iff dest: in_set_dropD)
  then show ?thesis using assms by (simp add: str_range_def ascii_slices)
qed

lemma trim_id: "s \<noteq> [] \<Longrightarrow> \<not> is_whitespace (hd s) \<Longrightarrow> \<not> is_whitespace (last s) \<Longrightarrow> trim s = s"
  by (cases s) (auto simp: trim_def trim_start_def hd_rev [symmetric] dropWhile_eq_self_iff simp del: hd_rev)

lemma trim_Nil [simp]: "trim [] = []"
  by (simp add: trim_def trim_start_def)

lemma trim_space_left: "is_whitespace c \<Longrightarrow> trim (c # s) = trim s"
  by (simp add: trim_def trim_start_def)

lemma trim_space_right: "is_whitespace c \<Longrightarrow> trim (s @ [c]) = trim s"
  by (cases "list_all is_whitespace s")
     (auto simp: trim_def trim_start_def list_all_iff dropWhile_append dropWhile_eq_Nil_conv [symmetric] simp del: dropWhile_eq_Nil_conv)

lemma trim_subset: "set (trim s) \<subseteq> set s"
proof -
  have "set (dropWhile is_whitespace t) \<subseteq> set t" for t by (auto dest: set_dropWhileD)
  from this [of "rev (trim_start s)"] this [of s] show ?thesis by (auto simp: trim_def trim_start_def)
qed

lemma trim_filter: "(\<And>c. is_whitespace c \<Longrightarrow> \<not> P c) \<Longrightarrow> filter P (trim s) = filter P s"
proof -
  assume P: "\<And>c. is_whitespace c \<Longrightarrow> \<not> P c"
  have "filter P (dropWhile is_whitespace t) = filter P t" for t by (induction t) (auto simp: P)
  then show ?thesis by (simp add: trim_def trim_start_def rev_filter [symmetric])
qed

lemma trim_ends: "trim s \<noteq> [] \<Longrightarrow> \<not> is_whitespace (hd (trim s)) \<and> \<not> is_whitespace (last (trim s))"
proof -
  assume n: "trim s \<noteq> []"
  let ?u = "dropWhile is_whitespace (rev (trim_start s))"
  have u: "?u \<noteq> []" "trim s = rev ?u" using n by (simp_all add: trim_def)
  then have "\<not> is_whitespace (last (trim s))" using hd_dropWhile [of is_whitespace] by (simp add: last_rev)
  moreover have "hd (trim s) = last ?u" using u by (simp add: hd_rev)
  moreover have "last ?u = last (rev (trim_start s))" using u(1) by (metis append_is_Nil_conv last_appendR takeWhile_dropWhile_id)
  moreover have t: "trim_start s \<noteq> []" using u(1) by auto
  then have "\<not> is_whitespace (hd (trim_start s))" unfolding trim_start_def by (rule hd_dropWhile)
  moreover have "last (rev (trim_start s)) = hd (trim_start s)" using t by (simp add: last_rev)
  ultimately show ?thesis by simp
qed

lemma trim_trim [simp]: "trim (trim s) = trim s"
  using trim_ends [of s] by (cases "trim s = []") (simp_all add: trim_id)

lemma split_on_subset: "p \<in> set (split_on c s) \<Longrightarrow> set p \<subseteq> set s"
proof (induction s arbitrary: p)
  case (Cons a s)
  then show ?case by (cases "split_on c s") (fastforce split: if_splits)+
qed simp

lemma str_lines_subset: "l \<in> set (str_lines s) \<Longrightarrow> set l \<subseteq> set s"
  using split_on_subset [OF last_in_set [OF split_on_not_Nil], of "CHR 0x0A" s]
  by (auto simp: str_lines_def Let_def strip_cr_def dest!: in_set_butlastD split_on_subset split: if_splits)

text \<open>The lines of a text that ends each of them with a line feed, trimmed as a whole.\<close>

lemma concat_lines: "ls \<noteq> [] \<Longrightarrow> concat (map (\<lambda>l. l @ [c]) ls) = join [c] ls @ [c]"
proof (induction ls)
  case (Cons l ls)
  then show ?case by (cases ls) simp_all
qed simp

lemma hd_last_join:
  "ls \<noteq> [] \<Longrightarrow> (\<And>l. l \<in> set ls \<Longrightarrow> l \<noteq> []) \<Longrightarrow> join sep ls \<noteq> [] \<and> hd (join sep ls) = hd (hd ls) \<and> last (join sep ls) = last (last ls)"
proof (induction sep ls rule: join.induct)
  case (3 sep x y zs)
  then show ?case by (cases x) auto
qed auto

lemma str_lines_of_lines:
  assumes l: "\<And>l. l \<in> set ls \<Longrightarrow> l \<noteq> [] \<and> \<not> is_whitespace (hd l) \<and> \<not> is_whitespace (last l) \<and> CHR 0x0A \<notin> set l"
  shows "str_lines (trim (concat (map (\<lambda>l. l @ [CHR 0x0A]) ls))) = ls"
proof (cases "ls = []")
  case False
  have nl: "is_whitespace (CHR 0x0A)" "is_whitespace (CHR 0x0D)" by (simp_all add: is_whitespace_def)
  have j: "join [CHR 0x0A] ls \<noteq> []" "hd (join [CHR 0x0A] ls) = hd (hd ls)" "last (join [CHR 0x0A] ls) = last (last ls)"
    using hd_last_join [OF False] l by blast+
  have "trim (concat (map (\<lambda>l. l @ [CHR 0x0A]) ls)) = join [CHR 0x0A] ls"
    unfolding concat_lines [OF False] trim_space_right [OF nl(1)] using False l j by (intro trim_id) simp_all
  moreover have "split_on (CHR 0x0A) (join [CHR 0x0A] ls) = ls" using split_on_join [OF False] l by blast
  moreover have "map strip_cr (butlast ls) = butlast ls"
  proof (intro map_idI)
    fix x assume "x \<in> set (butlast ls)"
    then have "\<not> is_whitespace (last x)" using l in_set_butlastD by fast
    then show "strip_cr x = x" using nl(2) by (auto simp: strip_cr_def)
  qed
  ultimately show ?thesis using False l [of "last ls"] by (simp add: str_lines_def Let_def)
qed (simp add: str_lines_def)

end
