(* ===== verification/Parse_Datetime.thy ===== *)
theory Parse_Datetime
  imports Rust_Std
begin

text \<open>
  \<open>sources/parse-datetime\<close>. Instants and durations are numbers of nanoseconds; the functions of
  \<open>chrono\<close> that the sources call are the fields of \<open>chrono_lib\<close>, with their documented behaviour as
  the locale \<open>chrono_library\<close>.
\<close>

section \<open>Definitions\<close>

type_synonym instant = int
type_synonym duration = int

record chrono_lib =
  parse_from_rfc3339 :: "string \<Rightarrow> instant option"
  try_hours :: "int \<Rightarrow> duration option"
  try_days :: "int \<Rightarrow> duration option"
  try_weeks :: "int \<Rightarrow> duration option"
  duration_div :: "duration \<Rightarrow> int \<Rightarrow> duration"

datatype datetime_error =
    DateArgInvalid string string
  | DateArgCount string

definition parse_unit :: "chrono_lib \<Rightarrow> string \<Rightarrow> string \<Rightarrow> u32 \<Rightarrow> datetime_error + duration" where
  "parse_unit lib input unit_str count =
     (if unit_str \<in> {''hour'', ''hours''} then
        ok_or (DateArgInvalid input ''date argument's hours unit must be a numerical value'') (try_hours lib (uint count))
      else if unit_str \<in> {''day'', ''days''} then
        ok_or (DateArgInvalid input ''date argument's days unit must be a numerical value'') (try_days lib (uint count))
      else if unit_str \<in> {''week'', ''weeks''} then
        ok_or (DateArgInvalid input ''date argument's weeks unit must be a numerical value'') (try_weeks lib (uint count))
      else Inl (DateArgInvalid input ''date argument's unit must be hours/days/weeks''))"

text \<open>The words are taken from the back of the vector, as \<open>parts.pop\<close> does.\<close>

definition parse_offset :: "chrono_lib \<Rightarrow> string \<Rightarrow> datetime_error + duration" where
  "parse_offset lib input =
     (let parts = split_whitespace input in
      and_then (ensure (length parts = 3 \<or> length parts = 2)
        (DateArgInvalid input (''expected RFC 3339, or something like 'in 7 days' or '7 days'' @ [CHR 0x27]))) (\<lambda>_.
      let unit_str = last parts; parts = butlast parts; count_str = last parts; parts = butlast parts in
      and_then (if parts = [] then Inr () else ensure (last parts = ''in'')
        (DateArgInvalid input (''expected prefix 'in', something like 'in 7 days'' @ [CHR 0x27]))) (\<lambda>_.
      and_then (ok_or (DateArgCount input) (parse_u32 count_str)) (\<lambda>count.
      parse_unit lib input unit_str count))))"

definition parse_datetime :: "chrono_lib \<Rightarrow> instant \<Rightarrow> string \<Rightarrow> datetime_error + instant" where
  "parse_datetime lib now input =
     (case parse_from_rfc3339 lib input of
        Some dt \<Rightarrow> Inr dt
      | None \<Rightarrow> and_then (parse_offset lib input) (\<lambda>offset. Inr (now + offset)))"

section \<open>The crate's documented behaviour\<close>

text \<open>
  The constructors of durations are exact on counts of 32 bits, and dividing a duration by a positive
  number loses at most the remainder.
\<close>

definition hour_ns :: duration where
  "hour_ns = 3600 * 1000000000"

definition unit_ns :: "string \<Rightarrow> duration option" where
  "unit_ns u =
     (if u \<in> {''hour'', ''hours''} then Some hour_ns
      else if u \<in> {''day'', ''days''} then Some (24 * hour_ns)
      else if u \<in> {''week'', ''weeks''} then Some (7 * 24 * hour_ns) else None)"

locale chrono_library =
  fixes lib :: chrono_lib
  assumes try_hours_exact: "0 \<le> n \<Longrightarrow> n < 2 ^ 32 \<Longrightarrow> try_hours lib n = Some (n * hour_ns)"
    and try_days_exact: "0 \<le> n \<Longrightarrow> n < 2 ^ 32 \<Longrightarrow> try_days lib n = Some (n * 24 * hour_ns)"
    and try_weeks_exact: "0 \<le> n \<Longrightarrow> n < 2 ^ 32 \<Longrightarrow> try_weeks lib n = Some (n * 7 * 24 * hour_ns)"
    and duration_div_le: "0 \<le> d \<Longrightarrow> 0 < n \<Longrightarrow> 0 \<le> duration_div lib d n \<and> duration_div lib d n * n \<le> d"
    and duration_div_exact: "0 \<le> d \<Longrightarrow> 0 < n \<Longrightarrow> n dvd d \<Longrightarrow> duration_div lib d n * n = d"
begin

lemma uint_u32: "0 \<le> uint (c :: u32)" "uint (c :: u32) < 2 ^ 32"
  using unsigned_less [of c, where ?'a = int] by simp_all

lemma parse_unit_known: "unit_ns u = Some d \<Longrightarrow> parse_unit lib input u c = Inr (uint c * d)"
  using uint_u32 [of c]
  by (auto simp: parse_unit_def unit_ns_def ok_or_def try_hours_exact try_days_exact try_weeks_exact split: if_splits)

lemma parse_unit_unknown: "unit_ns u = None \<Longrightarrow> \<not> is_ok (parse_unit lib input u c)"
  by (auto simp: parse_unit_def unit_ns_def split: if_splits)

lemma parse_offset_words:
  assumes "split_whitespace input = ws @ [n, u]" "ws = [] \<or> ws = [''in'']"
    and "parse_u32 n = Some c" "unit_ns u = Some d"
  shows "parse_offset lib input = Inr (uint c * d)"
  using assms by (auto simp: parse_offset_def ensure_def ok_or_def parse_unit_known)

lemma parse_offset_Ok:
  assumes "parse_offset lib input = Inr t"
  shows "\<exists>ws n u c d. split_whitespace input = ws @ [n, u] \<and> ws \<in> {[], [''in'']} \<and> parse_u32 n = Some c
    \<and> unit_ns u = Some d \<and> t = uint c * d"
proof -
  have "length (split_whitespace input) = 3 \<or> length (split_whitespace input) = 2"
    using assms by (auto simp: parse_offset_def ensure_def Let_def result_simps split: if_splits)
  then have "\<exists>ws n u. split_whitespace input = ws @ [n, u] \<and> (ws = [] \<or> (\<exists>x. ws = [x]))"
    by (auto simp: numeral_eq_Suc length_Suc_conv)
  then obtain ws n u where w: "split_whitespace input = ws @ [n, u]" "ws = [] \<or> (\<exists>x. ws = [x])" by blast
  obtain c where c: "parse_u32 n = Some c" "parse_unit lib input u c = Inr t" "ws = [] \<or> ws = [''in'']"
    using assms w by (auto simp: parse_offset_def ensure_def Let_def result_simps split: if_splits)
  obtain d where d: "unit_ns u = Some d" using c(2) parse_unit_unknown [of u input c] by fastforce
  show ?thesis using w c d parse_unit_known [OF d, of input c] by auto
qed

end

interpretation chrono_exact: chrono_library
  "\<lparr>parse_from_rfc3339 = \<lambda>_. None, try_hours = \<lambda>n. Some (n * hour_ns), try_days = \<lambda>n. Some (n * 24 * hour_ns),
    try_weeks = \<lambda>n. Some (n * 7 * 24 * hour_ns), duration_div = (\<lambda>d n. d div n)\<rparr>"
  by unfold_locales (simp_all add: pos_imp_zdiv_nonneg_iff minus_mod_eq_div_mult [symmetric])

section \<open>Properties\<close>



end
