(* ===== verification/Update_Metadata.thy ===== *)
theory Update_Metadata
  imports Parse_Datetime
begin

text \<open>
  \<open>sources/updater/update_metadata\<close>: the update manifest, its waves and its migrations. Versions
  (\<open>semver::Version\<close>) are any linearly ordered type; a \<open>BTreeMap\<close> is the list of its entries in key
  order.
\<close>

section \<open>Definitions\<close>

definition MAX_SEED :: u32 where
  "MAX_SEED = 2048"

datatype wave =
    Initial (end_time: instant) (end_seed: u32)
  | General (start_time: instant) (end_time: instant) (start_seed: u32) (end_seed: u32)
  | Last (start_time: instant) (start_seed: u32)

fun has_started :: "wave \<Rightarrow> instant \<Rightarrow> bool" where
  "has_started (Initial _ _) time = True"
| "has_started (General s _ _ _) time \<longleftrightarrow> s \<le> time"
| "has_started (Last s _) time \<longleftrightarrow> s \<le> time"

fun has_passed :: "wave \<Rightarrow> instant \<Rightarrow> bool" where
  "has_passed (Initial e _) time \<longleftrightarrow> e \<le> time"
| "has_passed (General _ e _ _) time \<longleftrightarrow> e \<le> time"
| "has_passed (Last s _) time \<longleftrightarrow> s \<le> time"

record update_wave_spec =
  start_after :: string
  fleet_percentage :: u32

record images =
  boot_image :: string
  root_image :: string
  hash_image :: string

record 'v update =
  variant :: string
  arch :: string
  version :: 'v
  max_version :: 'v
  waves :: "(u32, instant) btree"
  update_images :: images

record 'v manifest =
  updates :: "'v update list"
  migrations :: "('v \<times> 'v, string list) btree"

text \<open>Causes from other crates and backtraces are left out of the payloads.\<close>

datatype 'v metadata_error =
    BadBound string
  | BadBoundKey string
  | BadVersion string
  | BadDataVersionsFromTo string
  | BadMapVersion string string
  | BadRegexVersion string
  | BadRegexName string
  | BadOffset string datetime_error
  | DuplicateKeyId u32
  | DuplicateVersionKey string
  | ManifestParse
  | ManifestRead string
  | FileRead string
  | FileWrite string
  | InvalidToml string
  | MigrationInvalidTarget string 'v 'v
  | MigrationNaming
  | MigrationMutable 'v 'v
  | MissingMigration 'v 'v
  | UpdateSerialize
  | WavesUnordered
  | InvalidFleetPercentage u32

subsection \<open>Manifest\<close>

definition update_matches :: "string option \<Rightarrow> string option \<Rightarrow> 'v update \<Rightarrow> bool" where
  "update_matches a v u =
     (case (a, v) of
        (Some a, Some v) \<Rightarrow> arch u = a \<and> variant u = v
      | (Some a, None) \<Rightarrow> arch u = a
      | (None, Some v) \<Rightarrow> variant u = v
      | (None, None) \<Rightarrow> True)"

definition update_max_version ::
  "'v \<Rightarrow> string option \<Rightarrow> string option \<Rightarrow> 'v manifest \<Rightarrow> 'v manifest" where
  "update_max_version ver a v m =
     m\<lparr>updates := map (\<lambda>u. if update_matches a v u then u\<lparr>max_version := ver\<rparr> else u) (updates m)\<rparr>"

definition add_update ::
  "'v::linorder \<Rightarrow> 'v option \<Rightarrow> string \<Rightarrow> string \<Rightarrow> images \<Rightarrow> 'v manifest \<Rightarrow> 'v manifest" where
  "add_update image_version maxv a v imgs m =
     (let maxv = (case maxv of
                    Some ver \<Rightarrow> ver
                  | None \<Rightarrow> (case updates m of u # _ \<Rightarrow> max image_version (max_version u) | [] \<Rightarrow> image_version));
          update = \<lparr>variant = v, arch = a, version = image_version, max_version = maxv, waves = [],
                    update_images = imgs\<rparr>;
          m = update_max_version maxv (Some a) (Some v) m
      in m\<lparr>updates := updates m @ [update]\<rparr>)"

fun ascending_times :: "(u32, instant) btree \<Rightarrow> bool" where
  "ascending_times ((_, t) # (s, t') # ws) \<longleftrightarrow> t < t' \<and> ascending_times ((s, t') # ws)"
| "ascending_times _ \<longleftrightarrow> True"

fun validate_updates :: "'v update list \<Rightarrow> 'v metadata_error + unit" where
  "validate_updates [] = Inr ()"
| "validate_updates (u # us) =
     and_then (ensure (ascending_times (waves u)) WavesUnordered) (\<lambda>_. validate_updates us)"

definition matching_update :: "string \<Rightarrow> string \<Rightarrow> 'v \<Rightarrow> 'v update \<Rightarrow> bool" where
  "matching_update v a ver u \<longleftrightarrow> arch u = a \<and> variant u = v \<and> version u = ver"

definition percent_seed :: "u32 \<Rightarrow> u32" where
  "percent_seed p = of_int (f32_scale_trunc (f32_div (uint p) 100) (uint MAX_SEED))"

text \<open>The inner loop of \<open>set_waves\<close>: the map built so far survives a failing wave.\<close>

fun wave_entries ::
  "chrono_lib \<Rightarrow> instant \<Rightarrow> u32 \<Rightarrow> update_wave_spec list \<Rightarrow> (u32, instant) btree
     \<Rightarrow> (u32, instant) btree \<times> ('v metadata_error + unit)" where
  "wave_entries lib start_at seed [] m = (m, Inr ())"
| "wave_entries lib start_at seed (w # ws) m =
     (if \<not> (fleet_percentage w > 0 \<and> fleet_percentage w \<le> 100)
      then (m, Inl (InvalidFleetPercentage (fleet_percentage w)))
      else case parse_offset lib (start_after w) of
             Inl e \<Rightarrow> (m, Inl (BadOffset (start_after w) e))
           | Inr offset \<Rightarrow>
               wave_entries lib start_at (percent_seed (fleet_percentage w)) ws (bt_insert seed (start_at + offset) m))"

text \<open>The loop over the matching updates; an error leaves the remaining ones alone.\<close>

fun set_waves_loop ::
  "chrono_lib \<Rightarrow> ('v update \<Rightarrow> bool) \<Rightarrow> instant \<Rightarrow> update_wave_spec list \<Rightarrow> 'v update list
     \<Rightarrow> 'v update list \<times> ('v metadata_error + unit)" where
  "set_waves_loop lib matching start_at ws [] = ([], Inr ())"
| "set_waves_loop lib matching start_at ws (u # us) =
     (if matching u then
        (case wave_entries lib start_at 0 ws [] of
           (m, Inl e) \<Rightarrow> (u\<lparr>waves := m\<rparr> # us, Inl e)
         | (m, Inr _) \<Rightarrow>
             (case set_waves_loop lib matching start_at ws us of (us', r) \<Rightarrow> (u\<lparr>waves := m\<rparr> # us', r)))
      else (case set_waves_loop lib matching start_at ws us of (us', r) \<Rightarrow> (u # us', r)))"

definition set_waves ::
  "chrono_lib \<Rightarrow> string \<Rightarrow> string \<Rightarrow> 'v \<Rightarrow> instant \<Rightarrow> update_wave_spec list \<Rightarrow> 'v manifest
     \<Rightarrow> 'v manifest \<times> ('v metadata_error + nat)" where
  "set_waves lib v a ver start_at ws m =
     (case set_waves_loop lib (matching_update v a ver) start_at ws (updates m) of
        (us, Inl e) \<Rightarrow> (m\<lparr>updates := us\<rparr>, Inl e)
      | (us, Inr _) \<Rightarrow>
          (m\<lparr>updates := us\<rparr>,
           and_then (validate_updates us) (\<lambda>_. Inr (length (filter (matching_update v a ver) (updates m))))))"

subsection \<open>Waves\<close>

text \<open>\<open>BTreeMap::range\<close> panics when the start of the range is above its end: \<open>None\<close>.\<close>

definition update_wave :: "'v update \<Rightarrow> u32 \<Rightarrow> wave option option" where
  "update_wave u seed =
     (if seed > MAX_SEED then None else
      let before = filter (\<lambda>(k, _). k < seed) (waves u);
          from = filter (\<lambda>(k, _). seed \<le> k \<and> k \<le> MAX_SEED) (waves u);
          start_wave = (if before = [] then None else Some (last before));
          end_wave = (case from of [] \<Rightarrow> None | e # _ \<Rightarrow> Some e)
      in Some (case (start_wave, end_wave) of
                 (None, Some (es, et)) \<Rightarrow> Some (Initial et es)
               | (Some (ss, st), Some (es, et)) \<Rightarrow> Some (General st et ss es)
               | (Some (ss, st), None) \<Rightarrow> Some (Last st ss)
               | (None, None) \<Rightarrow> None))"

text \<open>\<open>as i32\<close> reinterprets the bits.\<close>

definition target_time :: "chrono_lib \<Rightarrow> instant \<Rightarrow> instant \<Rightarrow> int \<Rightarrow> u32 \<Rightarrow> instant" where
  "target_time lib st et num_seeds seed = st + duration_div lib (et - st) num_seeds * sint seed"

definition update_ready :: "chrono_lib \<Rightarrow> 'v update \<Rightarrow> u32 \<Rightarrow> instant \<Rightarrow> bool option" where
  "update_ready lib u seed time =
     (case update_wave u seed of
        None \<Rightarrow> None
      | Some None \<Rightarrow> Some True
      | Some (Some wave) \<Rightarrow>
          Some (if has_passed wave time then True
                else if \<not> has_started wave time then False
                else case wave of
                       General st et ss es \<Rightarrow>
                         let num_seeds = sint (es - ss) in
                         if num_seeds = 0 then True else time \<ge> target_time lib st et num_seeds seed
                     | _ \<Rightarrow> True))"

subsection \<open>Migrations\<close>

definition transitions :: "'v::linorder manifest \<Rightarrow> 'v \<Rightarrow> 'v \<Rightarrow> ('v \<times> 'v) list" where
  "transitions m ver target =
     rev (sort_key snd (filter (\<lambda>(f, t). f = ver \<and> t \<le> target) (map fst (migrations m))))"

text \<open>The loop need not end: \<open>None\<close>.\<close>

partial_function (option) migrations_loop ::
  "'v::linorder manifest \<Rightarrow> 'v \<Rightarrow> 'v \<Rightarrow> string list \<Rightarrow> ('v metadata_error + string list) option" where
  "migrations_loop m target ver targets =
     (if ver = target then Some (Inr targets)
      else case transitions m ver target of
             transition # _ \<Rightarrow>
               migrations_loop m target (snd transition)
                 (targets @ (case bt_get transition (migrations m) of Some ms \<Rightarrow> ms | None \<Rightarrow> []))
           | [] \<Rightarrow> Some (Inl (MissingMigration ver target)))"

declare migrations_loop.simps [code]

definition find_migrations_forward ::
  "'v::linorder \<Rightarrow> 'v \<Rightarrow> 'v manifest \<Rightarrow> ('v metadata_error + string list) option" where
  "find_migrations_forward from to m = migrations_loop m to from []"

definition find_migrations ::
  "'v::linorder \<Rightarrow> 'v \<Rightarrow> 'v manifest \<Rightarrow> ('v metadata_error + string list) option" where
  "find_migrations from to m =
     (if from = to then Some (Inr [])
      else let (lower, higher, is_reversed) = (if from \<le> to then (from, to, False) else (to, from, True)) in
           map_option (\<lambda>r. and_then r (\<lambda>ms. Inr (if is_reversed then rev ms else ms)))
             (find_migrations_forward lower higher m))"

subsection \<open>de.rs and se.rs\<close>

text \<open>
  The entries of a JSON object in order. \<open>captures\<close> is the regular expression of \<open>parse_versions\<close>,
  \<open>parse_version\<close> and \<open>show_version\<close> are \<open>serde_plain\<close> at \<open>semver::Version\<close>.
\<close>

fun deserialize_bound :: "(u32, instant) btree \<Rightarrow> (string \<times> instant) list \<Rightarrow> 'v metadata_error + (u32, instant) btree" where
  "deserialize_bound m [] = Inr m"
| "deserialize_bound m ((key, time) # es) =
     and_then (ok_or (BadBound key) (parse_u32 key)) (\<lambda>bound.
     and_then (ensure (bt_get bound m = None) (DuplicateKeyId bound)) (\<lambda>_.
     deserialize_bound (bt_insert bound time m) es))"

definition parse_versions :: "(string \<Rightarrow> (string \<times> string) option) \<Rightarrow> string \<Rightarrow> 'v metadata_error + string \<times> string" where
  "parse_versions captures key = ok_or (BadDataVersionsFromTo key) (captures key)"

definition parse_tuple_key ::
  "(string \<Rightarrow> (string \<times> string) option) \<Rightarrow> (string \<Rightarrow> 'v::linorder option) \<Rightarrow> string \<Rightarrow> string list
     \<Rightarrow> ('v \<times> 'v, string list) btree \<Rightarrow> 'v metadata_error + ('v \<times> 'v, string list) btree" where
  "parse_tuple_key captures parse_version key list m =
     and_then (parse_versions captures key) (\<lambda>(from, to).
     case (parse_version from, parse_version to) of
       (Some f, Some t) \<Rightarrow>
         and_then (ensure (bt_get (f, t) m = None) (DuplicateVersionKey key)) (\<lambda>_. Inr (bt_insert (f, t) list m))
     | _ \<Rightarrow> Inl (BadDataVersionsFromTo (from @ '', '' @ to)))"

fun deserialize_migration ::
  "(string \<Rightarrow> (string \<times> string) option) \<Rightarrow> (string \<Rightarrow> 'v::linorder option) \<Rightarrow> ('v \<times> 'v, string list) btree
     \<Rightarrow> (string \<times> string list) list \<Rightarrow> 'v metadata_error + ('v \<times> 'v, string list) btree" where
  "deserialize_migration captures parse_version m [] = Inr m"
| "deserialize_migration captures parse_version m ((key, list) # es) =
     and_then (parse_tuple_key captures parse_version key list m) (\<lambda>m.
     deserialize_migration captures parse_version m es)"

definition migration_key :: "('v \<Rightarrow> string) \<Rightarrow> 'v \<times> 'v \<Rightarrow> string" where
  "migration_key show_version k = ''('' @ show_version (fst k) @ '', '' @ show_version (snd k) @ '')''"

definition serialize_migration ::
  "('v \<Rightarrow> string) \<Rightarrow> ('v \<times> 'v, string list) btree \<Rightarrow> (string \<times> string list) list" where
  "serialize_migration show_version value =
     fold (\<lambda>(k, v) m. bt_insert (migration_key show_version k) v m) value []"

section \<open>Waves\<close>

lemma sint_small: "w \<le> MAX_SEED \<Longrightarrow> sint w = uint w"
proof -
  assume "w \<le> MAX_SEED"
  then have "uint w \<le> 2048" by (simp add: word_le_def MAX_SEED_def)
  then have "uint w < 2 ^ 31" by simp
  moreover have "- 2147483648 \<le> uint w" using uint_ge_0 [of w] by linarith
  ultimately show ?thesis by (simp add: sint_uint signed_take_bit_int_eq_self_iff)
qed

lemma filter_last_mem: "filter P xs \<noteq> [] \<Longrightarrow> last (filter P xs) \<in> set xs \<and> P (last (filter P xs))"
  using last_in_set [of "filter P xs"] by simp

lemma update_wave_General:
  assumes "update_wave u seed = Some (Some (General st et ss es))"
  shows "ss < seed" "seed \<le> es" "es \<le> MAX_SEED" "seed \<le> MAX_SEED" "(ss, st) \<in> set (waves u)" "(es, et) \<in> set (waves u)"
proof -
  let ?b = "filter (\<lambda>(k, _). k < seed) (waves u)"
  let ?f = "filter (\<lambda>(k, _). seed \<le> k \<and> k \<le> MAX_SEED) (waves u)"
  have s: "\<not> seed > MAX_SEED" "?b \<noteq> []" "last ?b = (ss, st)" "\<exists>r. ?f = (es, et) # r"
    using assms by (cases "last ?b"; auto simp: update_wave_def Let_def split: if_splits option.splits list.splits)+
  have "(ss, st) \<in> set ?b" using s(2,3) by (metis last_in_set)
  moreover have "(es, et) \<in> set ?f" using s(4) by (metis list.set_intros(1))
  ultimately show "ss < seed" "seed \<le> es" "es \<le> MAX_SEED" "seed \<le> MAX_SEED" "(ss, st) \<in> set (waves u)" "(es, et) \<in> set (waves u)"
    using s(1) by auto
qed

lemma wave_times_mem:
  assumes "update_wave u seed = Some (Some w)"
  shows "\<exists>e. e \<in> set (waves u) \<and> (snd e \<le> time \<longrightarrow> has_passed w time)"
proof -
  let ?b = "filter (\<lambda>(k, _). k < seed) (waves u)"
  let ?f = "filter (\<lambda>(k, _). seed \<le> k \<and> k \<le> MAX_SEED) (waves u)"
  have "(\<exists>e r. ?f = e # r \<and> (snd e \<le> time \<longrightarrow> has_passed w time)) \<or>
        (?b \<noteq> [] \<and> (snd (last ?b) \<le> time \<longrightarrow> has_passed w time))"
    using assms
    by (cases "last ?b") (auto simp: update_wave_def Let_def split: if_splits option.splits list.splits)
  moreover have "?b \<noteq> [] \<Longrightarrow> last ?b \<in> set (waves u)" using filter_last_mem by blast
  moreover have "?f = e # r \<Longrightarrow> e \<in> set (waves u)" for e r
    by (drule arg_cong [where f = set]) auto
  ultimately show ?thesis by blast
qed

lemma update_wave_defined: "update_wave u seed = None \<longleftrightarrow> seed > MAX_SEED"
  by (simp add: update_wave_def Let_def)

lemma has_passed_mono: "has_passed w t \<Longrightarrow> t \<le> t' \<Longrightarrow> has_passed w t'"
  by (cases w) auto

lemma has_started_mono: "has_started w t \<Longrightarrow> t \<le> t' \<Longrightarrow> has_started w t'"
  by (cases w) auto

lemma update_ready_mono:
  "update_ready lib u seed t = Some True \<Longrightarrow> t \<le> t' \<Longrightarrow> update_ready lib u seed t' = Some True"
  using has_passed_mono [of _ t t'] has_started_mono [of _ t t']
  by (auto simp: update_ready_def Let_def split: option.splits wave.splits if_splits)

lemma update_ready_final:
  assumes "seed \<le> MAX_SEED" "\<And>k t. (k, t) \<in> set (waves u) \<Longrightarrow> t \<le> time"
  shows "update_ready lib u seed time = Some True"
proof (cases "update_wave u seed")
  case None
  then show ?thesis using assms(1) by (simp add: update_wave_defined)
next
  case (Some w)
  then show ?thesis
    using assms(2) wave_times_mem [of u seed _ time]
    by (cases w) (fastforce simp: update_ready_def)+
qed

lemma wave_seeds:
  assumes "update_wave u seed = Some (Some (General st et ss es))"
  shows "sint (es - ss) = uint es - uint ss" "sint seed = uint seed" "0 < uint es - uint ss" "uint ss < uint seed"
proof -
  note w = update_wave_General [OF assms]
  have "ss < es" using w(1,2) by simp
  then have d: "uint (es - ss) = uint es - uint ss" by (simp add: uint_sub_if' word_less_def)
  have "es - ss \<le> MAX_SEED"
    using w(3) uint_ge_0 [of ss] unfolding word_le_def d by linarith
  then show "sint (es - ss) = uint es - uint ss" by (simp add: sint_small d)
  show "sint seed = uint seed" by (rule sint_small [OF w(4)])
  show "0 < uint es - uint ss" using \<open>ss < es\<close> by (simp add: word_less_def)
  show "uint ss < uint seed" using w(1) by (simp add: word_less_def)
qed

context chrono_library
begin

lemma ready_only_when_passed:
  assumes "update_wave u seed = Some (Some (General st et ss es))" "st < et"
    and "uint es - uint ss \<le> uint ss" "(uint es - uint ss) dvd (et - st)"
  shows "update_ready lib u seed t = Some (et \<le> t)"
proof -
  note w = wave_seeds [OF assms(1)]
  let ?n = "uint es - uint ss"
  let ?d = "duration_div lib (et - st) ?n"
  have d: "?d * ?n = et - st" using w(3) assms(2,4) by (intro duration_div_exact) auto
  have "0 \<le> ?d" using duration_div_le w(3) assms(2) by simp
  then have "?d * ?n \<le> ?d * uint seed" using w(4) assms(3) by (intro mult_left_mono) auto
  then have "et \<le> target_time lib st et ?n seed" using d w(2) by (simp add: target_time_def)
  then show ?thesis using assms(1) w(1,3) by (auto simp: update_ready_def Let_def)
qed

lemma target_within_first_wave:
  assumes "update_wave u seed = Some (Some (General st et 0 es))" "st < et"
  shows "st \<le> target_time lib st et (uint es) seed" "target_time lib st et (uint es) seed \<le> et"
proof -
  note w = wave_seeds [OF assms(1)] update_wave_General [OF assms(1)]
  let ?d = "duration_div lib (et - st) (uint es)"
  have d: "0 \<le> ?d" "?d * uint es \<le> et - st" using duration_div_le w(3) assms(2) by simp_all
  have "?d * uint seed \<le> ?d * uint es" using d(1) w(6) by (intro mult_left_mono) (simp_all add: word_le_def)
  then show "st \<le> target_time lib st et (uint es) seed" "target_time lib st et (uint es) seed \<le> et"
    using d w(2) by (simp_all add: target_time_def)
qed

end

section \<open>Migrations\<close>

text \<open>A path of transitions of the manifest and the migrations it runs, in order.\<close>

inductive migration_path :: "'v::linorder manifest \<Rightarrow> 'v \<Rightarrow> 'v \<Rightarrow> string list \<Rightarrow> bool" for m where
  path_done: "migration_path m a a []"
| path_step: "bt_get (a, b) (migrations m) = Some ms \<Longrightarrow> migration_path m b c rest \<Longrightarrow>
    migration_path m a c (ms @ rest)"

inductive_cases path_from: "migration_path m a c ms"

lemma path_run: "migration_path m a b ms \<Longrightarrow> migration_path m b c ns \<Longrightarrow> migration_path m a c (ms @ ns)"
  by (induction rule: migration_path.induct) (auto intro: migration_path.intros)

text \<open>Every transition of the manifest goes up.\<close>

definition forward_only :: "'v::linorder manifest \<Rightarrow> bool" where
  "forward_only m \<longleftrightarrow> (\<forall>(f, t) \<in> set (map fst (migrations m)). f < t)"

lemma transitions_set:
  "set (transitions m ver target) = {(f, t). (f, t) \<in> set (map fst (migrations m)) \<and> f = ver \<and> t \<le> target}"
  by (auto simp: transitions_def)

lemma transitions_Cons:
  assumes "transitions m ver target = tr # rest"
  shows "fst tr = ver" "snd tr \<le> target" "tr \<in> set (map fst (migrations m))" "\<exists>ms. bt_get (ver, snd tr) (migrations m) = Some ms"
proof -
  have "tr \<in> set (transitions m ver target)" by (simp add: assms)
  then show t: "fst tr = ver" "snd tr \<le> target" "tr \<in> set (map fst (migrations m))"
    unfolding transitions_set by auto
  then have "tr = (ver, snd tr)" by (metis prod.collapse)
  then have "(ver, snd tr) \<in> set (map fst (migrations m))" using t(3) by simp
  then show "\<exists>ms. bt_get (ver, snd tr) (migrations m) = Some ms"
    unfolding bt_get_def by (metis list.set_map map_of_eq_None_iff option.exhaust)
qed

lemma transitions_highest:
  assumes "transitions m ver target = tr # rest" "(ver, t) \<in> set (map fst (migrations m))" "t \<le> target"
  shows "t \<le> snd tr"
proof -
  let ?l = "sort_key snd (filter (\<lambda>(f, t). f = ver \<and> t \<le> target) (map fst (migrations m)))"
  have "sorted_wrt (\<ge>) (map snd (transitions m ver target))"
    unfolding transitions_def by (simp add: rev_map [symmetric] sorted_wrt_rev)
  moreover have "(ver, t) \<in> set (transitions m ver target)" unfolding transitions_set using assms(2,3) by simp
  ultimately show ?thesis unfolding assms(1) by auto
qed

lemma migrations_loop_sound:
  assumes "migrations_loop m target ver acc = Some (Inr r)"
  shows "\<exists>rest. r = acc @ rest \<and> migration_path m ver target rest"
proof -
  have "migrations_loop m target ver acc = Some x \<Longrightarrow>
    x = Inr r \<Longrightarrow> \<exists>rest. r = acc @ rest \<and> migration_path m ver target rest" for x
  proof (induction arbitrary: r rule: migrations_loop.raw_induct [rotated, consumes 1, case_names step])
    case (step loop m target ver acc x)
    show ?case
    proof (cases "ver = target")
      case True
      then show ?thesis using step.hyps step.prems by (auto intro: path_done)
    next
      case False
      then obtain tr l where tr: "transitions m ver target = tr # l"
        using step.hyps step.prems by (auto split: list.splits)
      obtain ms where ms: "bt_get (ver, snd tr) (migrations m) = Some ms" using transitions_Cons(4) [OF tr] by blast
      have "tr = (ver, snd tr)" using transitions_Cons(1) [OF tr] by (metis prod.collapse)
      then have "bt_get tr (migrations m) = Some ms" using ms by simp
      then have "loop m target (snd tr) (acc @ ms) = Some x" using step.hyps False tr by simp
      from step.IH [OF this step.prems] obtain rest where "r = (acc @ ms) @ rest" "migration_path m (snd tr) target rest"
        by blast
      then show ?thesis using path_step [OF ms] by auto
    qed
  qed
  then show ?thesis using assms by blast
qed

text \<open>With transitions that all go up, each round raises the version to one of finitely many.\<close>

lemma migrations_loop_returns:
  assumes "forward_only m"
  shows "\<exists>r. migrations_loop m target ver acc = Some r"
proof (induction "card {t \<in> snd ` set (map fst (migrations m)). ver < t}" arbitrary: ver acc rule: less_induct)
  case less
  show ?case
  proof (cases "ver = target \<or> transitions m ver target = []")
    case True
    then show ?thesis by (subst migrations_loop.simps) auto
  next
    case False
    then obtain tr l where tr: "transitions m ver target = tr # l" by (cases "transitions m ver target") auto
    note t = transitions_Cons [OF tr]
    have up: "ver < snd tr" using assms t(1,3) by (cases tr) (auto simp: forward_only_def)
    let ?T = "\<lambda>v. {t \<in> snd ` set (map fst (migrations m)). v < t}"
    have "?T (snd tr) \<subset> ?T ver"
    proof
      show "?T (snd tr) \<subseteq> ?T ver" using up by auto
      have "snd tr \<in> ?T ver" using up t(3) by auto
      then show "?T (snd tr) \<noteq> ?T ver" by auto
    qed
    then have "card (?T (snd tr)) < card (?T ver)" by (intro psubset_card_mono) simp_all
    from less [OF this] show ?thesis
      using False tr by (subst migrations_loop.simps) auto
  qed
qed

lemma find_migrations_up: "a < b \<Longrightarrow> find_migrations a b m = migrations_loop m b a []"
  by (auto simp: find_migrations_def find_migrations_forward_def and_then_def option.map_ident
      split: option.splits sum.splits) (simp add: option.map_ident_strong sum.case_eq_if)

lemma find_migrations_down:
  "b < a \<Longrightarrow> find_migrations a b m = map_option (map_sum id rev) (find_migrations b a m)"
  by (cases "find_migrations_forward b a m")
     (auto simp: find_migrations_def and_then_def map_sum_def Let_def split: sum.splits)

lemma find_migrations_path:
  assumes "forward_only m"
  shows "\<exists>r. find_migrations a b m = Some r \<and>
    (\<forall>ms. r = Inr ms \<longrightarrow> (if a \<le> b then migration_path m a b ms else migration_path m b a (rev ms)))"
proof (cases a b rule: linorder_cases)
  case less
  then show ?thesis
    using migrations_loop_returns [OF assms, of b a "[]"] migrations_loop_sound [of m b a "[]"]
    by (auto simp: find_migrations_up)
next
  case equal
  then show ?thesis by (simp add: find_migrations_def path_done)
next
  case greater
  obtain r where r: "migrations_loop m a b [] = Some r" using migrations_loop_returns [OF assms] by blast
  then have "find_migrations a b m = Some (map_sum id rev r)"
    using greater by (simp add: find_migrations_down find_migrations_up)
  moreover have "r = Inr ms \<Longrightarrow> migration_path m b a ms" for ms
    using migrations_loop_sound [of m a b "[]" ms] r by simp
  ultimately show ?thesis using greater by (cases r) auto
qed

text \<open>A transition from a version to itself that is the highest one makes the loop spin.\<close>

lemma migrations_loop_spins:
  assumes "ver \<noteq> target" "transitions m ver target = (ver, ver) # l"
  shows "migrations_loop m target ver acc = None"
proof -
  have "migrations_loop m' target' ver' acc = Some x \<Longrightarrow> m' = m \<Longrightarrow> target' = target \<Longrightarrow> ver' = ver \<Longrightarrow> False"
    for m' target' ver' x
  proof (induction rule: migrations_loop.raw_induct [rotated, consumes 1, case_names step])
    case (step loop m' target' ver' acc x)
    then show ?case using assms by auto
  qed
  then show ?thesis by (metis not_None_eq)
qed

section \<open>Adding updates\<close>

text \<open>Updates for one architecture and variant agree on the maximum version.\<close>

definition uniform_max :: "'v manifest \<Rightarrow> bool" where
  "uniform_max m \<longleftrightarrow> (\<forall>u \<in> set (updates m). \<forall>u' \<in> set (updates m).
     arch u = arch u' \<longrightarrow> variant u = variant u' \<longrightarrow> max_version u = max_version u')"

lemma update_max_version_uniform:
  assumes "uniform_max m"
  shows "uniform_max (update_max_version ver (Some a) (Some v) m)"
    and "u \<in> set (updates (update_max_version ver (Some a) (Some v) m)) \<Longrightarrow> arch u = a \<Longrightarrow> variant u = v \<Longrightarrow> max_version u = ver"
proof -
  define f where "f u = (if arch u = a \<and> variant u = v then u\<lparr>max_version := ver\<rparr> else u)" for u :: "'a update"
  have us: "updates (update_max_version ver (Some a) (Some v) m) = map f (updates m)"
    by (simp add: update_max_version_def update_matches_def f_def)
  have f: "arch (f x) = arch x" "variant (f x) = variant x"
    "max_version (f x) = (if arch x = a \<and> variant x = v then ver else max_version x)" for x
    by (simp_all add: f_def)
  show "uniform_max (update_max_version ver (Some a) (Some v) m)"
    unfolding uniform_max_def us set_map ball_simps f using assms unfolding uniform_max_def by metis
  show "u \<in> set (updates (update_max_version ver (Some a) (Some v) m)) \<Longrightarrow> arch u = a \<Longrightarrow> variant u = v \<Longrightarrow> max_version u = ver"
    unfolding us set_map using f by force
qed

lemma uniform_max_append:
  assumes "uniform_max m" "\<And>u. u \<in> set (updates m) \<Longrightarrow> arch u = arch n \<Longrightarrow> variant u = variant n \<Longrightarrow> max_version u = max_version n"
  shows "uniform_max (m\<lparr>updates := updates m @ [n]\<rparr>)"
proof (unfold uniform_max_def, intro ballI impI)
  fix u u'
  assume u: "u \<in> set (updates (m\<lparr>updates := updates m @ [n]\<rparr>))" "u' \<in> set (updates (m\<lparr>updates := updates m @ [n]\<rparr>))"
    and e: "arch u = arch u'" "variant u = variant u'"
  then consider "u = n" "u' = n" | "u = n" "u' \<in> set (updates m)" | "u \<in> set (updates m)" "u' = n"
    | "u \<in> set (updates m)" "u' \<in> set (updates m)" by auto
  then show "max_version u = max_version u'"
  proof cases
    case 2
    then show ?thesis using assms(2) [of u'] e by simp
  next
    case 3
    then show ?thesis using assms(2) [of u] e by simp
  next
    case 4
    then show ?thesis using assms(1) e unfolding uniform_max_def by blast
  qed simp
qed

lemma add_update_uniform:
  assumes "uniform_max m"
  shows "uniform_max (add_update ver maxv a v imgs m)"
  unfolding add_update_def Let_def
  by (rule uniform_max_append [OF update_max_version_uniform(1) [OF assms]])
     (rule trans [OF update_max_version_uniform(2) [OF assms]], simp_all)

section \<open>Setting waves\<close>

lemma percent_seed_table:
  "list_all (\<lambda>p. f32_scale_trunc (f32_div p 100) 2048 = p * 2048 div 100) [1..100]"
  by code_simp

lemma percent_seed_exact_int:
  assumes "0 < p" "p \<le> 100"
  shows "percent_seed p = of_int (uint p * 2048 div 100)"
proof -
  have "uint p \<in> set [1..100]"
    using assms by (auto simp: word_less_def word_le_def)
  then show ?thesis using percent_seed_table by (simp add: percent_seed_def MAX_SEED_def list_all_iff)
qed

lemma validate_updates_Ok: "validate_updates us = Inr () \<longleftrightarrow> (\<forall>u \<in> set us. ascending_times (waves u))"
  by (induction us) (auto simp: ensure_def result_simps)

lemma wave_entries_wf: "bt_wf m \<Longrightarrow> bt_wf (fst (wave_entries lib start_at seed ws m))"
  by (induction ws arbitrary: seed m) (auto simp: bt_wf_insert split: sum.splits)

lemma set_waves_loop_frame:
  "set_waves_loop lib P start_at ws us = (us', r) \<Longrightarrow>
     list_all2 (\<lambda>u u'. (\<exists>w. u' = u\<lparr>waves := w\<rparr> \<and> (bt_wf (waves u) \<longrightarrow> bt_wf w)) \<and> (P u \<or> u' = u)) us us'"
proof (induction us arbitrary: us')
  case (Cons u us)
  have keep: "\<exists>w. u = u\<lparr>waves := w\<rparr> \<and> (bt_wf (waves u) \<longrightarrow> bt_wf w)" for u :: "'a update"
    by (rule exI [of _ "waves u"]) simp
  then have refl: "list_all2 (\<lambda>u u'. (\<exists>w. u' = u\<lparr>waves := w\<rparr> \<and> (bt_wf (waves u) \<longrightarrow> bt_wf w)) \<and> (P u \<or> u' = u)) us us"
    by (simp add: list_all2_same)
  have wf: "bt_wf w" if "wave_entries lib start_at 0 ws [] = (w, (r :: 'a metadata_error + unit))" for w r
    using wave_entries_wf [of "[]" lib start_at 0 ws, where ?'a = 'a] that by (simp add: bt_wf_def)
  show ?case
    using Cons.prems keep [of u] refl
    by (auto simp: wf split: if_splits prod.splits sum.splits dest!: Cons.IH)
qed simp

lemma set_waves_frame:
  assumes "set_waves lib v a ver start_at ws m = (m', r)"
  shows "migrations m' = migrations m \<and>
    list_all2 (\<lambda>u u'. (\<exists>w. u' = u\<lparr>waves := w\<rparr> \<and> (bt_wf (waves u) \<longrightarrow> bt_wf w)) \<and> (matching_update v a ver u \<or> u' = u))
      (updates m) (updates m')"
  using assms set_waves_loop_frame [of lib "matching_update v a ver" start_at ws "updates m"]
  by (fastforce simp: set_waves_def split: prod.splits sum.splits)

lemma set_waves_Ok:
  assumes "set_waves lib v a ver start_at ws m = (m', Inr n)"
  shows "(\<forall>u \<in> set (updates m'). ascending_times (waves u)) \<and> n = length (filter (matching_update v a ver) (updates m))"
  using assms
  by (auto simp: set_waves_def result_simps validate_updates_Ok [THEN iffD1] split: prod.splits sum.splits)

section \<open>Migration keys\<close>

text \<open>The version syntax and the regular expression of \<open>parse_versions\<close>, on keys as they are written.\<close>

locale version_syntax =
  fixes captures :: "string \<Rightarrow> (string \<times> string) option"
    and parse_version :: "string \<Rightarrow> 'v::linorder option"
    and show_version :: "'v \<Rightarrow> string"
  assumes parse_show: "parse_version (show_version v) = Some v"
    and show_nonempty: "show_version v \<noteq> []"
    and show_plain: "set (show_version v) \<inter> {CHR '' '', CHR '',''} = {}"
    and captures_key: "a \<noteq> [] \<Longrightarrow> b \<noteq> [] \<Longrightarrow> set a \<inter> {CHR '' '', CHR '',''} = {} \<Longrightarrow>
      set b \<inter> {CHR '' '', CHR '',''} = {} \<Longrightarrow> captures (''('' @ a @ '', '' @ b @ '')'') = Some (a, b)"
begin

lemma captures_migration_key: "captures (migration_key show_version k) = Some (show_version (fst k), show_version (snd k))"
  unfolding migration_key_def by (rule captures_key) (rule show_nonempty show_plain)+

lemma migration_key_inj: "migration_key show_version k = migration_key show_version k' \<Longrightarrow> k = k'"
  using captures_migration_key [of k] captures_migration_key [of k'] parse_show
  by (metis option.inject prod.inject prod.collapse)

lemma parse_tuple_key_written:
  "bt_get k m = None \<Longrightarrow> parse_tuple_key captures parse_version (migration_key show_version k) list m = Inr (bt_insert k list m)"
  by (simp add: parse_tuple_key_def parse_versions_def captures_migration_key ok_or_def parse_show ensure_def)

lemma deserialize_written:
  assumes "\<And>s. s \<in> fst ` set es \<Longrightarrow> \<exists>k. s = migration_key show_version k \<and> bt_get k m = None"
    and "distinct (map fst es)"
  shows "\<exists>m'. deserialize_migration captures parse_version m es = Inr m' \<and> (bt_wf m \<longrightarrow> bt_wf m') \<and>
    map_of m' = (\<lambda>k. case map_of es (migration_key show_version k) of Some l \<Rightarrow> Some l | None \<Rightarrow> map_of m k)"
  using assms
proof (induction es arbitrary: m)
  case (Cons e es)
  obtain s l where e: "e = (s, l)" by force
  obtain k where k: "s = migration_key show_version k" "bt_get k m = None" using Cons.prems(1) [of s] e by auto
  have new: "s \<notin> fst ` set es" using Cons.prems(2) e by simp
  have "\<exists>k'. s' = migration_key show_version k' \<and> bt_get k' (bt_insert k l m) = None" if mem: "s' \<in> fst ` set es" for s'
  proof -
    obtain k' where k': "s' = migration_key show_version k'" "bt_get k' m = None" using Cons.prems(1) [of s'] mem by auto
    have "k' \<noteq> k" using new mem k k' by blast
    then have "bt_get k' (bt_insert k l m) = None" using k'(2) by (simp add: bt_get_def bt_view_insert)
    then show ?thesis using k'(1) by blast
  qed
  note h = this
  have d: "distinct (map fst es)" using Cons.prems(2) by simp
  obtain m' where
    m': "deserialize_migration captures parse_version (bt_insert k l m) es = Inr m'" "bt_wf (bt_insert k l m) \<longrightarrow> bt_wf m'"
      "map_of m' = (\<lambda>q. case map_of es (migration_key show_version q) of Some x \<Rightarrow> Some x | None \<Rightarrow> map_of (bt_insert k l m) q)"
    using Cons.IH [OF h d] by blast
  have none: "map_of es s = None" using new by (simp add: map_of_eq_None_iff)
  show ?case
    using m' k none e migration_key_inj
    by (auto simp: parse_tuple_key_written bt_wf_insert bt_view_insert fun_eq_iff split: option.splits)
qed simp

lemma serialize_fold:
  "distinct (map fst m) \<Longrightarrow>
     map_of (fold (\<lambda>(k, v) m. bt_insert (migration_key show_version k) v m) m acc) (migration_key show_version k) =
     (case map_of m k of Some v \<Rightarrow> Some v | None \<Rightarrow> map_of acc (migration_key show_version k))"
proof (induction m arbitrary: acc)
  case (Cons e m)
  obtain k' v where e: "e = (k', v)" by (cases e)
  have "map_of m k' = None" using Cons.prems e by (simp add: map_of_eq_None_iff)
  moreover have "migration_key show_version k = migration_key show_version k' \<longleftrightarrow> k = k'"
    using migration_key_inj by blast
  ultimately show ?case using Cons e by (auto simp: bt_view_insert split: option.splits)
qed simp

lemma serialize_view:
  assumes "distinct (map fst m)"
  shows "map_of (serialize_migration show_version m) (migration_key show_version k) = map_of m k"
    and "bt_wf (serialize_migration show_version m)"
    and "fst ` set (serialize_migration show_version m) = migration_key show_version ` fst ` set m"
proof -
  let ?f = "\<lambda>acc. fold (\<lambda>(k, v) m. bt_insert (migration_key show_version k) v m) m acc"
  show "map_of (serialize_migration show_version m) (migration_key show_version k) = map_of m k"
    using serialize_fold [OF assms] by (simp add: serialize_migration_def split: option.splits)
  have "bt_wf acc \<Longrightarrow> bt_wf (?f acc)" for acc
    by (induction m arbitrary: acc) (auto simp: bt_wf_insert)
  then show "bt_wf (serialize_migration show_version m)" by (simp add: serialize_migration_def bt_wf_def)
  have "fst ` set (?f acc) = migration_key show_version ` fst ` set m \<union> fst ` set acc" for acc
  proof (induction m arbitrary: acc)
    case (Cons e m)
    then show ?case by (cases e) (simp add: bt_insert_keys)
  qed simp
  then show "fst ` set (serialize_migration show_version m) = migration_key show_version ` fst ` set m"
    by (simp add: serialize_migration_def)
qed

lemma migration_round_trip:
  assumes "bt_wf m"
  shows "deserialize_migration captures parse_version [] (serialize_migration show_version m) = Inr m"
proof -
  note d = bt_wf_distinct [OF assms]
  note s = serialize_view [OF d]
  have h: "\<exists>k. x = migration_key show_version k \<and> bt_get k [] = None" if "x \<in> fst ` set (serialize_migration show_version m)" for x
    using that unfolding s(3) by (auto simp: bt_get_def)
  have e: "(\<lambda>k. case map_of (serialize_migration show_version m) (migration_key show_version k) of
      Some l \<Rightarrow> Some l | None \<Rightarrow> map_of [] k) = map_of m"
    by (auto simp: s(1) fun_eq_iff split: option.splits)
  have "bt_wf ([] :: ('v \<times> 'v, string list) btree)" by (simp add: bt_wf_def)
  then obtain m' where
    m': "deserialize_migration captures parse_version [] (serialize_migration show_version m) = Inr m'" "bt_wf m'"
      "map_of m' = map_of m"
    using deserialize_written [OF h bt_wf_distinct [OF s(2)]] unfolding e by blast
  show ?thesis using m'(1) bt_ext [OF m'(2) assms m'(3)] by simp
qed

end

text \<open>Numbers as versions, and the keys taken apart at their punctuation.\<close>

definition sample_captures :: "string \<Rightarrow> (string \<times> string) option" where
  "sample_captures key =
     (if key = [] \<or> hd key \<noteq> CHR ''('' then None
      else Some (takeWhile (\<lambda>c. c \<noteq> CHR '','') (tl key), butlast (drop 2 (dropWhile (\<lambda>c. c \<noteq> CHR '','') (tl key)))))"

interpretation number_versions: version_syntax sample_captures "map_option nat \<circ> parse_digits 0" show_nat
proof
  fix v :: nat and a b :: string
  show "(map_option nat \<circ> parse_digits 0) (show_nat v) = Some v" by (simp add: parse_digits_show)
  show "show_nat v \<noteq> []" using show_nat_Cons [of v] by auto
  show "set (show_nat v) \<inter> {CHR '' '', CHR '',''} = {}"
    using show_nat_digits [of "CHR '' ''" v] show_nat_digits [of "CHR '',''" v] by (auto simp: is_digit_def)
  assume "set a \<inter> {CHR '' '', CHR '',''} = {}"
  then have "CHR '','' \<notin> set a" by auto
  then have "takeWhile (\<lambda>c. c \<noteq> CHR '','') (a @ CHR '','' # r) = a" "dropWhile (\<lambda>c. c \<noteq> CHR '','') (a @ CHR '','' # r) = CHR '','' # r" for r
    by (induction a) auto
  then show "sample_captures (''('' @ a @ '', '' @ b @ '')'') = Some (a, b)"
    by (simp add: sample_captures_def butlast_append)
qed

section \<open>Properties\<close>

text \<open>
  C31: a host gets every update. For every seed up to the maximum, an update is ready for a host at the
  latest when its last wave starts, and once it is ready it stays ready.
\<close>

theorem update_ready_eventually_and_forever:
  assumes "seed \<le> MAX_SEED" "\<forall>e \<in> set (waves u). snd e \<le> last_start" "last_start \<le> t \<or> update_ready lib u seed t0 = Some True \<and> t0 \<le> t"
  shows "update_ready lib u seed t = Some True"
proof -
  have "update_ready lib u seed last_start = Some True" using assms(2) by (intro update_ready_final [OF assms(1)]) force
  then show ?thesis using assms(3) update_ready_mono by blast
qed

definition sample_chrono :: chrono_lib where
  "sample_chrono = \<lparr>parse_from_rfc3339 = \<lambda>_. None, try_hours = \<lambda>n. Some (n * hour_ns), try_days = \<lambda>n. Some (n * 24 * hour_ns),
    try_weeks = \<lambda>n. Some (n * 7 * 24 * hour_ns), duration_div = (\<lambda>d n. d div n)\<rparr>"

definition sample_update :: "nat update" where
  "sample_update = \<lparr>variant = ''aws-k8s'', arch = ''x86_64'', version = 3, max_version = 3,
     waves = [(0, 0), (1024, 5120), (1536, 10240)],
     update_images = \<lparr>boot_image = ''b'', root_image = ''r'', hash_image = ''h''\<rparr>\<rparr>"

theorem update_ready_eventually_and_forever_witness: "update_ready sample_chrono sample_update 1100 20000 = Some True"
  by (rule update_ready_eventually_and_forever [where last_start = 10240]) (simp_all add: sample_update_def MAX_SEED_def)


lemma sample_chrono_library: "chrono_library sample_chrono"
  unfolding sample_chrono_def by (rule chrono_exact.chrono_library_axioms)


text \<open>
  C3: \<open>find_migrations\<close> returns, and what it returns is a path. When every transition of the manifest
  goes to a higher version the search ends; if it succeeds, the list is the concatenated migrations
  of a chain of transitions from the lower to the higher version, in reverse when going down.
\<close>

theorem find_migrations_returns_path:
  assumes "forward_only m"
  shows "\<exists>r. find_migrations a b m = Some r \<and>
    (\<forall>ms. r = Inr ms \<longrightarrow> (if a \<le> b then migration_path m a b ms else migration_path m b a (rev ms)))"
  using find_migrations_path [OF assms] .

definition sample_manifest :: "nat manifest" where
  "sample_manifest = \<lparr>updates = [sample_update],
     migrations = [((1, 2), [''a'']), ((1, 3), [''b'', ''c'']), ((2, 4), [''d''])]\<rparr>"

theorem find_migrations_returns_path_witness: "\<exists>r. find_migrations 1 4 sample_manifest = Some r"
  using find_migrations_returns_path [of sample_manifest 1 4] by (auto simp: forward_only_def sample_manifest_def)

text \<open>
  C4: the search is greedy and can miss. There is a manifest, all of whose transitions go up, with a
  path from one version to another for which \<open>find_migrations\<close> reports a missing migration; and a
  transition from a version to itself makes it run for ever.
\<close>

theorem find_migrations_misses_path:
  "migration_path sample_manifest 1 4 [''a'', ''d''] \<and>
   find_migrations 1 4 sample_manifest = Some (Inl (MissingMigration 3 4)) \<and>
   find_migrations 1 2 \<lparr>updates = [], migrations = [((1 :: nat, 1), [])]\<rparr> = None"
proof (intro conjI)
  have "migration_path sample_manifest 2 4 ([''d''] @ [])"
    by (rule path_step [OF _ path_done]) (simp add: sample_manifest_def bt_get_def)
  then have "migration_path sample_manifest 1 4 ([''a''] @ ([''d''] @ []))"
    by (rule path_step [rotated]) (simp add: sample_manifest_def bt_get_def)
  then show "migration_path sample_manifest 1 4 [''a'', ''d'']" by simp
  show "find_migrations 1 4 sample_manifest = Some (Inl (MissingMigration 3 4))"
    by (simp add: find_migrations_up migrations_loop.simps transitions_def sample_manifest_def)
  have "transitions \<lparr>updates = [], migrations = [((1 :: nat, 1), [])]\<rparr> 1 2 = [(1, 1)]"
    by (simp add: transitions_def)
  then show "find_migrations 1 2 \<lparr>updates = [], migrations = [((1 :: nat, 1), [])]\<rparr> = None"
    by (simp add: find_migrations_up migrations_loop_spins)
qed



text \<open>
  C6: the seeds computed with \<open>f32\<close> arithmetic in \<open>set_waves\<close> are the exact integer quotients, for
  every percentage the function accepts.
\<close>

theorem percent_seed_exact:
  assumes "0 < p" "p \<le> 100"
  shows "percent_seed p = of_int (uint p * 2048 div 100)"
  using percent_seed_exact_int [OF assms] .

theorem percent_seed_exact_witness: "percent_seed 1 = 20"
  using percent_seed_exact [of 1] by simp

text \<open>
  C7: \<open>set_waves\<close> only ever changes the waves of the updates it is asked for, keeps the map of waves in
  order of its seeds, and when it succeeds the waves of every update in the manifest are in order of
  time and the number returned is the number of matching updates.
\<close>

theorem set_waves_sound:
  assumes "set_waves lib v a ver start_at ws m = (m', r)"
  shows "migrations m' = migrations m \<and>
    list_all2 (\<lambda>u u'. (\<exists>w. u' = u\<lparr>waves := w\<rparr> \<and> (bt_wf (waves u) \<longrightarrow> bt_wf w)) \<and> (matching_update v a ver u \<or> u' = u))
      (updates m) (updates m') \<and>
    (\<forall>n. r = Inr n \<longrightarrow> (\<forall>u \<in> set (updates m'). ascending_times (waves u)) \<and> n = length (filter (matching_update v a ver) (updates m)))"
  using set_waves_frame [OF assms] set_waves_Ok [of lib v a ver start_at ws m m'] assms by simp

theorem set_waves_sound_witness:
  "migrations (fst (set_waves sample_chrono ''aws-k8s'' ''x86_64'' 3 0 [\<lparr>start_after = ''1 hour'', fleet_percentage = 50\<rparr>] sample_manifest))
     = migrations sample_manifest"
  by (rule set_waves_sound [OF prod.collapse [symmetric], THEN conjunct1])

end
