(* ===== verification/Thar_Be_Updates.thy ===== *)
theory Thar_Be_Updates
  imports Signpost Update_Metadata
begin

text \<open>
  \<open>sources/api/thar-be-updates\<close>: the update state machine, its status file and the process that
  drives it. What the process asks of its surroundings (the lock, \<open>fork\<close>, \<open>updog\<close>, the release file,
  the partition table, the settings file) is the record \<open>tbu_env\<close>.
\<close>

section \<open>Definitions\<close>

subsection \<open>status.rs and error.rs\<close>

datatype update_state = Idle | Available | Staged | Ready

record 'v update_image =
  img_arch :: string
  img_version :: 'v
  img_variant :: string

record 'v staged_image =
  staged_img :: "'v update_image"
  next_to_boot :: bool

datatype command_status = Success | Failed | Unknown

datatype update_command = Refresh | Prepare | Activate | Deactivate

record command_result =
  cmd_type :: update_command
  cmd_status :: command_status
  timestamp :: instant
  exit_status :: "int option"
  stderr_text :: "string option"

record 'v update_status =
  update_state :: update_state
  available_updates :: "'v list"
  chosen_update :: "'v update_image option"
  active_partition :: "'v staged_image option"
  staging_partition :: "'v staged_image option"
  most_recent_command :: "command_result option"

datatype 'e tbu_error =
    CreateTempfile | CreateStatusFile string | NoStatusFile string | StatusParse string | StatusWrite string
  | UpdateInfo | ReleaseVersion | UpdateLockFile string | UpdateLockHeld string | ReadConfig string
  | Deserialization string | ResponseJson string | PartitionTableRead "'e signpost_error"
  | PartitionTableWrite "'e signpost_error" | InactivePartitionUpgrade "'e signpost_error" | NoneSetToBoot
  | Fork | Updog | PrepareUpdate | ActivateUpdate | DeactivateUpdate | SignpostStart | GetSetting string
  | GetSettingOption string | SemVer string | InvalidStateTransition update_state update_state
  | DisallowCommand update_command update_state | UpdateDoesNotExist | UnspecifiedVersion | StagingPartition
  | ActivePartition | LoggerSetup

text \<open>
  A finished child process: its exit code unless a signal ended it, the signal, what its standard
  output parses to as a list of updates, and its standard error.
\<close>

record 'v updog_output =
  out_code :: "int option"
  out_signal :: "int option"
  out_updates :: "'v update list option"
  out_stderr :: string

record ('v, 'g, 'd, 'e) tbu_env =
  env_release :: "(string \<times> 'v \<times> string) option"
  env_signpost :: "('g, 'd, 'e) signpost_lib"
  env_load :: "'e signpost_error + 'g state"
  env_settings :: "string \<Rightarrow> 'e tbu_error + string option"
  env_version :: "string \<Rightarrow> 'v option"
  env_now :: instant
  env_fork :: bool
  env_updog :: "string list \<Rightarrow> 'v updog_output option"
  env_level :: "string \<Rightarrow> bool"
  env_logger :: bool
  env_lockfile :: bool
  env_write :: "'e tbu_error option"

definition status_new :: "'v update_status" where
  "status_new = \<lparr>update_state = Idle, available_updates = [], chosen_update = None, active_partition = None,
     staging_partition = None, most_recent_command = None\<rparr>"

definition update_active_partition_info ::
  "('v, 'g, 'd, 'e) tbu_env \<Rightarrow> 'v update_status \<Rightarrow> 'v update_status \<times> ('e tbu_error + unit)" where
  "update_active_partition_info env st =
     (case env_release env of
        None \<Rightarrow> (st, Inl ReleaseVersion)
      | Some (a, ver, var) \<Rightarrow>
          let active_image = \<lparr>img_arch = a, img_version = ver, img_variant = var\<rparr> in
          (case env_load env of
             Inl e \<Rightarrow> (st, Inl (PartitionTableRead e))
           | Inr gpt_state \<Rightarrow>
               (case next_set (env_signpost env) gpt_state of
                  None \<Rightarrow> (st, Inl NoneSetToBoot)
                | Some nxt \<Rightarrow>
                    (st\<lparr>active_partition := Some \<lparr>staged_img = active_image, next_to_boot = (active gpt_state = nxt)\<rparr>\<rparr>, Inr ()))))"

definition set_staging_partition_image_info :: "'v update_image \<Rightarrow> 'v update_status \<Rightarrow> 'v update_status" where
  "set_staging_partition_image_info img st = st\<lparr>staging_partition := Some \<lparr>staged_img = img, next_to_boot = False\<rparr>\<rparr>"

definition mark_partitions :: "bool \<Rightarrow> 'v update_status \<Rightarrow> 'v update_status \<times> ('e tbu_error + unit)" where
  "mark_partitions staging_next st =
     (case staging_partition st of
        None \<Rightarrow> (st, Inl StagingPartition)
      | Some sp \<Rightarrow>
          let st = st\<lparr>staging_partition := Some (sp\<lparr>next_to_boot := staging_next\<rparr>)\<rparr> in
          (case active_partition st of
             None \<Rightarrow> (st, Inl ActivePartition)
           | Some ap \<Rightarrow> (st\<lparr>active_partition := Some (ap\<lparr>next_to_boot := \<not> staging_next\<rparr>)\<rparr>, Inr ())))"

definition mark_staging_partition_next_to_boot :: "'v update_status \<Rightarrow> 'v update_status \<times> ('e tbu_error + unit)" where
  "mark_staging_partition_next_to_boot = mark_partitions True"

definition unmark_staging_partition_next_to_boot :: "'v update_status \<Rightarrow> 'v update_status \<times> ('e tbu_error + unit)" where
  "unmark_staging_partition_next_to_boot = mark_partitions False"

definition set_recent_command_info :: "instant \<Rightarrow> update_command \<Rightarrow> 'v updog_output \<Rightarrow> 'v update_status \<Rightarrow> 'v update_status" where
  "set_recent_command_info now cmd out st =
     (let code = (case out_code out of Some c \<Rightarrow> c | None \<Rightarrow> (case out_signal out of Some s \<Rightarrow> s | None \<Rightarrow> 1))
      in st\<lparr>most_recent_command := Some \<lparr>cmd_type = cmd, cmd_status = (if code = 0 then Success else Failed),
             timestamp = now, exit_status = Some code, stderr_text = Some (out_stderr out)\<rparr>\<rparr>)"

definition get_latest_update ::
  "('v::linorder, 'g, 'd, 'e) tbu_env \<Rightarrow> 'v update list \<Rightarrow> 'e tbu_error + 'v update option" where
  "get_latest_update env us =
     (case env_release env of
        None \<Rightarrow> Inl ReleaseVersion
      | Some (_, ver, _) \<Rightarrow> Inr (find (\<lambda>u. ver < version u \<or> ver > max_version u) us))"

definition update_image_of :: "'v update \<Rightarrow> 'v update_image" where
  "update_image_of u = \<lparr>img_arch = arch u, img_version = version u, img_variant = variant u\<rparr>"

definition update_available_updates ::
  "('v::linorder, 'g, 'd, 'e) tbu_env \<Rightarrow> string \<Rightarrow> 'v update list \<Rightarrow> 'v update_status
     \<Rightarrow> 'v update_status \<times> ('e tbu_error + bool)" where
  "update_available_updates env config_path us st =
     (let st = st\<lparr>available_updates := map version us\<rparr> in
      op_bind (st, env_settings env config_path) (\<lambda>version_lock st.
      op_bind (st, ok_or (GetSettingOption ''version-lock'') version_lock) (\<lambda>locked_version st.
      if locked_version = ''latest'' then
        op_bind (st, get_latest_update env us) (\<lambda>latest st.
          case latest of
            Some u \<Rightarrow> (st\<lparr>chosen_update := Some (update_image_of u)\<rparr>, Inr True)
          | None \<Rightarrow> (st\<lparr>chosen_update := None\<rparr>, Inr False)) id
      else
        op_bind (st, ok_or (SemVer locked_version) (env_version env locked_version)) (\<lambda>chosen_version st.
        op_bind (st, ok_or ReleaseVersion (env_release env)) (\<lambda>(_, ver, _) st.
          case (if chosen_version \<noteq> ver then find (\<lambda>u. version u = chosen_version) us else None) of
            Some u \<Rightarrow> (st\<lparr>chosen_update := Some \<lparr>img_arch = arch u, img_version = chosen_version, img_variant = variant u\<rparr>\<rparr>, Inr True)
          | None \<Rightarrow> (st\<lparr>chosen_update := None\<rparr>, Inr False)) id) id) id) id)"

subsection \<open>main.rs\<close>

text \<open>The process's memory: the status, and whether this is the forked child.\<close>

record 'v tbu_process =
  status :: "'v update_status"
  in_child :: bool

definition fork_and_return ::
  "('v, 'g, 'd, 'e) tbu_env \<Rightarrow> ('v tbu_process \<Rightarrow> 'v tbu_process \<times> ('e tbu_error + 'a)) \<Rightarrow> 'v tbu_process
     \<Rightarrow> 'v tbu_process \<times> ('e tbu_error + 'a)" where
  "fork_and_return env child p = (if env_fork env then child (p\<lparr>in_child := True\<rparr>) else (p, Inl Fork))"

definition on_status ::
  "('v update_status \<Rightarrow> 'v update_status \<times> 'r) \<Rightarrow> 'v tbu_process \<Rightarrow> 'v tbu_process \<times> 'r" where
  "on_status f p = (case f (status p) of (st, r) \<Rightarrow> (p\<lparr>status := st\<rparr>, r))"

definition spawn_updog ::
  "('v, 'g, 'd, 'e) tbu_env \<Rightarrow> update_command \<Rightarrow> string list \<Rightarrow> 'v tbu_process
     \<Rightarrow> 'v tbu_process \<times> ('e tbu_error + 'v updog_output)" where
  "spawn_updog env cmd args p =
     op_bind (p, ok_or Updog (env_updog env args)) (\<lambda>out p.
       (p\<lparr>status := set_recent_command_info (env_now env) cmd out (status p)\<rparr>, Inr out)) id"

definition succeeded :: "'v updog_output \<Rightarrow> bool" where
  "succeeded out \<longleftrightarrow> out_code out = Some 0"

definition refresh ::
  "('v::linorder, 'g, 'd, 'e) tbu_env \<Rightarrow> string \<Rightarrow> 'v tbu_process \<Rightarrow> 'v tbu_process \<times> ('e tbu_error + bool)" where
  "refresh env config_path = fork_and_return env (\<lambda>p.
     op_bind (spawn_updog env Refresh [''whats'', ''--all'', ''--json''] p) (\<lambda>out p.
       if \<not> succeeded out then (p, Inr False)
       else op_bind (p, ok_or UpdateInfo (out_updates out)) (\<lambda>us p.
              on_status (update_available_updates env config_path us) p) id) id)"

definition prepare :: "('v, 'g, 'd, 'e) tbu_env \<Rightarrow> 'v tbu_process \<Rightarrow> 'v tbu_process \<times> ('e tbu_error + unit)" where
  "prepare env = fork_and_return env (\<lambda>p.
     op_bind (p, ok_or UpdateDoesNotExist (chosen_update (status p))) (\<lambda>chosen p.
     op_bind (spawn_updog env Prepare [''update-image''] p) (\<lambda>out p.
       if \<not> succeeded out then (p, Inl PrepareUpdate)
       else (p\<lparr>status := set_staging_partition_image_info chosen (status p)\<rparr>, Inr ())) id) id)"

definition activate :: "('v, 'g, 'd, 'e) tbu_env \<Rightarrow> 'v tbu_process \<Rightarrow> 'v tbu_process \<times> ('e tbu_error + unit)" where
  "activate env = fork_and_return env (\<lambda>p.
     op_bind (spawn_updog env Activate [''update-apply''] p) (\<lambda>out p.
       if \<not> succeeded out then (p, Inl ActivateUpdate)
       else on_status mark_staging_partition_next_to_boot p) id)"

definition deactivate :: "('v, 'g, 'd, 'e) tbu_env \<Rightarrow> 'v tbu_process \<Rightarrow> 'v tbu_process \<times> ('e tbu_error + unit)" where
  "deactivate env = fork_and_return env (\<lambda>p.
     op_bind (spawn_updog env Deactivate [''update-revert''] p) (\<lambda>out p.
       if \<not> succeeded out then (p, Inl DeactivateUpdate)
       else on_status unmark_staging_partition_next_to_boot p) id)"

definition set_update_state :: "update_state \<Rightarrow> 'v tbu_process \<Rightarrow> 'v tbu_process" where
  "set_update_state new_state p = p\<lparr>status := (status p)\<lparr>update_state := new_state\<rparr>\<rparr>"

definition drive_state_machine ::
  "('v::linorder, 'g, 'd, 'e) tbu_env \<Rightarrow> update_command \<Rightarrow> string \<Rightarrow> 'v tbu_process
     \<Rightarrow> 'v tbu_process \<times> ('e tbu_error + unit)" where
  "drive_state_machine env operation config_path p =
     op_bind
       (case (operation, update_state (status p)) of
          (Refresh, Idle) \<Rightarrow>
            op_bind (refresh env config_path p) (\<lambda>b p. (p, Inr (if b then Available else Idle))) id
        | (Refresh, Available) \<Rightarrow>
            op_bind (refresh env config_path p) (\<lambda>b p. (p, Inr (if b then Available else Idle))) id
        | (Refresh, _) \<Rightarrow>
            op_bind (refresh env config_path p) (\<lambda>_ p. (p, Inr (update_state (status p)))) id
        | (Prepare, Available) \<Rightarrow>
            op_bind (p, ensure (chosen_update (status p) \<noteq> None) UpdateDoesNotExist) (\<lambda>_ p.
            op_bind (prepare env p) (\<lambda>_ p. (p, Inr Staged)) id) id
        | (Prepare, Staged) \<Rightarrow>
            op_bind (p, ensure (chosen_update (status p) \<noteq> None) UpdateDoesNotExist) (\<lambda>_ p.
            op_bind (prepare env p) (\<lambda>_ p. (p, Inr Staged)) id) id
        | (Activate, Staged) \<Rightarrow>
            op_bind (p, ensure (staging_partition (status p) \<noteq> None) StagingPartition) (\<lambda>_ p.
            op_bind (activate env p) (\<lambda>_ p. (p, Inr Ready)) id) id
        | (Deactivate, Ready) \<Rightarrow>
            op_bind (p, ensure (staging_partition (status p) \<noteq> None) StagingPartition) (\<lambda>_ p.
            op_bind (deactivate env p) (\<lambda>_ p. (p, Inr Staged)) id) id
        | (_, state) \<Rightarrow> (p, Inl (DisallowCommand operation state)))
       (\<lambda>new_state p. (set_update_state new_state p, Inr ())) id"

text \<open>Arguments; \<open>None\<close> is the usage message and exit code 2.\<close>

record tbu_args =
  subcommand :: update_command
  log_level :: string
  config_path :: string

definition update_command_of :: "string \<Rightarrow> update_command option" where
  "update_command_of arg =
     map_of [(''refresh'', Refresh), (''prepare'', Prepare), (''activate'', Activate), (''deactivate'', Deactivate)] arg"

fun parse_args_loop ::
  "(string \<Rightarrow> bool) \<Rightarrow> string list \<Rightarrow> update_command option \<times> string option \<times> string option
     \<Rightarrow> (update_command option \<times> string option \<times> string option) option" where
  "parse_args_loop level [] acc = Some acc"
| "parse_args_loop level (arg # args) (cmd, lvl, cfg) =
     (if arg = ''--log-level'' then
        (case args of
           v # rest \<Rightarrow> if level v then parse_args_loop level rest (cmd, Some v, cfg) else None
         | [] \<Rightarrow> None)
      else if arg = ''--config-path'' then
        (case args of v # rest \<Rightarrow> parse_args_loop level rest (cmd, lvl, Some v) | [] \<Rightarrow> None)
      else if \<not> starts_with arg ''-'' then
        (if cmd \<noteq> None then None
         else case update_command_of arg of
                Some c \<Rightarrow> parse_args_loop level args (Some c, lvl, cfg)
              | None \<Rightarrow> None)
      else None)"

definition parse_args :: "(string \<Rightarrow> bool) \<Rightarrow> string list \<Rightarrow> tbu_args option" where
  "parse_args level args =
     (case parse_args_loop level (drop 1 args) (None, None, None) of
        Some (Some cmd, lvl, cfg) \<Rightarrow>
          Some \<lparr>subcommand = cmd, log_level = (case lvl of Some l \<Rightarrow> l | None \<Rightarrow> ''info''),
                config_path = (case cfg of Some c \<Rightarrow> c | None \<Rightarrow> ''/etc/thar-be-updates.toml'')\<rparr>
      | _ \<Rightarrow> None)"

text \<open>The status file: absent, unreadable as a status, or a status.\<close>

type_synonym 'v status_file = "'v update_status option option"

definition UPDATE_STATUS_FILE :: string where
  "UPDATE_STATUS_FILE = ''/run/cache/thar-be-updates/status.json''"

definition UPDATE_LOCKFILE :: string where
  "UPDATE_LOCKFILE = ''/run/lock/thar-be-updates.lock''"

definition write_update_status ::
  "('v, 'g, 'd, 'e) tbu_env \<Rightarrow> 'v update_status \<Rightarrow> 'v status_file \<Rightarrow> 'v status_file \<times> ('e tbu_error + unit)" where
  "write_update_status env st file =
     (case env_write env of Some e \<Rightarrow> (file, Inl e) | None \<Rightarrow> (Some (Some st), Inr ()))"

definition initialize_update_status ::
  "('v, 'g, 'd, 'e) tbu_env \<Rightarrow> 'v status_file \<Rightarrow> 'v status_file \<times> ('e tbu_error + unit)" where
  "initialize_update_status env file =
     (case update_active_partition_info env status_new of
        (_, Inl e) \<Rightarrow> (file, Inl e)
      | (st, Inr _) \<Rightarrow> write_update_status env st file)"

definition get_update_status :: "'v status_file \<Rightarrow> 'e tbu_error + 'v update_status" where
  "get_update_status file =
     (case file of
        None \<Rightarrow> Inl (NoStatusFile UPDATE_STATUS_FILE)
      | Some None \<Rightarrow> Inl (StatusParse UPDATE_STATUS_FILE)
      | Some (Some st) \<Rightarrow> Inr st)"

definition lock_exclusive :: "bool \<Rightarrow> 'e tbu_error + unit" where
  "lock_exclusive lock_free = ensure lock_free (UpdateLockHeld UPDATE_LOCKFILE)"

definition ensure_status_file ::
  "('v, 'g, 'd, 'e) tbu_env \<Rightarrow> 'v status_file \<Rightarrow> 'v status_file \<times> ('e tbu_error + unit)" where
  "ensure_status_file env file = (if file = None then initialize_update_status env file else (file, Inr ()))"

text \<open>
  \<open>run\<close>, up to the end of the forked child if there is one: the status file, whether the caller was
  released by the fork, and the result of the process that went on.
\<close>

definition run ::
  "('v::linorder, 'g, 'd, 'e) tbu_env \<Rightarrow> tbu_args \<Rightarrow> bool \<Rightarrow> 'v status_file
     \<Rightarrow> 'v status_file \<times> bool \<times> ('e tbu_error + unit)" where
  "run env args lock_free file =
     (case and_then (ensure (env_logger env) LoggerSetup) (\<lambda>_.
           and_then (ensure (env_lockfile env) (UpdateLockFile UPDATE_LOCKFILE)) (\<lambda>_.
           lock_exclusive lock_free)) of
        Inl e \<Rightarrow> (file, False, Inl e)
      | Inr _ \<Rightarrow>
          (case ensure_status_file env file of
             (file, Inl e) \<Rightarrow> (file, False, Inl e)
           | (file, Inr _) \<Rightarrow>
               (case get_update_status file of
                  Inl e \<Rightarrow> (file, False, Inl e)
                | Inr st \<Rightarrow>
                    (case drive_state_machine env (subcommand args) (config_path args) \<lparr>status = st, in_child = False\<rparr> of
                       (p, result) \<Rightarrow>
                         (case write_update_status env (status p) file of
                            (file, w) \<Rightarrow> (file, in_child p, and_then w (\<lambda>_. result)))))))"

fun match_error_to_exit_status :: "'e tbu_error \<Rightarrow> int" where
  "match_error_to_exit_status (UpdateLockHeld _) = 64"
| "match_error_to_exit_status (DisallowCommand _ _) = 65"
| "match_error_to_exit_status UpdateDoesNotExist = 66"
| "match_error_to_exit_status StagingPartition = 67"
| "match_error_to_exit_status _ = 1"

text \<open>\<open>main\<close>: the status file when all processes have ended, and the exit code the caller sees.\<close>

definition tbu_main ::
  "('v::linorder, 'g, 'd, 'e) tbu_env \<Rightarrow> string list \<Rightarrow> bool \<Rightarrow> 'v status_file \<Rightarrow> 'v status_file \<times> int" where
  "tbu_main env args lock_free file =
     (case parse_args (env_level env) args of
        None \<Rightarrow> (file, 2)
      | Some a \<Rightarrow>
          (case run env a lock_free file of
             (file, forked, r) \<Rightarrow>
               (file, if forked then 0 else case r of Inr _ \<Rightarrow> 0 | Inl e \<Rightarrow> match_error_to_exit_status e)))"

section \<open>What each command does to the status\<close>

lemma recent_fields [simp]:
  "update_state (set_recent_command_info now c out st) = update_state st"
  "chosen_update (set_recent_command_info now c out st) = chosen_update st"
  "active_partition (set_recent_command_info now c out st) = active_partition st"
  "staging_partition (set_recent_command_info now c out st) = staging_partition st"
  by (simp_all add: set_recent_command_info_def Let_def)

lemma available_effect:
  "update_state (fst (update_available_updates env cfg us st)) = update_state st"
  "active_partition (fst (update_available_updates env cfg us st)) = active_partition st"
  "staging_partition (fst (update_available_updates env cfg us st)) = staging_partition st"
  "snd (update_available_updates env cfg us st) = Inr True \<Longrightarrow> chosen_update (fst (update_available_updates env cfg us st)) \<noteq> None"
  "snd (update_available_updates env cfg us st) = Inl e \<Longrightarrow> chosen_update (fst (update_available_updates env cfg us st)) = chosen_update st"
  by (auto simp: update_available_updates_def op_bind_def ok_or_def Let_def
      split: sum.splits option.splits if_splits prod.splits)

lemma spawn_effect:
  assumes "spawn_updog env c args p = (p', r)"
  shows "\<exists>st. p' = p\<lparr>status := st\<rparr> \<and> update_state st = update_state (status p) \<and> chosen_update st = chosen_update (status p)
    \<and> active_partition st = active_partition (status p) \<and> staging_partition st = staging_partition (status p)"
proof (cases "env_updog env args")
  case None
  then show ?thesis using assms by (intro exI [of _ "status p"]) (auto simp: spawn_updog_def ok_or_def)
next
  case (Some out)
  then show ?thesis
    using assms by (intro exI [of _ "set_recent_command_info (env_now env) c out (status p)"]) (auto simp: spawn_updog_def ok_or_def)
qed

text \<open>The invariant of the status that the commands rely on.\<close>

definition status_inv :: "'v update_status \<Rightarrow> bool" where
  "status_inv st \<longleftrightarrow>
     active_partition st \<noteq> None \<and>
     (update_state st = Available \<longrightarrow> chosen_update st \<noteq> None) \<and>
     (update_state st = Staged \<longrightarrow> (\<exists>sp. staging_partition st = Some sp \<and> \<not> next_to_boot sp)) \<and>
     (update_state st = Ready \<longrightarrow> (\<exists>sp ap. staging_partition st = Some sp \<and> next_to_boot sp \<and>
        active_partition st = Some ap \<and> \<not> next_to_boot ap))"

lemma refresh_effect:
  assumes "refresh env cfg p = (p', r)"
  shows "update_state (status p') = update_state (status p) \<and> active_partition (status p') = active_partition (status p)
    \<and> staging_partition (status p') = staging_partition (status p) \<and> (r = Inr True \<longrightarrow> chosen_update (status p') \<noteq> None)
    \<and> (\<forall>e. r = Inl e \<longrightarrow> chosen_update (status p') = chosen_update (status p))"
proof (cases "env_fork env")
  case False
  then show ?thesis using assms by (auto simp: refresh_def fork_and_return_def)
next
  case True
  obtain p1 o1 where sp: "spawn_updog env Refresh [''whats'', ''--all'', ''--json''] (p\<lparr>in_child := True\<rparr>) = (p1, o1)"
    by force
  note e = spawn_effect [OF sp]
  show ?thesis
    using assms True sp e available_effect [of env cfg _ "status p1"]
    by (auto simp: refresh_def fork_and_return_def op_bind_def ok_or_def on_status_def split_beta
        split: sum.splits option.splits if_splits)
qed

lemma prepare_effect:
  assumes "prepare env p = (p', r)"
  shows "update_state (status p') = update_state (status p) \<and> active_partition (status p') = active_partition (status p)
    \<and> chosen_update (status p') = chosen_update (status p)
    \<and> (r = Inr () \<longrightarrow> (\<exists>sp. staging_partition (status p') = Some sp \<and> \<not> next_to_boot sp \<and> Some (staged_img sp) = chosen_update (status p)))
    \<and> (\<forall>e. r = Inl e \<longrightarrow> staging_partition (status p') = staging_partition (status p))"
proof (cases "env_fork env")
  case False
  then show ?thesis using assms by (auto simp: prepare_def fork_and_return_def)
next
  case True
  obtain p1 o1 where sp: "spawn_updog env Prepare [''update-image''] (p\<lparr>in_child := True\<rparr>) = (p1, o1)"
    by force
  show ?thesis
    using assms True sp spawn_effect [OF sp]
    by (auto simp: prepare_def fork_and_return_def op_bind_def ok_or_def set_staging_partition_image_info_def
        split: sum.splits option.splits if_splits)
qed

lemma mark_effect:
  assumes "mark_partitions b st = (st', r)" "active_partition st \<noteq> None"
  shows "update_state st' = update_state st \<and> active_partition st' \<noteq> None
    \<and> (r = Inr () \<longrightarrow> (\<exists>sp ap. staging_partition st' = Some sp \<and> next_to_boot sp = b \<and> active_partition st' = Some ap \<and> next_to_boot ap = (\<not> b)))
    \<and> (\<forall>e. r = Inl e \<longrightarrow> st' = st)"
  using assms by (auto simp: mark_partitions_def Let_def split: option.splits)

lemma activation_effect:
  fixes env :: "('v, 'g, 'd, 'e) tbu_env"
  assumes "fork_and_return env (\<lambda>p. op_bind (spawn_updog env c args p) (\<lambda>out p.
       if \<not> succeeded out then (p, Inl err) else on_status (mark_partitions b) p) id) p = (p', r)"
    and "active_partition (status p) \<noteq> None"
  shows "update_state (status p') = update_state (status p) \<and> active_partition (status p') \<noteq> None
    \<and> (r = Inr () \<longrightarrow> (\<exists>sp ap. staging_partition (status p') = Some sp \<and> next_to_boot sp = b \<and>
          active_partition (status p') = Some ap \<and> next_to_boot ap = (\<not> b)))
    \<and> (\<forall>e. r = Inl e \<longrightarrow> staging_partition (status p') = staging_partition (status p) \<and>
          active_partition (status p') = active_partition (status p))"
proof (cases "env_fork env")
  case False
  then show ?thesis using assms by (auto simp: fork_and_return_def)
next
  case True
  obtain p1 o1 where sp: "spawn_updog env c args (p\<lparr>in_child := True\<rparr>) = (p1, o1)"
    by force
  obtain st' r' where m: "mark_partitions b (status p1) = (st', r' :: 'e tbu_error + unit)" by force
  have a: "active_partition (status p1) \<noteq> None" using spawn_effect [OF sp] assms(2) by auto
  show ?thesis
    using assms True sp spawn_effect [OF sp] mark_effect [OF m a] m
    by (auto simp: fork_and_return_def op_bind_def on_status_def split: sum.splits if_splits) metis+
qed

lemmas activate_effect = activation_effect [where b = True, simplified,
    folded mark_staging_partition_next_to_boot_def, OF trans [OF fun_cong [OF activate_def [symmetric]]]]
lemmas deactivate_effect = activation_effect [where b = False, simplified,
    folded unmark_staging_partition_next_to_boot_def, OF trans [OF fun_cong [OF deactivate_def [symmetric]]]]

lemma drive_inv:
  assumes "status_inv (status p)"
  shows "status_inv (status (fst (drive_state_machine env c cfg p)))"
proof -
  obtain p1 r1 where rf: "refresh env cfg p = (p1, r1)" by force
  obtain p2 r2 where pr: "prepare env p = (p2, r2)" by force
  obtain p3 r3 where ac: "activate env p = (p3, r3)" by force
  obtain p4 r4 where de: "deactivate env p = (p4, r4)" by force
  have a: "\<exists>y. active_partition (status p) = Some y" using assms by (auto simp: status_inv_def)
  show ?thesis
  proof (cases c)
    case Refresh
    then show ?thesis
      using assms refresh_effect [OF rf]
      by (cases "update_state (status p)"; cases r1)
         (auto simp: drive_state_machine_def rf set_update_state_def status_inv_def)
  next
    case Prepare
    then show ?thesis
      using assms prepare_effect [OF pr]
      by (cases "update_state (status p)"; cases r2)
         (auto simp: drive_state_machine_def pr set_update_state_def status_inv_def ensure_def)
  next
    case Activate
    then show ?thesis
      using assms activate_effect [OF ac a]
      by (cases "update_state (status p)"; cases r3)
         (auto simp: drive_state_machine_def ac set_update_state_def status_inv_def ensure_def)
  next
    case Deactivate
    then show ?thesis
      using assms deactivate_effect [OF de a]
      by (cases "update_state (status p)"; cases r4)
         (auto simp: drive_state_machine_def de set_update_state_def status_inv_def ensure_def)
  qed
qed

section \<open>The documented state machine\<close>

text \<open>The transitions of the update state that the commands may make, and the commands each state accepts.\<close>

inductive tbu_transition :: "update_state \<Rightarrow> update_command \<Rightarrow> update_state \<Rightarrow> bool" where
  found: "s \<in> {Idle, Available} \<Longrightarrow> tbu_transition s Refresh Available"
| none_found: "s \<in> {Idle, Available} \<Longrightarrow> tbu_transition s Refresh Idle"
| refreshed: "s \<in> {Staged, Ready} \<Longrightarrow> tbu_transition s Refresh s"
| prepared: "s \<in> {Available, Staged} \<Longrightarrow> tbu_transition s Prepare Staged"
| activated: "tbu_transition Staged Activate Ready"
| deactivated: "tbu_transition Ready Deactivate Staged"

inductive_simps tbu_transition_simps:
  "tbu_transition s Refresh s'" "tbu_transition s Prepare s'" "tbu_transition s Activate s'" "tbu_transition s Deactivate s'"

definition allowed :: "update_state \<Rightarrow> update_command \<Rightarrow> bool" where
  "allowed s c \<longleftrightarrow> (\<exists>s'. tbu_transition s c s')"

lemma allowed_simps [simp]:
  "allowed s Refresh" "allowed s Prepare \<longleftrightarrow> s \<in> {Available, Staged}"
  "allowed s Activate \<longleftrightarrow> s = Staged" "allowed s Deactivate \<longleftrightarrow> s = Ready"
  by (cases s; auto simp: allowed_def tbu_transition_simps)+

lemma drive_refused:
  "\<not> allowed (update_state (status p)) c \<Longrightarrow>
     drive_state_machine env c cfg p = (p, Inl (DisallowCommand c (update_state (status p))))"
  by (cases c; cases "update_state (status p)") (auto simp: drive_state_machine_def)

lemma drive_transition:
  assumes "drive_state_machine env c cfg p = (p', r)" "\<exists>y. active_partition (status p) = Some y"
  shows "case r of Inr _ \<Rightarrow> tbu_transition (update_state (status p)) c (update_state (status p'))
    | Inl _ \<Rightarrow> update_state (status p') = update_state (status p)"
proof -
  obtain p1 r1 where rf: "refresh env cfg p = (p1, r1)" by force
  obtain p2 r2 where pr: "prepare env p = (p2, r2)" by force
  obtain p3 r3 where ac: "activate env p = (p3, r3)" by force
  obtain p4 r4 where de: "deactivate env p = (p4, r4)" by force
  show ?thesis
  proof (cases c)
    case Refresh
    then show ?thesis
      using assms(1) refresh_effect [OF rf]
      by (cases "update_state (status p)"; cases r1)
         (auto simp: drive_state_machine_def rf set_update_state_def tbu_transition_simps)
  next
    case Prepare
    then show ?thesis
      using assms(1) prepare_effect [OF pr]
      by (cases "update_state (status p)"; cases r2; cases "chosen_update (status p)")
         (auto simp: drive_state_machine_def pr set_update_state_def ensure_def tbu_transition_simps)
  next
    case Activate
    then show ?thesis
      using assms(1) activate_effect [OF ac assms(2)]
      by (cases "update_state (status p)"; cases r3; cases "staging_partition (status p)")
         (auto simp: drive_state_machine_def ac set_update_state_def ensure_def tbu_transition_simps)
  next
    case Deactivate
    then show ?thesis
      using assms(1) deactivate_effect [OF de assms(2)]
      by (cases "update_state (status p)"; cases r4; cases "staging_partition (status p)")
         (auto simp: drive_state_machine_def de set_update_state_def ensure_def tbu_transition_simps)
  qed
qed

section \<open>Invocations that overlap\<close>

text \<open>
  The forked child holds the lock until it has written the status file; meanwhile other invocations
  find the lock taken. The state is the file and the child that is running, if any.
\<close>

record ('v, 'g, 'd, 'e) tbu_system =
  sys_file :: "'v status_file"
  sys_child :: "(('v, 'g, 'd, 'e) tbu_env \<times> tbu_args) option"

inductive tbu_step :: "('v::linorder, 'g, 'd, 'e) tbu_system \<Rightarrow> ('v, 'g, 'd, 'e) tbu_system \<Rightarrow> bool" where
  completes: "sys_child s = None \<Longrightarrow>
    run (env :: ('v, 'g, 'd, 'e) tbu_env) args True (sys_file s) = (f, False, r) \<Longrightarrow> tbu_step s (s\<lparr>sys_file := f\<rparr>)"
| forks: "sys_child s = None \<Longrightarrow> run env args True (sys_file s) = (f, True, r) \<Longrightarrow>
    tbu_step s \<lparr>sys_file = fst (ensure_status_file env (sys_file s)), sys_child = Some (env, args)\<rparr>"
| child_done: "sys_child s = Some (env, args) \<Longrightarrow> run env args True (sys_file s) = (f, forked, r) \<Longrightarrow>
    tbu_step s \<lparr>sys_file = f, sys_child = None\<rparr>"
| busy: "sys_child s = Some child \<Longrightarrow>
    run (env :: ('v, 'g, 'd, 'e) tbu_env) args False (sys_file s) = (f, forked, r) \<Longrightarrow> tbu_step s (s\<lparr>sys_file := f\<rparr>)"

definition file_inv :: "'v status_file \<Rightarrow> bool" where
  "file_inv f \<longleftrightarrow> (\<forall>st. f = Some (Some st) \<longrightarrow> status_inv st)"

lemma initialize_inv: "file_inv file \<Longrightarrow> file_inv (fst (initialize_update_status env file))"
  by (auto simp: initialize_update_status_def update_active_partition_info_def write_update_status_def
      file_inv_def status_inv_def status_new_def Let_def split: option.splits sum.splits prod.splits)

lemma ensure_inv: "file_inv file \<Longrightarrow> file_inv (fst (ensure_status_file env file))"
  by (cases "file") (auto simp: ensure_status_file_def dest: initialize_inv)

lemma ensure_idempotent:
  "ensure_status_file env file = (f, Inr ()) \<Longrightarrow> ensure_status_file env f = (f, Inr ())"
  by (auto simp: ensure_status_file_def initialize_update_status_def write_update_status_def split: option.splits prod.splits sum.splits if_splits)

lemma run_locked: "run env args False file = (f, forked, r) \<Longrightarrow> f = file \<and> \<not> forked \<and> \<not> is_ok r"
  by (auto simp: run_def lock_exclusive_def ensure_def split: if_splits)

lemma run_inv:
  assumes "run env args lock_free file = (f, forked, r)" "file_inv file"
  shows "file_inv f"
proof -
  obtain f1 r1 where en: "ensure_status_file env file = (f1, r1)" by force
  have i1: "file_inv f1" using ensure_inv [OF assms(2), of env] en by simp
  have "status_inv (status (fst (drive_state_machine env (subcommand args) (config_path args) \<lparr>status = st, in_child = False\<rparr>)))"
    if "f1 = Some (Some st)" for st
    using i1 that by (intro drive_inv) (simp add: file_inv_def)
  then show ?thesis
    using assms i1 en
    by (auto simp: run_def get_update_status_def write_update_status_def file_inv_def lock_exclusive_def ensure_def
        split: sum.splits prod.splits option.splits if_splits)
qed

lemma tbu_step_inv: "tbu_step s s' \<Longrightarrow> file_inv (sys_file s) \<Longrightarrow> file_inv (sys_file s')"
  by (induction rule: tbu_step.induct) (auto intro: run_inv ensure_inv)

text \<open>A child that was forked off does what the invocation would have done alone.\<close>

lemma child_continues:
  assumes "run env args True file = (f, True, r)"
  shows "run env args True (fst (ensure_status_file env file)) = (f, True, r)"
proof -
  obtain f1 r1 where en: "ensure_status_file env file = (f1, r1)" by force
  then have "r1 = Inr ()" using assms by (cases r1) (auto simp: run_def split: sum.splits)
  then show ?thesis using assms en ensure_idempotent [of env "file" f1]
    unfolding run_def by (auto split: sum.splits)
qed

lemma run_plain:
  assumes "env_write env = None" "env_logger env" "env_lockfile env"
    and "drive_state_machine env (subcommand args) (config_path args) \<lparr>status = st, in_child = False\<rparr> = (p, r)"
  shows "run env args True (Some (Some st)) = (Some (Some (status p)), in_child p, r)"
  using assms by (simp add: run_def lock_exclusive_def ensure_def ensure_status_file_def get_update_status_def write_update_status_def)

lemma latest_greatest:
  fixes us :: "'v::linorder update list"
  assumes "sorted_wrt (\<lambda>u u'. version u \<ge> version u') us" "find P us = Some u" "u' \<in> set us" "P u'"
  shows "version u' \<le> version u"
  using assms by (induction us) (auto split: if_splits)

section \<open>Properties\<close>

text \<open>A machine with one update on offer, whose \<open>updog\<close> always succeeds.\<close>

definition sample_updog :: "string list \<Rightarrow> nat updog_output option" where
  "sample_updog args = Some \<lparr>out_code = Some 0, out_signal = None, out_updates = Some [sample_update], out_stderr = []\<rparr>"

definition sample_env :: "(nat, (nat list \<times> u64) list, string, string) tbu_env" where
  "sample_env = \<lparr>env_release = Some (''x86_64'', 1, ''aws-k8s''), env_signpost = sample_lib, env_load = Inr sample_state,
     env_settings = \<lambda>_. Inr (Some ''latest''), env_version = \<lambda>_. None, env_now = 0, env_fork = True,
     env_updog = sample_updog, env_level = \<lambda>_. True, env_logger = True, env_lockfile = True, env_write = None\<rparr>"

definition sample_args :: "update_command \<Rightarrow> tbu_args" where
  "sample_args c = \<lparr>subcommand = c, log_level = ''info'', config_path = ''/etc/thar-be-updates.toml''\<rparr>"

definition sample_file :: "nat status_file" where
  "sample_file = fst (run sample_env (sample_args Refresh) True None)"

lemma sample_run: "run sample_env (sample_args Refresh) True None = (sample_file, True, Inr ())"
  unfolding sample_file_def by code_simp

text \<open>
  C8: the status file is always consistent, however invocations overlap. From no file or a consistent
  one, every sequence of invocations, forks, finishing children and refused attempts leaves a status
  in which an available update is chosen, a staged image is recorded and not next to boot, and when
  the update is ready the staged image is next to boot and the active one is not.
\<close>

theorem tbu_status_consistent:
  assumes "tbu_step\<^sup>*\<^sup>* s s'" "file_inv (sys_file s)"
  shows "file_inv (sys_file s')"
  using assms by (induction rule: rtranclp_induct) (auto intro: tbu_step_inv)

theorem tbu_status_consistent_witness:
  "file_inv (fst (ensure_status_file sample_env None)) \<and> file_inv sample_file"
proof -
  let ?s = "\<lparr>sys_file = None, sys_child = None\<rparr> :: (nat, (nat list \<times> u64) list, string, string) tbu_system"
  let ?s1 = "\<lparr>sys_file = fst (ensure_status_file sample_env None), sys_child = Some (sample_env, sample_args Refresh)\<rparr>"
  have s1: "tbu_step ?s ?s1" using tbu_step.forks [of ?s sample_env "sample_args Refresh"] sample_run by simp
  have s2: "tbu_step ?s1 \<lparr>sys_file = sample_file, sys_child = None\<rparr>"
    using tbu_step.child_done [of ?s1 sample_env "sample_args Refresh"] child_continues [OF sample_run] by simp
  have "file_inv (sys_file ?s)" by (simp add: file_inv_def)
  then show ?thesis
    using tbu_status_consistent [of ?s ?s1] tbu_status_consistent [of ?s "\<lparr>sys_file = sample_file, sys_child = None\<rparr>"] s1 s2
    by (auto intro: rtranclp.intros)
qed

text \<open>
  C38: the update state machine. An invocation on a consistent status either is a command the state
  does not allow, which is refused with the status unchanged and nothing forked, or leaves the update
  state unchanged, or makes a documented transition, which it always does when it succeeds.
\<close>

theorem tbu_follows_state_machine:
  assumes "env_write env = None" "env_logger env" "env_lockfile env" "status_inv st"
    and "run env args True (Some (Some st)) = (f, forked, r)"
  shows "\<exists>st'. f = Some (Some st') \<and>
    (if allowed (update_state st) (subcommand args)
     then (case r of Inr _ \<Rightarrow> tbu_transition (update_state st) (subcommand args) (update_state st') | Inl _ \<Rightarrow> update_state st' = update_state st)
     else st' = st \<and> \<not> forked \<and> r = Inl (DisallowCommand (subcommand args) (update_state st)))"
proof -
  let ?p = "\<lparr>status = st, in_child = False\<rparr>"
  obtain p r' where d: "drive_state_machine env (subcommand args) (config_path args) ?p = (p, r')" by force
  then have e: "f = Some (Some (status p))" "forked = in_child p" "r = r'"
    using run_plain [OF assms(1-3) d] assms(5) by simp_all
  have "\<exists>y. active_partition (status ?p) = Some y" using assms(4) by (auto simp: status_inv_def)
  note t = drive_transition [OF d this]
  show ?thesis
  proof (cases "allowed (update_state st) (subcommand args)")
    case True
    then show ?thesis using t e by (cases r') simp_all
  next
    case False
    then show ?thesis using drive_refused [of ?p "subcommand args" env "config_path args"] d e by auto
  qed
qed

definition staged_status :: "nat update_status" where
  "staged_status = \<lparr>update_state = Staged, available_updates = [3], chosen_update = None,
     active_partition = Some \<lparr>staged_img = \<lparr>img_arch = ''x86_64'', img_version = 1, img_variant = ''aws-k8s''\<rparr>, next_to_boot = True\<rparr>,
     staging_partition = Some \<lparr>staged_img = \<lparr>img_arch = ''x86_64'', img_version = 3, img_variant = ''aws-k8s''\<rparr>, next_to_boot = False\<rparr>,
     most_recent_command = None\<rparr>"

lemma sample_activates: "snd (snd (run sample_env (sample_args Activate) True (Some (Some staged_status)))) = Inr ()"
  by code_simp

theorem tbu_follows_state_machine_witness:
  "\<exists>st'. fst (run sample_env (sample_args Activate) True (Some (Some staged_status))) = Some (Some st') \<and> update_state st' = Ready"
proof -
  obtain f forked where f: "run sample_env (sample_args Activate) True (Some (Some staged_status)) = (f, forked, Inr ())"
    by (cases "run sample_env (sample_args Activate) True (Some (Some staged_status))") (use sample_activates in auto)
  have "env_write sample_env = None" "env_logger sample_env" "env_lockfile sample_env" "status_inv staged_status"
    by (simp_all add: sample_env_def status_inv_def staged_status_def)
  note step = tbu_follows_state_machine [OF this f]
  have "subcommand (sample_args Activate) = Activate" "update_state staged_status = Staged"
    by (simp_all add: sample_args_def staged_status_def)
  with step show ?thesis by (simp add: f tbu_transition_simps)
qed

text \<open>
  C3: with the version lock at \<open>latest\<close>, a successful refresh from a manifest that lists its updates
  newest first chooses an update exactly when one is newer than the running version or the running
  version is above an update's maximum, and then the newest such update.
\<close>

theorem refresh_chooses_latest:
  assumes "env_settings env cfg = Inr (Some ''latest'')" "env_release env = Some (ra, ver, rv)"
    and "sorted_wrt (\<lambda>u u'. version u \<ge> version u') us"
    and "update_available_updates env cfg us st = (st', r)"
  shows "if \<exists>u \<in> set us. ver < version u \<or> ver > max_version u
    then r = Inr True \<and> (\<exists>u \<in> set us. (ver < version u \<or> ver > max_version u) \<and> chosen_update st' = Some (update_image_of u) \<and>
           (\<forall>u' \<in> set us. ver < version u' \<or> ver > max_version u' \<longrightarrow> version u' \<le> version u))
    else r = Inr False \<and> chosen_update st' = None"
proof (cases "find (\<lambda>u. ver < version u \<or> ver > max_version u) us")
  case None
  then have "\<not> (\<exists>u \<in> set us. ver < version u \<or> ver > max_version u)" by (auto simp: find_None_iff)
  then show ?thesis using None assms by (auto simp: update_available_updates_def Let_def ok_or_def get_latest_update_def)
next
  case (Some u)
  then have u: "u \<in> set us" "ver < version u \<or> ver > max_version u" by (auto simp: find_Some_iff)
  moreover have "r = Inr True" "chosen_update st' = Some (update_image_of u)"
    using Some assms(1,2,4) by (auto simp: update_available_updates_def Let_def ok_or_def get_latest_update_def)
  ultimately show ?thesis using latest_greatest [OF assms(3) Some] by auto
qed

theorem refresh_chooses_latest_witness:
  "\<exists>u \<in> set [sample_update]. chosen_update (fst (update_available_updates sample_env [] [sample_update] status_new)) = Some (update_image_of u)"
  using refresh_chooses_latest [of sample_env "[]" "''x86_64''" 1 "''aws-k8s''" "[sample_update]" status_new, OF _ _ _ prod.collapse [symmetric]]
  by (auto simp: sample_env_def sample_update_def)

end
