(* ===== verification/Updog.thy ===== *)
theory Updog
  imports Signpost Update_Metadata
begin

text \<open>
  \<open>sources/updater/updog\<close>: choosing an update from the manifest, writing its images to the inactive
  partition set and changing the boot flags. The repository (\<open>tough\<close>), the configuration, the release
  file and the devices are the record \<open>updog_env\<close>; the partition table is handled by the model of
  signpost, and migrations are found by the model of \<open>update_metadata\<close>.
\<close>

section \<open>Definitions\<close>

subsection \<open>error.rs\<close>

text \<open>Causes from other crates and backtraces are left out of the payloads.\<close>

datatype ('v, 'e) updog_error =
    BadVersion string | BadVersionConfig string | ConfigParse string | ConfigRead string
  | CreateMetadataCache string | DirCreate string | Logger | InactivePartitionUpgrade "'e signpost_error"
  | InactivePartitionMissing | Lz4Decode string | TargetName string | ManifestLoad | ManifestNotFound
  | ManifestParse | Metadata | MigrationCopyFailed string | OpenPartition string | OpenRoot string
  | PartitionTableRead "'e signpost_error" | PartitionTableWrite "'e signpost_error" | Proxy string
  | RebootFailure | ReleaseParse string | ReleaseVersion | TargetNotFound string | TmpFileCreate
  | UpdateNotAvailable | UpdateSerialize | WaveFileArg | WriteUpdate | UpdateMetadata "'v metadata_error"
  | Signal | RepoCacheMigrations | UrlParse string

subsection \<open>transport.rs\<close>

type_synonym query_params = "(string \<times> string) list"

definition add_param :: "string \<Rightarrow> string \<Rightarrow> query_params \<Rightarrow> query_params" where
  "add_param key val params = params @ [(key, val)]"

text \<open>The list is left sorted, and its pairs are what the URL is extended with.\<close>

definition add_params_to_url :: "query_params \<Rightarrow> query_params \<times> query_params" where
  "add_params_to_url params = (let params = sort_key fst params in (params, params))"

subsection \<open>main.rs: choosing an update\<close>

datatype updog_command = CheckUpdate | Whats | Prepare | Update | UpdateImage | UpdateApply | UpdateRevert

record updog_config =
  metadata_base_url :: string
  targets_base_url :: string
  seed :: u32
  version_lock :: string
  ignore_waves :: bool
  https_proxy :: "string option"
  no_proxy :: "string list option"

text \<open>
  \<open>fetch_target\<close> is \<open>read_target\<close> with its LZ4 stream opened: the bytes that can be copied from it and
  whether the copy reaches the end. \<open>sort_desc\<close> is \<open>sort_unstable_by\<close> on descending versions, which
  may order equal versions either way. A call of \<open>Utc::now\<close> yields \<open>now\<close>.
\<close>

record ('v, 'g, 'd, 'e, 'k) updog_env =
  target_arch :: string
  now :: instant
  chrono :: chrono_lib
  sort_desc :: "'v update list \<Rightarrow> 'v update list"
  friendly_version :: "string \<Rightarrow> bool"
  semver_of :: "string \<Rightarrow> 'v option"
  show_version :: "'v \<Rightarrow> string"
  sign_lib :: "('g, 'd, 'e) signpost_lib"
  read_table :: "'k \<Rightarrow> string \<Rightarrow> ('e + 'e) + 'g"
  write_table :: "'g \<Rightarrow> 'k \<Rightarrow> 'k \<times> (('e + 'e) + unit)"
  fetch_target :: "string \<Rightarrow> ('v, 'e) updog_error + string \<times> bool"
  can_open :: "string \<Rightarrow> bool"
  migration_dir :: bool
  cache_targets :: "string list \<Rightarrow> bool"
  reboot_result :: "('v, 'e) updog_error + unit"
  config_file :: "('v, 'e) updog_error + updog_config"
  release_file :: "(string \<times> 'v) option"
  load_repository :: "updog_config \<Rightarrow> ('v, 'e) updog_error + unit"
  load_manifest :: "('v, 'e) updog_error + 'v manifest"
  level_ok :: "string \<Rightarrow> bool"
  logger_ok :: bool
  update_json :: "'v update \<Rightarrow> string"
  updates_json :: "'v update list \<Rightarrow> string"

text \<open>The filter of \<open>applicable_updates\<close>; \<open>None\<close> is a panic in \<open>update_ready\<close>.\<close>

fun filter_updates ::
  "('v::linorder, 'g, 'd, 'e, 'k) updog_env \<Rightarrow> string \<Rightarrow> bool \<Rightarrow> u32 \<Rightarrow> 'v update list \<Rightarrow> 'v update list option" where
  "filter_updates env var ignore sd [] = Some []"
| "filter_updates env var ignore sd (u # us) =
     (if variant u = var \<and> arch u = target_arch env \<and> version u \<le> max_version u
      then case (if ignore then Some True else update_ready (chrono env) u sd (now env)) of
             None \<Rightarrow> None
           | Some ready \<Rightarrow> map_option (\<lambda>us. if ready then u # us else us) (filter_updates env var ignore sd us)
      else filter_updates env var ignore sd us)"

definition applicable_updates ::
  "('v::linorder, 'g, 'd, 'e, 'k) updog_env \<Rightarrow> 'v manifest \<Rightarrow> string \<Rightarrow> bool \<Rightarrow> u32 \<Rightarrow> 'v update list option" where
  "applicable_updates env m var ignore sd = map_option (sort_desc env) (filter_updates env var ignore sd (updates m))"

definition choose_update ::
  "('v::linorder, 'g, 'd, 'e, 'k) updog_env \<Rightarrow> 'v \<Rightarrow> string \<Rightarrow> 'v option \<Rightarrow> 'v update list
     \<Rightarrow> ('v, 'e) updog_error + 'v update option" where
  "choose_update env ver lock force us =
     (case force of
        Some forced \<Rightarrow> Inr (find (\<lambda>u. version u = forced) us)
      | None \<Rightarrow>
          if lock \<noteq> ''latest'' then
            and_then (ensure (friendly_version env lock) (BadVersionConfig lock)) (\<lambda>_.
            and_then (ok_or (BadVersion lock) (semver_of env lock)) (\<lambda>locked.
            if locked = ver then Inr None else Inr (find (\<lambda>u. version u = locked) us)))
          else Inr (find (\<lambda>u. ver < version u \<or> ver > max_version u) us))"

definition update_required ::
  "('v::linorder, 'g, 'd, 'e, 'k) updog_env \<Rightarrow> 'v manifest \<Rightarrow> 'v \<Rightarrow> string \<Rightarrow> bool \<Rightarrow> u32 \<Rightarrow> string \<Rightarrow> 'v option
     \<Rightarrow> (('v, 'e) updog_error + 'v update option) option" where
  "update_required env m ver var ignore sd lock force =
     map_option (choose_update env ver lock force) (applicable_updates env m var ignore sd)"

subsection \<open>main.rs: the machine\<close>

text \<open>The partition table's disk, what is written on the partitions, and the process's own traces.\<close>

record 'k updog_world =
  disk :: 'k
  partitions :: "string \<rightharpoonup> string"
  cached :: "string list"
  query :: query_params
  rebooted :: bool
  env_vars :: "(string \<times> string) list"
  printed :: "string list"

definition write_target_to_disk ::
  "('v, 'g, 'd, 'e, 'k) updog_env \<Rightarrow> string \<Rightarrow> string \<Rightarrow> 'k updog_world \<Rightarrow> 'k updog_world \<times> (('v, 'e) updog_error + unit)" where
  "write_target_to_disk env target path w =
     op_bind (w, fetch_target env target) (\<lambda>(content, complete) w.
     op_bind (w, ensure (can_open env path) (OpenPartition path)) (\<lambda>_ w.
       (w\<lparr>partitions := (partitions w)(path \<mapsto> content)\<rparr>, ensure complete WriteUpdate)) id) id"

definition write_gpt ::
  "('v, 'g, 'd, 'e, 'k) updog_env \<Rightarrow> 'g state \<Rightarrow> 'k updog_world \<Rightarrow> 'k updog_world \<times> (('v, 'e) updog_error + unit)" where
  "write_gpt env s w =
     (case write_state (write_table env) s (disk w) of (k, r) \<Rightarrow> (w\<lparr>disk := k\<rparr>, map_err PartitionTableWrite r))"

definition load_gpt ::
  "('v, 'g, 'd, 'e, 'k) updog_env \<Rightarrow> 'k updog_world \<Rightarrow> 'k updog_world \<times> (('v, 'e) updog_error + 'g state)" where
  "load_gpt env w = (w, map_err PartitionTableRead (load_state (sign_lib env) (read_table env (disk w))))"

definition retrieve_migrations ::
  "('v::linorder, 'g, 'd, 'e, 'k) updog_env \<Rightarrow> 'v manifest \<Rightarrow> 'v update \<Rightarrow> 'v \<Rightarrow> 'k updog_world
     \<Rightarrow> ('k updog_world \<times> (('v, 'e) updog_error + unit)) option" where
  "retrieve_migrations env m u current w =
     (let target = max (version u) current; start = min (version u) current in
      if \<not> migration_dir env then Some (w, Inl (DirCreate ''/var/lib/bottlerocket-migrations''))
      else map_option (\<lambda>found.
        op_bind (w, map_err UpdateMetadata found) (\<lambda>targets w.
          let targets = targets @ [''manifest.json''] in
          if \<not> cache_targets env targets then (w, Inl RepoCacheMigrations)
          else (w\<lparr>cached := targets, query := add_param ''migrations'' (join '','' targets) (query w)\<rparr>, Inr ())) id)
        (find_migrations start target m))"

definition update_image ::
  "('v, 'g, 'd, 'e, 'k) updog_env \<Rightarrow> 'v update \<Rightarrow> 'k updog_world \<Rightarrow> 'k updog_world \<times> (('v, 'e) updog_error + unit)" where
  "update_image env u w =
     op_bind (load_gpt env w) (\<lambda>s w.
     case clear_inactive (sign_lib env) s of (s, cleared) \<Rightarrow>
     op_bind (w, map_err (\<lambda>_. InactivePartitionMissing) cleared) (\<lambda>_ w.
     op_bind (write_gpt env s w) (\<lambda>_ w.
     op_bind (w, ok_or InactivePartitionMissing (inactive_set s)) (\<lambda>inactive w.
     op_bind (write_target_to_disk env (root_image (update_images u)) (set_root inactive) w) (\<lambda>_ w.
     op_bind (write_target_to_disk env (boot_image (update_images u)) (set_boot inactive) w) (\<lambda>_ w.
     op_bind (write_target_to_disk env (hash_image (update_images u)) (set_hash inactive) w) (\<lambda>_ w.
     case mark_inactive_valid (sign_lib env) s of (s, marked) \<Rightarrow>
     op_bind (w, map_err (\<lambda>_. InactivePartitionMissing) marked) (\<lambda>_ w.
     write_gpt env s w) id) id) id) id) id) id) id) id"

definition update_flags ::
  "('v, 'g, 'd, 'e, 'k) updog_env \<Rightarrow> 'k updog_world \<Rightarrow> 'k updog_world \<times> (('v, 'e) updog_error + unit)" where
  "update_flags env w =
     op_bind (load_gpt env w) (\<lambda>s w.
     case upgrade_to_inactive (sign_lib env) s of (s, upgraded) \<Rightarrow>
     op_bind (w, map_err InactivePartitionUpgrade upgraded) (\<lambda>_ w. write_gpt env s w) id) id"

definition revert_update_flags ::
  "('v, 'g, 'd, 'e, 'k) updog_env \<Rightarrow> 'k updog_world \<Rightarrow> 'k updog_world \<times> (('v, 'e) updog_error + unit)" where
  "revert_update_flags env w =
     op_bind (load_gpt env w) (\<lambda>s w.
     case cancel_upgrade (sign_lib env) s of (s, cancelled) \<Rightarrow>
     op_bind (w, map_err (\<lambda>_. InactivePartitionMissing) cancelled) (\<lambda>_ w. write_gpt env s w) id) id"

definition set_common_query_params ::
  "('v, 'g, 'd, 'e, 'k) updog_env \<Rightarrow> 'v \<Rightarrow> updog_config \<Rightarrow> 'k updog_world \<Rightarrow> 'k updog_world" where
  "set_common_query_params env ver config w =
     w\<lparr>query := add_param ''seed'' (show_nat (unat (seed config))) (add_param ''version'' (show_version env ver) (query w))\<rparr>"

definition fmt_full_version :: "('v, 'g, 'd, 'e, 'k) updog_env \<Rightarrow> 'v update \<Rightarrow> string" where
  "fmt_full_version env u = variant u @ '' '' @ show_version env (version u)"

definition initiate_reboot ::
  "('v, 'g, 'd, 'e, 'k) updog_env \<Rightarrow> 'k updog_world \<Rightarrow> 'k updog_world \<times> (('v, 'e) updog_error + unit)" where
  "initiate_reboot env w =
     op_bind (w, reboot_result env) (\<lambda>_ w. (w\<lparr>rebooted := True\<rparr>, Inr ())) id"

definition set_https_proxy_environment_variables :: "updog_config \<Rightarrow> 'k updog_world \<Rightarrow> 'k updog_world" where
  "set_https_proxy_environment_variables config w =
     (case https_proxy config of
        Some s \<Rightarrow>
          if s = [] then w
          else let w = w\<lparr>env_vars := env_vars w @ [(''HTTPS_PROXY'', s)]\<rparr> in
               (case no_proxy config of
                  Some hosts \<Rightarrow> if hosts = [] then w else w\<lparr>env_vars := env_vars w @ [(''NO_PROXY'', join '','' hosts)]\<rparr>
                | None \<Rightarrow> w)
      | None \<Rightarrow> w)"

definition output_line :: "bool \<Rightarrow> string \<Rightarrow> string \<Rightarrow> 'k updog_world \<Rightarrow> 'k updog_world" where
  "output_line json object text w = w\<lparr>printed := printed w @ [if json then object else text]\<rparr>"

text \<open>Without \<open>--json\<close> the list goes to standard error.\<close>

definition list_updates ::
  "('v::linorder, 'g, 'd, 'e, 'k) updog_env \<Rightarrow> 'v manifest \<Rightarrow> string \<Rightarrow> bool \<Rightarrow> bool \<Rightarrow> u32 \<Rightarrow> 'k updog_world
     \<Rightarrow> 'k updog_world option" where
  "list_updates env m var json ignore sd w =
     map_option (\<lambda>us. if json then w\<lparr>printed := printed w @ [updates_json env us]\<rparr> else w)
       (applicable_updates env m var ignore sd)"

subsection \<open>main.rs: arguments and dispatch\<close>

record 'v updog_arguments =
  subcommand :: "string option"
  log_level :: string
  json :: bool
  arg_ignore_waves :: bool
  force_version :: "'v option"
  all_updates :: bool
  reboot :: bool
  arg_variant :: "string option"

text \<open>\<open>None\<close> is the usage message and exit code 1.\<close>

fun parse_updog_args ::
  "('v, 'g, 'd, 'e, 'k) updog_env \<Rightarrow> string list \<Rightarrow> 'v updog_arguments \<Rightarrow> 'v updog_arguments option" where
  "parse_updog_args env [] a = (if subcommand a = None then None else Some a)"
| "parse_updog_args env (arg # args) a =
     (if arg = ''--log-level'' then
        (case args of v # rest \<Rightarrow> if level_ok env v then parse_updog_args env rest (a\<lparr>log_level := v\<rparr>) else None | [] \<Rightarrow> None)
      else if arg = ''-i'' \<or> arg = ''--image'' then
        (case args of
           v # rest \<Rightarrow> (case semver_of env v of Some ver \<Rightarrow> parse_updog_args env rest (a\<lparr>force_version := Some ver\<rparr>) | None \<Rightarrow> None)
         | [] \<Rightarrow> None)
      else if arg = ''--variant'' then
        (case args of v # rest \<Rightarrow> parse_updog_args env rest (a\<lparr>arg_variant := Some v\<rparr>) | [] \<Rightarrow> None)
      else if arg = ''-n'' \<or> arg = ''--now'' \<or> arg = ''--ignore-waves'' then parse_updog_args env args (a\<lparr>arg_ignore_waves := True\<rparr>)
      else if arg = ''-j'' \<or> arg = ''--json'' then parse_updog_args env args (a\<lparr>json := True\<rparr>)
      else if arg = ''-r'' \<or> arg = ''--reboot'' then parse_updog_args env args (a\<lparr>reboot := True\<rparr>)
      else if arg = ''-a'' \<or> arg = ''--all'' then parse_updog_args env args (a\<lparr>all_updates := True\<rparr>)
      else if \<not> starts_with arg ''-'' then
        (if subcommand a \<noteq> None then None else parse_updog_args env args (a\<lparr>subcommand := Some arg\<rparr>))
      else None)"

definition updog_command_of :: "string \<Rightarrow> updog_command option" where
  "updog_command_of arg =
     map_of [(''check-update'', CheckUpdate), (''whats'', Whats), (''prepare'', Prepare), (''update'', Update),
             (''update-image'', UpdateImage), (''update-apply'', UpdateApply), (''update-revert'', UpdateRevert)] arg"

text \<open>The arms of the dispatch. \<open>None\<close>: a panic, or migrations that are searched for ever.\<close>

definition check_update ::
  "('v::linorder, 'g, 'd, 'e, 'k) updog_env \<Rightarrow> 'v updog_arguments \<Rightarrow> updog_config \<Rightarrow> 'v manifest \<Rightarrow> 'v \<Rightarrow> string
     \<Rightarrow> 'k updog_world \<Rightarrow> ('k updog_world \<times> (('v, 'e) updog_error + unit)) option" where
  "check_update env a config m ver var w =
     (let ignore = arg_ignore_waves a \<or> ignore_waves config in
      if all_updates a then map_option (\<lambda>w. (w, Inr ())) (list_updates env m var (json a) ignore (seed config) w)
      else map_option (\<lambda>required.
             op_bind (w, and_then required (ok_or UpdateNotAvailable)) (\<lambda>u w.
               (output_line (json a) (update_json env u) (fmt_full_version env u) w, Inr ())) id)
             (update_required env m ver var ignore (seed config) (version_lock config) (force_version a)))"

definition apply_update ::
  "('v::linorder, 'g, 'd, 'e, 'k) updog_env \<Rightarrow> bool \<Rightarrow> 'v updog_arguments \<Rightarrow> 'v manifest \<Rightarrow> 'v \<Rightarrow> 'v update
     \<Rightarrow> 'k updog_world \<Rightarrow> ('k updog_world \<times> (('v, 'e) updog_error + unit)) option" where
  "apply_update env flags a m ver u w =
     map_option (\<lambda>retrieved.
       op_bind retrieved (\<lambda>_ w.
       op_bind (update_image env u w) (\<lambda>_ w.
       op_bind (if flags then op_bind (update_flags env w) (\<lambda>_ w. if reboot a then initiate_reboot env w else (w, Inr ())) id
                else (w, Inr ())) (\<lambda>_ w.
         (output_line (json a) (update_json env u) (''Update applied: '' @ fmt_full_version env u) w, Inr ())) id) id) id)
       (retrieve_migrations env m u ver (w\<lparr>query := add_param ''target'' (show_version env (version u)) (query w)\<rparr>))"

definition perform_update ::
  "('v::linorder, 'g, 'd, 'e, 'k) updog_env \<Rightarrow> bool \<Rightarrow> 'v updog_arguments \<Rightarrow> updog_config \<Rightarrow> 'v manifest \<Rightarrow> 'v \<Rightarrow> string
     \<Rightarrow> 'k updog_world \<Rightarrow> ('k updog_world \<times> (('v, 'e) updog_error + unit)) option" where
  "perform_update env flags a config m ver var w =
     (case update_required env m ver var (arg_ignore_waves a \<or> ignore_waves config) (seed config) (version_lock config) (force_version a) of
        None \<Rightarrow> None
      | Some (Inl e) \<Rightarrow> Some (w, Inl e)
      | Some (Inr None) \<Rightarrow> Some (w, Inr ())
      | Some (Inr (Some u)) \<Rightarrow> apply_update env flags a m ver u w)"

definition dispatch ::
  "('v::linorder, 'g, 'd, 'e, 'k) updog_env \<Rightarrow> updog_command \<Rightarrow> 'v updog_arguments \<Rightarrow> updog_config \<Rightarrow> 'v manifest \<Rightarrow> 'v \<Rightarrow> string
     \<Rightarrow> 'k updog_world \<Rightarrow> ('k updog_world \<times> (('v, 'e) updog_error + unit)) option" where
  "dispatch env cmd a config m ver var w =
     (case cmd of
        CheckUpdate \<Rightarrow> check_update env a config m ver var w
      | Whats \<Rightarrow> check_update env a config m ver var w
      | Update \<Rightarrow> perform_update env True a config m ver var w
      | UpdateImage \<Rightarrow> perform_update env False a config m ver var w
      | UpdateApply \<Rightarrow> Some (op_bind (update_flags env w) (\<lambda>_ w. if reboot a then initiate_reboot env w else (w, Inr ())) id)
      | UpdateRevert \<Rightarrow> Some (revert_update_flags env w)
      | Prepare \<Rightarrow> Some (w, Inr ()))"

definition main_inner ::
  "('v::linorder, 'g, 'd, 'e, 'k) updog_env \<Rightarrow> updog_command \<Rightarrow> 'v updog_arguments \<Rightarrow> 'k updog_world
     \<Rightarrow> ('k updog_world \<times> (('v, 'e) updog_error + unit)) option" where
  "main_inner env cmd a w =
     (case config_file env of
        Inl e \<Rightarrow> Some (w, Inl e)
      | Inr config \<Rightarrow>
          let w = set_https_proxy_environment_variables config w in
          (case release_file env of
             None \<Rightarrow> Some (w, Inl ReleaseVersion)
           | Some (release_variant, ver) \<Rightarrow>
               let var = (case arg_variant a of Some v \<Rightarrow> v | None \<Rightarrow> release_variant);
                   w = set_common_query_params env ver config w
               in (case and_then (load_repository env config) (\<lambda>_. load_manifest env) of
                     Inl e \<Rightarrow> Some (w, Inl e)
                   | Inr m \<Rightarrow> dispatch env cmd a config m ver var w)))"

text \<open>\<open>main\<close> with the head of \<open>main_inner\<close>: the world afterwards and the exit code.\<close>

definition updog_main ::
  "('v::linorder, 'g, 'd, 'e, 'k) updog_env \<Rightarrow> string list \<Rightarrow> 'k updog_world \<Rightarrow> ('k updog_world \<times> nat) option" where
  "updog_main env args w =
     (case parse_updog_args env (drop 1 args)
             \<lparr>subcommand = None, log_level = ''info'', json = False, arg_ignore_waves = False, force_version = None,
              all_updates = False, reboot = False, arg_variant = None\<rparr> of
        None \<Rightarrow> Some (w, 1)
      | Some a \<Rightarrow>
          if \<not> logger_ok env then Some (w, 1)
          else (case updog_command_of (the (subcommand a)) of
                  None \<Rightarrow> Some (w, 1)
                | Some cmd \<Rightarrow> map_option (\<lambda>(w, r). (w, if is_ok r then 0 else 1)) (main_inner env cmd a w)))"

section \<open>The partition table during an update\<close>

text \<open>A disk that keeps a table that was written, and is left alone by a write that fails.\<close>

definition sound_disk ::
  "('k \<Rightarrow> string \<Rightarrow> ('e + 'e) + 'g) \<Rightarrow> ('g \<Rightarrow> 'k \<Rightarrow> 'k \<times> (('e + 'e) + unit)) \<Rightarrow> bool" where
  "sound_disk rd wr \<longleftrightarrow> (\<forall>g k. if is_ok (snd (wr g k)) then rd (fst (wr g k)) = (\<lambda>_. Inr g) else fst (wr g k) = k)"

context signpost_library
begin

lemma change_Ok:
  assumes "load_state lib r = Inr s" "command_change lib c s = (s', Inr b)"
  shows "spec_command c (boot_abs lib s) = Some (boot_abs lib s')" "wf_state lib s'"
    "load_state lib (\<lambda>_. Inr (table s')) = Inr s'" "sets s' = sets s"
proof -
  note w = load_state_wf [OF assms(1)]
  from command_refines [OF w, of c] assms(2)
  have i: "gpt_iter lib (table s') = gpt_iter lib (table s)"
    and "spec_command c (boot_abs lib s) = Some (boot_abs lib s')" "wf_state lib s'"
    by (simp_all add: refines_def)
  then show "spec_command c (boot_abs lib s) = Some (boot_abs lib s')" "wf_state lib s'" by simp_all
  have t: "s' = s\<lparr>table := table s'\<rparr>" by (rule command_change_table [OF assms(2)])
  then show "load_state lib (\<lambda>_. Inr (table s')) = Inr s'" using reload [OF assms(1) i] by simp
  show "sets s' = sets s" by (subst t) simp
qed

lemma clear_Ok:
  assumes "load_state lib r = Inr s" "clear_inactive lib s = (s', Inr ())" "inactive s = Some i"
  shows "boot_abs lib s' = upd_slot i (\<lambda>_. (0, 0, False)) (boot_abs lib s)"
    "load_state lib (\<lambda>_. Inr (table s')) = Inr s'" "sets s' = sets s"
  using change_Ok [OF assms(1), of ClearInactive s' True] assms(2,3) by simp_all

lemma valid_Ok:
  assumes "load_state lib r = Inr s" "mark_inactive_valid lib s = (s', Inr ())" "inactive s = Some i"
  shows "boot_abs lib s' = upd_slot i (with_tries 1) (boot_abs lib s)"
    "load_state lib (\<lambda>_. Inr (table s')) = Inr s'" "sets s' = sets s"
  using change_Ok [OF assms(1), of MarkInactiveValid s' True] assms(2,3) by simp_all

lemma upgrade_Ok:
  assumes "load_state lib r = Inr s" "upgrade_to_inactive lib s = (s', Inr ())" "inactive s = Some i"
  shows "boot_abs lib s' = prefer_slot i 2 1 (boot_abs lib s)"
    "load_state lib (\<lambda>_. Inr (table s')) = Inr s'" "sets s' = sets s"
  using change_Ok [OF assms(1), of UpgradeToInactive s' True] assms(2,3)
  by (simp_all split: prod.splits if_splits)

lemma change_succeeds:
  assumes "load_state lib r = Inr s" "spec_command c (boot_abs lib s) \<noteq> None"
  shows "\<exists>s' b. command_change lib c s = (s', Inr b)"
  using command_refines [OF load_state_wf [OF assms(1)], of c] assms(2)
  by (cases "command_change lib c s"; cases "snd (command_change lib c s)") (auto simp: refines_def)

lemma inactive_commands_succeed:
  assumes "load_state lib r = Inr s" "inactive s = Some i"
  shows "\<exists>s'. clear_inactive lib s = (s', Inr ())" "\<exists>s'. mark_inactive_valid lib s = (s', Inr ())"
    "sp_slot (boot_abs lib s) i = (0, 1, False) \<Longrightarrow> \<exists>s'. upgrade_to_inactive lib s = (s', Inr ())"
  using change_succeeds [OF assms(1), of ClearInactive] change_succeeds [OF assms(1), of MarkInactiveValid]
    change_succeeds [OF assms(1), of UpgradeToInactive] assms(2)
  by (auto simp: result_simps)

text \<open>While its slot is cleared, tried or not, the inactive set is not booted.\<close>

lemma cleared_not_booted:
  assumes "wf_state lib s'" "boot_abs lib s' = upd_slot i (\<lambda>_. (0, t, False)) (boot_abs lib s)"
    and "wf_state lib s" "inactive s = Some i" "will_boot lib (gptprio lib s (active s))"
  shows "active s' = active s" "next_set lib s' = Some (active s)" "\<not> will_boot lib (gptprio lib s' i)"
proof -
  have a: "active s = select_not i" using wf_has_set(3) [OF assms(3,4)] by simp
  have f: "sp_active (boot_abs lib s') = active s" "sp_inactive (boot_abs lib s') = Some i"
    using assms(4) by (simp_all add: assms(2) upd_slot_def)
  then show act: "active s' = active s" by simp
  have i': "inactive s' = Some i" using f(2) by simp
  have "sp_slot (boot_abs lib s') i = (0, t, False)" by (simp add: assms(2) upd_slot_def)
  then have "slot_of lib (gptprio lib s' i) = (0, t, False)"
    using wf_has_set(2) [OF assms(1) i'] by simp
  then have "\<not> slot_boots (slot_of lib (gptprio lib s' i))" by simp
  then show "\<not> will_boot lib (gptprio lib s' i)" by (simp only: slot_boots_of not_False_eq_True)
  have "slot_boots (sp_slot (boot_abs lib s) (select_not i))"
    using assms(5) active_bootable [OF assms(3)] a by simp
  then show "next_set lib s' = Some (active s)"
    unfolding next_refines [OF assms(1)] assms(2) a
    by (intro spec_next_preferred) (simp_all add: upd_slot_def)
qed

end

section \<open>Writing the images\<close>

lemma op_bind_inv: "P (fst p) \<Longrightarrow> (\<And>x w. P w \<Longrightarrow> P (fst (f x w))) \<Longrightarrow> P (fst (op_bind p f ctx))"
  by (cases p; cases "snd p") auto

lemma write_target_disk: "disk (fst (write_target_to_disk env t p w)) = disk w"
  by (auto simp: write_target_to_disk_def op_bind_def ensure_def split: sum.splits)

lemma write_target_Ok:
  assumes "write_target_to_disk env t p w = (w', Inr ())"
  shows "\<exists>c. fetch_target env t = Inr (c, True) \<and> partitions w' = (partitions w)(p \<mapsto> c) \<and> disk w' = disk w"
  using assms by (auto simp: write_target_to_disk_def ensure_def result_simps split: if_splits)

lemma write_gpt_fields:
  assumes "sound_disk (read_table env) (write_table env)" "write_gpt env s w = (w', r)"
  shows "partitions w' = partitions w"
    "if is_ok r then read_table env (disk w') = (\<lambda>_. Inr (table s)) else disk w' = disk w"
proof -
  obtain k q where kq: "write_table env (table s) (disk w) = (k, q)" by force
  have w': "w' = w\<lparr>disk := k\<rparr>" "is_ok r = is_ok q"
    using assms(2) kq by (cases q; simp add: write_gpt_def write_state_def map_err_def; auto)+
  then show "partitions w' = partitions w" by simp
  have "if is_ok (snd (write_table env (table s) (disk w)))
      then read_table env (fst (write_table env (table s) (disk w))) = (\<lambda>_. Inr (table s))
      else fst (write_table env (table s) (disk w)) = disk w"
    using assms(1) unfolding sound_disk_def by blast
  then show "if is_ok r then read_table env (disk w') = (\<lambda>_. Inr (table s)) else disk w' = disk w"
    unfolding kq w' by (cases "is_ok q") simp_all
qed

text \<open>The part of \<open>update_image\<close> after the cleared table has been written.\<close>

definition write_images ::
  "('v, 'g, 'd, 'e, 'k) updog_env \<Rightarrow> 'v update \<Rightarrow> 'g state \<Rightarrow> 'k updog_world \<Rightarrow> 'k updog_world \<times> (('v, 'e) updog_error + unit)" where
  "write_images env u s w =
     op_bind (w, ok_or InactivePartitionMissing (inactive_set s)) (\<lambda>inactive w.
     op_bind (write_target_to_disk env (root_image (update_images u)) (set_root inactive) w) (\<lambda>_ w.
     op_bind (write_target_to_disk env (boot_image (update_images u)) (set_boot inactive) w) (\<lambda>_ w.
     op_bind (write_target_to_disk env (hash_image (update_images u)) (set_hash inactive) w) (\<lambda>_ w.
     case mark_inactive_valid (sign_lib env) s of (s, marked) \<Rightarrow>
     op_bind (w, map_err (\<lambda>_. InactivePartitionMissing) marked) (\<lambda>_ w.
     write_gpt env s w) id) id) id) id) id"

lemma update_image_split:
  "update_image env u w =
     op_bind (load_gpt env w) (\<lambda>s w.
     case clear_inactive (sign_lib env) s of (s, cleared) \<Rightarrow>
     op_bind (w, map_err (\<lambda>_. InactivePartitionMissing) cleared) (\<lambda>_ w.
     op_bind (write_gpt env s w) (\<lambda>_ w. write_images env u s w) id) id) id"
  unfolding update_image_def write_images_def by (rule refl)

lemma write_images_disk:
  assumes d: "sound_disk (read_table env) (write_table env)"
    and m: "mark_inactive_valid (sign_lib env) s = (s2, marked)"
    and w: "read_table env (disk w) = (\<lambda>_. Inr (table s))"
  shows "read_table env (disk (fst (write_images env u s w))) \<in> {\<lambda>_. Inr (table s), \<lambda>_. Inr (table s2)}"
proof -
  let ?P = "\<lambda>w. read_table env (disk w) \<in> {\<lambda>_. Inr (table s), \<lambda>_. Inr (table s2)}"
  have g: "?P w \<Longrightarrow> ?P (fst (write_gpt env s2 w))" for w
    using write_gpt_fields(2) [OF d, of s2 w] by (cases "write_gpt env s2 w") (auto split: if_splits)
  show ?thesis
    unfolding write_images_def m prod.case
    by (rule op_bind_inv [where P = ?P], simp add: w,
        rule op_bind_inv [where P = ?P], simp add: write_target_disk,
        rule op_bind_inv [where P = ?P], simp add: write_target_disk,
        rule op_bind_inv [where P = ?P], simp add: write_target_disk,
        rule op_bind_inv [where P = ?P], simp, rule g)
qed

lemma inactive_of_sets: "sets s' = sets s \<Longrightarrow> inactive s' = inactive s \<and> inactive_set s' = inactive_set s \<and> active s' = active s"
  by (simp add: inactive_def inactive_set_def active_def)

lemma update_image_safe:
  assumes lib: "signpost_library (sign_lib env)" and d: "sound_disk (read_table env) (write_table env)"
    and l: "load_state (sign_lib env) (read_table env (disk w)) = Inr s" and i: "inactive s = Some i"
    and b: "will_boot (sign_lib env) (gptprio (sign_lib env) s (active s))"
    and u: "update_image env u w = (w', r)" and p: "partitions w' \<noteq> partitions w"
  shows "\<exists>s'. load_state (sign_lib env) (read_table env (disk w')) = Inr s' \<and> active s' = active s
    \<and> next_set (sign_lib env) s' = Some (active s) \<and> \<not> will_boot (sign_lib env) (gptprio (sign_lib env) s' i)"
proof -
  obtain s1 c where c: "clear_inactive (sign_lib env) s = (s1, c)" by force
  obtain w1 r1 where w1: "write_gpt env s1 w = (w1, r1)" by force
  note f1 = write_gpt_fields [OF d w1]
  have s: "update_image env u w = op_bind (w, map_err (\<lambda>_. InactivePartitionMissing) c) (\<lambda>_ w.
      op_bind (write_gpt env s1 w) (\<lambda>_ w. write_images env u s1 w) id) id"
    by (simp add: update_image_split load_gpt_def l map_err_def c)
  have "c = Inr ()" using u p by (cases c) (auto simp: s map_err_def)
  with c have c: "clear_inactive (sign_lib env) s = (s1, Inr ())" by simp
  have w': "op_bind (w1, r1) (\<lambda>_ w. write_images env u s1 w) id = (w', r)"
    using u \<open>c = Inr ()\<close> by (simp add: s map_err_def w1)
  then have "r1 = Inr ()" using p f1(1) by (cases r1) auto
  then have img: "write_images env u s1 w1 = (w', r)" and t1: "read_table env (disk w1) = (\<lambda>_. Inr (table s1))"
    using w' f1(2) by simp_all
  note c1 = signpost_library.clear_Ok [OF lib l c i]
  obtain s2 m where m: "mark_inactive_valid (sign_lib env) s1 = (s2, m)" by force
  have i1: "inactive s1 = Some i" using inactive_of_sets [OF c1(3)] i by simp
  have "m = Inr ()"
    using m i1 by (auto simp: mark_inactive_valid_def require_inactive_def ok_or_def)
  with m have m: "mark_inactive_valid (sign_lib env) s1 = (s2, Inr ())" by simp
  note c2 = signpost_library.valid_Ok [OF lib c1(2) m i1]
  have "boot_abs (sign_lib env) s2 = upd_slot i (\<lambda>_. (0, 1, False)) (boot_abs (sign_lib env) s)"
    by (simp add: c1(1) c2(1) upd_slot_def)
  note v = this
  note wf = signpost_library.load_state_wf [OF lib]
  note n1 = signpost_library.cleared_not_booted [OF lib wf [OF c1(2)] c1(1) wf [OF l] i b]
  note n2 = signpost_library.cleared_not_booted [OF lib wf [OF c2(2)] v wf [OF l] i b]
  show ?thesis
    using write_images_disk [OF d m t1, of u] n1 n2 c1(2) c2(2) by (auto simp: img)
qed

lemma update_image_Ok:
  assumes lib: "signpost_library (sign_lib env)" and d: "sound_disk (read_table env) (write_table env)"
    and l: "load_state (sign_lib env) (read_table env (disk w)) = Inr s" and i: "inactive s = Some i"
    and u: "update_image env u w = (w', Inr ())"
  shows "\<exists>s' inact root boot hash.
    load_state (sign_lib env) (read_table env (disk w')) = Inr s' \<and> inactive s' = Some i \<and>
    boot_abs (sign_lib env) s' = upd_slot i (\<lambda>_. (0, 1, False)) (boot_abs (sign_lib env) s) \<and>
    inactive_set s = Some inact \<and>
    fetch_target env (root_image (update_images u)) = Inr (root, True) \<and>
    fetch_target env (boot_image (update_images u)) = Inr (boot, True) \<and>
    fetch_target env (hash_image (update_images u)) = Inr (hash, True) \<and>
    partitions w' = (partitions w)(set_root inact \<mapsto> root, set_boot inact \<mapsto> boot, set_hash inact \<mapsto> hash)"
proof -
  obtain s1 w1 where c: "clear_inactive (sign_lib env) s = (s1, Inr ())" and w1: "write_gpt env s1 w = (w1, Inr ())"
    and img: "write_images env u s1 w1 = (w', Inr ())"
    using u by (auto simp: update_image_split load_gpt_def l map_err_def result_simps split: prod.splits sum.splits)
  note c1 = signpost_library.clear_Ok [OF lib l c i]
  note f1 = write_gpt_fields [OF d w1]
  obtain s2 m where m: "mark_inactive_valid (sign_lib env) s1 = (s2, m)" by force
  obtain inact wr wb wh where
    steps: "inactive_set s1 = Some inact" "write_target_to_disk env (root_image (update_images u)) (set_root inact) w1 = (wr, Inr ())"
      "write_target_to_disk env (boot_image (update_images u)) (set_boot inact) wr = (wb, Inr ())"
      "write_target_to_disk env (hash_image (update_images u)) (set_hash inact) wb = (wh, Inr ())"
      "mark_inactive_valid (sign_lib env) s1 = (s2, Inr ())" "write_gpt env s2 wh = (w', Inr ())"
    using img by (auto simp: write_images_def m result_simps)
  have i1: "inactive s1 = Some i" "inactive_set s = inactive_set s1" using inactive_of_sets [OF c1(3)] i by simp_all
  note c2 = signpost_library.valid_Ok [OF lib c1(2) steps(5) i1(1)]
  note f2 = write_gpt_fields [OF d steps(6)]
  have "boot_abs (sign_lib env) s2 = upd_slot i (\<lambda>_. (0, 1, False)) (boot_abs (sign_lib env) s)"
    by (simp add: c1(1) c2(1) upd_slot_def)
  moreover have "inactive s2 = Some i" using inactive_of_sets [OF c2(3)] i1 by simp
  ultimately show ?thesis
    using write_target_Ok [OF steps(2)] write_target_Ok [OF steps(3)] write_target_Ok [OF steps(4)] f1 f2 c2(2) steps(1) i1(2)
    by auto
qed

lemma update_flags_Ok:
  assumes lib: "signpost_library (sign_lib env)" and d: "sound_disk (read_table env) (write_table env)"
    and l: "load_state (sign_lib env) (read_table env (disk w)) = Inr s" and i: "inactive s = Some i"
    and u: "update_flags env w = (w', Inr ())"
  shows "\<exists>s'. load_state (sign_lib env) (read_table env (disk w')) = Inr s' \<and> partitions w' = partitions w \<and>
    boot_abs (sign_lib env) s' = prefer_slot i 2 1 (boot_abs (sign_lib env) s)"
proof -
  obtain s1 r where c: "upgrade_to_inactive (sign_lib env) s = (s1, r)" by force
  have r: "r = Inr ()" and w: "write_gpt env s1 w = (w', Inr ())"
    using u by (auto simp: update_flags_def load_gpt_def l map_err_def c result_simps split: sum.splits)
  note c1 = signpost_library.upgrade_Ok [OF lib l c [unfolded r] i]
  show ?thesis using write_gpt_fields [OF d w] c1 by auto
qed

lemma retrieve_frame:
  "retrieve_migrations env m u ver w = Some (w', r) \<Longrightarrow> disk w' = disk w \<and> partitions w' = partitions w"
  by (cases "find_migrations (min (version u) ver) (max (version u) ver) m",
      auto simp: retrieve_migrations_def Let_def split: if_splits)
     (simp_all add: op_bind_def split: sum.splits if_splits, force+)

lemma reboot_frame: "initiate_reboot env w = (w', r) \<Longrightarrow> disk w' = disk w \<and> partitions w' = partitions w"
  by (auto simp: initiate_reboot_def op_bind_def split: sum.splits)

lemma apply_update_Ok:
  assumes lib: "signpost_library (sign_lib env)" and d: "sound_disk (read_table env) (write_table env)"
    and l: "load_state (sign_lib env) (read_table env (disk w)) = Inr s" and i: "inactive s = Some i"
    and u: "apply_update env True a m ver u w = Some (w', Inr ())"
  shows "\<exists>s' inact root boot hash.
    load_state (sign_lib env) (read_table env (disk w')) = Inr s' \<and> next_set (sign_lib env) s' = Some i \<and>
    inactive_set s = Some inact \<and>
    fetch_target env (root_image (update_images u)) = Inr (root, True) \<and>
    fetch_target env (boot_image (update_images u)) = Inr (boot, True) \<and>
    fetch_target env (hash_image (update_images u)) = Inr (hash, True) \<and>
    partitions w' = (partitions w)(set_root inact \<mapsto> root, set_boot inact \<mapsto> boot, set_hash inact \<mapsto> hash)"
proof -
  obtain w1 w2 w3 w4 where
    w1: "retrieve_migrations env m u ver (w\<lparr>query := add_param ''target'' (show_version env (version u)) (query w)\<rparr>) = Some (w1, Inr ())"
    and w2: "update_image env u w1 = (w2, Inr ())" and w3: "update_flags env w2 = (w3, Inr ())"
    and w4: "(if reboot a then initiate_reboot env w3 else (w3, Inr ())) = (w4, Inr ())"
    and w': "w' = output_line (json a) (update_json env u) (''Update applied: '' @ fmt_full_version env u) w4"
    using u by (auto simp: apply_update_def result_simps)
  have e1: "disk w1 = disk w" "partitions w1 = partitions w" using retrieve_frame [OF w1] by simp_all
  have e4: "disk w' = disk w3" "partitions w' = partitions w3"
    using w4 reboot_frame [of env w3 w4] by (auto simp: w' output_line_def split: if_splits)
  obtain s2 inact root boot hash where
    s2: "load_state (sign_lib env) (read_table env (disk w2)) = Inr s2" "inactive s2 = Some i"
      "boot_abs (sign_lib env) s2 = upd_slot i (\<lambda>_. (0, 1, False)) (boot_abs (sign_lib env) s)"
      "inactive_set s = Some inact"
      "fetch_target env (root_image (update_images u)) = Inr (root, True)"
      "fetch_target env (boot_image (update_images u)) = Inr (boot, True)"
      "fetch_target env (hash_image (update_images u)) = Inr (hash, True)"
      "partitions w2 = (partitions w)(set_root inact \<mapsto> root, set_boot inact \<mapsto> boot, set_hash inact \<mapsto> hash)"
    using update_image_Ok [OF lib d l [folded e1(1)] i w2] unfolding e1 by blast
  obtain s3 where s3: "load_state (sign_lib env) (read_table env (disk w3)) = Inr s3" "partitions w3 = partitions w2"
      "boot_abs (sign_lib env) s3 = prefer_slot i 2 1 (boot_abs (sign_lib env) s2)"
    using update_flags_Ok [OF lib d s2(1,2) w3] by blast
  note wf = signpost_library.load_state_wf [OF lib]
  have "active s = select_not i" using signpost_library.wf_has_set(3) [OF lib wf [OF l] i] by simp
  then have "next_set (sign_lib env) s3 = Some i"
    unfolding signpost_library.next_refines [OF lib wf [OF s3(1)]] s3(3) s2(3)
    using signpost_library.abs_sel [OF lib] by (intro spec_upgraded_next) simp
  then show ?thesis using s3 s2 e4 by auto
qed

section \<open>Choosing an update\<close>

text \<open>\<open>sort_unstable_by\<close>: the same updates, newest first.\<close>

definition sorts_descending :: "('v::linorder update list \<Rightarrow> 'v update list) \<Rightarrow> bool" where
  "sorts_descending f \<longleftrightarrow> (\<forall>us. set (f us) = set us \<and> sorted_wrt (\<lambda>u u'. version u \<ge> version u') (f us))"

definition applicable :: "('v::linorder, 'g, 'd, 'e, 'k) updog_env \<Rightarrow> string \<Rightarrow> bool \<Rightarrow> u32 \<Rightarrow> 'v update \<Rightarrow> bool" where
  "applicable env var ignore sd u \<longleftrightarrow> variant u = var \<and> arch u = target_arch env \<and> version u \<le> max_version u \<and>
     (ignore \<or> update_ready (chrono env) u sd (now env) = Some True)"

lemma filter_updates_set:
  "filter_updates env var ignore sd us = Some us' \<Longrightarrow> set us' = {u \<in> set us. applicable env var ignore sd u}"
proof (induction us arbitrary: us')
  case (Cons u us)
  then show ?case
    by (cases "variant u = var \<and> arch u = target_arch env \<and> version u \<le> max_version u")
       (fastforce simp: applicable_def split: option.splits if_splits)+
qed simp

lemma filter_updates_returns: "sd \<le> MAX_SEED \<Longrightarrow> \<exists>us'. filter_updates env var ignore sd us = Some us'"
proof (induction us)
  case (Cons u us)
  have "update_ready (chrono env) u sd (now env) \<noteq> None"
    using Cons.prems by (auto simp: update_ready_def update_wave_defined split: option.splits)
  then show ?case using Cons by auto
qed simp

lemma find_newest:
  fixes us :: "'v::linorder update list"
  assumes "sorted_wrt (\<lambda>u u'. version u \<ge> version u') us" "find P us = Some u"
  shows "u \<in> set us" "P u" "u' \<in> set us \<Longrightarrow> P u' \<Longrightarrow> version u' \<le> version u"
  using assms by (induction us) (auto split: if_splits)

lemma choose_update_find:
  assumes "choose_update env ver lock force us = Inr (Some u)"
  shows "\<exists>P. find P us = Some u"
proof (cases force)
  case None
  then show ?thesis using assms
    by (cases "lock = ''latest''") (auto simp: choose_update_def result_simps split: if_splits)
qed (use assms in \<open>auto simp: choose_update_def\<close>)

lemma choose_update_locked:
  assumes "choose_update env ver lock None us = Inr (Some u)" "lock \<noteq> ''latest''"
  obtains l where "semver_of env lock = Some l" "l \<noteq> ver" "find (\<lambda>u. version u = l) us = Some u"
  using assms by (auto simp: choose_update_def result_simps split: if_splits)

lemma update_required_cases:
  assumes srt: "sorts_descending (sort_desc env)" and r: "update_required env m ver var ignore sd lock force = Some r"
  shows "r = Inr (Some u) \<Longrightarrow> u \<in> set (updates m) \<and> applicable env var ignore sd u"
    and "r = Inr (Some u) \<Longrightarrow> force = Some v \<Longrightarrow> version u = v"
    and "r = Inr (Some u) \<Longrightarrow> force = None \<Longrightarrow> lock \<noteq> ''latest'' \<Longrightarrow> semver_of env lock = Some (version u) \<and> version u \<noteq> ver"
    and "r = Inr (Some u) \<Longrightarrow> force = None \<Longrightarrow> lock = ''latest'' \<Longrightarrow> (ver < version u \<or> max_version u < ver) \<and>
      (\<forall>u'. u' \<in> set (updates m) \<and> applicable env var ignore sd u' \<and> (ver < version u' \<or> max_version u' < ver) \<longrightarrow> version u' \<le> version u)"
    and "r = Inr None \<Longrightarrow> force = None \<Longrightarrow> lock = ''latest'' \<Longrightarrow>
      \<forall>u'. u' \<in> set (updates m) \<and> applicable env var ignore sd u' \<longrightarrow> \<not> ver < version u' \<and> \<not> max_version u' < ver"
proof -
  obtain us where us: "filter_updates env var ignore sd (updates m) = Some us"
      and c: "r = choose_update env ver lock force (sort_desc env us)"
    using r by (auto simp: update_required_def applicable_updates_def)
  have s: "set (sort_desc env us) = {u \<in> set (updates m). applicable env var ignore sd u}"
      "sorted_wrt (\<lambda>u u'. version u \<ge> version u') (sort_desc env us)"
    using srt filter_updates_set [OF us] by (simp_all add: sorts_descending_def)
  note c' = c [unfolded choose_update_def]
  show "u \<in> set (updates m) \<and> applicable env var ignore sd u" if ru: "r = Inr (Some u)"
  proof -
    obtain P where "find P (sort_desc env us) = Some u" using choose_update_find [OF c [symmetric, unfolded ru]] by blast
    then have "u \<in> set (sort_desc env us)" using find_newest(1) [OF s(2)] by blast
    then show ?thesis using s(1) by simp
  qed
  show "version u = v" if "r = Inr (Some u)" "force = Some v"
    using that c' find_newest(2) [OF s(2), of _ u] by fastforce
  show "semver_of env lock = Some (version u) \<and> version u \<noteq> ver"
    if ru: "r = Inr (Some u)" "force = None" "lock \<noteq> ''latest''"
  proof -
    obtain l where l: "semver_of env lock = Some l" "l \<noteq> ver" "find (\<lambda>u. version u = l) (sort_desc env us) = Some u"
      using choose_update_locked [OF c [symmetric, unfolded ru(1,2)] ru(3)] .
    show ?thesis using l(1,2) find_newest(2) [OF s(2) l(3)] by simp
  qed
  show "(ver < version u \<or> max_version u < ver) \<and>
      (\<forall>u'. u' \<in> set (updates m) \<and> applicable env var ignore sd u' \<and> (ver < version u' \<or> max_version u' < ver) \<longrightarrow> version u' \<le> version u)"
    if "r = Inr (Some u)" "force = None" "lock = ''latest''"
    using that c' find_newest(2,3) [OF s(2), of "\<lambda>u. ver < version u \<or> ver > max_version u" u] s(1) by simp
  show "\<forall>u'. u' \<in> set (updates m) \<and> applicable env var ignore sd u' \<longrightarrow> \<not> ver < version u' \<and> \<not> max_version u' < ver"
    if "r = Inr None" "force = None" "lock = ''latest''"
    using that c' s(1) by (auto simp: find_None_iff)
qed

lemma update_required_returns: "sd \<le> MAX_SEED \<Longrightarrow> \<exists>r. update_required env m ver var ignore sd lock force = Some r"
  using filter_updates_returns [of sd env var ignore "updates m"] by (auto simp: update_required_def applicable_updates_def)

lemma common_frame:
  "disk (set_common_query_params env ver config w) = disk w \<and> partitions (set_common_query_params env ver config w) = partitions w"
  by (simp add: set_common_query_params_def)

lemma proxy_frame:
  "disk (set_https_proxy_environment_variables config w) = disk w \<and>
   partitions (set_https_proxy_environment_variables config w) = partitions w"
  by (simp add: set_https_proxy_environment_variables_def Let_def split: option.splits)

section \<open>Running to the end\<close>

text \<open>Nothing outside the program fails while the update is applied.\<close>

definition cooperative :: "('v, 'g, 'd, 'e, 'k) updog_env \<Rightarrow> 'v update \<Rightarrow> bool" where
  "cooperative env u \<longleftrightarrow> (\<forall>g k. snd (write_table env g k) = Inr ()) \<and> (\<forall>p. can_open env p) \<and>
     (\<forall>t \<in> {root_image (update_images u), boot_image (update_images u), hash_image (update_images u)}.
        \<exists>c. fetch_target env t = Inr (c, True)) \<and>
     migration_dir env \<and> (\<forall>ts. cache_targets env ts) \<and> reboot_result env = Inr ()"

lemma write_target_succeeds:
  "fetch_target env t = Inr (c, True) \<Longrightarrow> can_open env p \<Longrightarrow>
   write_target_to_disk env t p w = (w\<lparr>partitions := (partitions w)(p \<mapsto> c)\<rparr>, Inr ())"
  by (simp add: write_target_to_disk_def ensure_def)

lemma write_gpt_succeeds:
  assumes "\<forall>g k. snd (write_table env g k) = Inr ()"
  shows "\<exists>w'. write_gpt env s w = (w', Inr ())"
proof -
  obtain k r where "write_table env (table s) (disk w) = (k, r)" by force
  with assms have "write_table env (table s) (disk w) = (k, Inr ())" by (metis snd_conv)
  then show ?thesis by (simp add: write_gpt_def write_state_def map_err_def)
qed

lemma update_image_completes:
  assumes lib: "signpost_library (sign_lib env)" and d: "sound_disk (read_table env) (write_table env)"
    and l: "load_state (sign_lib env) (read_table env (disk w)) = Inr s" and i: "inactive s = Some i"
    and c: "cooperative env u"
  shows "\<exists>w'. update_image env u w = (w', Inr ())"
proof -
  obtain s1 where s1: "clear_inactive (sign_lib env) s = (s1, Inr ())"
    using signpost_library.inactive_commands_succeed(1) [OF lib l i] by blast
  note c1 = signpost_library.clear_Ok [OF lib l s1 i]
  have i1: "inactive s1 = Some i" using inactive_of_sets [OF c1(3)] i by simp
  obtain s2 where s2: "mark_inactive_valid (sign_lib env) s1 = (s2, Inr ())"
    using signpost_library.inactive_commands_succeed(2) [OF lib c1(2) i1] by blast
  obtain set1 where set1: "inactive_set s1 = Some set1"
    using i1 by (auto simp: inactive_def inactive_set_def split: partition_sets.splits)
  have g: "\<forall>g k. snd (write_table env g k) = Inr ()" and o: "\<And>p. can_open env p" using c by (simp_all add: cooperative_def)
  obtain r b h where f: "fetch_target env (root_image (update_images u)) = Inr (r, True)"
      "fetch_target env (boot_image (update_images u)) = Inr (b, True)"
      "fetch_target env (hash_image (update_images u)) = Inr (h, True)"
    using c by (auto simp: cooperative_def)
  obtain w1 where w1: "write_gpt env s1 w = (w1, Inr ())" using write_gpt_succeeds [OF g] by blast
  show ?thesis
    using write_gpt_succeeds [OF g, of s2]
    by (simp add: update_image_def load_gpt_def l map_err_def s1 s2 w1 set1 write_target_succeeds [OF f(1) o]
        write_target_succeeds [OF f(2) o] write_target_succeeds [OF f(3) o])
qed

lemma apply_update_completes:
  assumes lib: "signpost_library (sign_lib env)" and d: "sound_disk (read_table env) (write_table env)"
    and l: "load_state (sign_lib env) (read_table env (disk w)) = Inr s" and i: "inactive s = Some i"
    and c: "cooperative env u" and f: "find_migrations (min (version u) ver) (max (version u) ver) m = Some (Inr ts)"
  shows "\<exists>w'. apply_update env True a m ver u w = Some (w', Inr ())"
proof -
  let ?w = "w\<lparr>query := add_param ''target'' (show_version env (version u)) (query w)\<rparr>"
  have "\<exists>w1. retrieve_migrations env m u ver ?w = Some (w1, Inr ())"
    using c f by (simp add: retrieve_migrations_def cooperative_def map_err_def Let_def)
  then obtain w1 where w1: "retrieve_migrations env m u ver ?w = Some (w1, Inr ())" by blast
  have e1: "disk w1 = disk w" using retrieve_frame [OF w1] by simp
  note l1 = l [folded e1]
  obtain w2 where w2: "update_image env u w1 = (w2, Inr ())" using update_image_completes [OF lib d l1 i c] by blast
  obtain s2 where s2: "load_state (sign_lib env) (read_table env (disk w2)) = Inr s2" "inactive s2 = Some i"
      "boot_abs (sign_lib env) s2 = upd_slot i (\<lambda>_. (0, 1, False)) (boot_abs (sign_lib env) s)"
    using update_image_Ok [OF lib d l1 i w2] by blast
  have "sp_slot (boot_abs (sign_lib env) s2) i = (0, 1, False)" by (simp add: s2(3) upd_slot_def)
  then obtain s3 where s3: "upgrade_to_inactive (sign_lib env) s2 = (s3, Inr ())"
    using signpost_library.inactive_commands_succeed(3) [OF lib s2(1,2)] by blast
  have g: "\<forall>g k. snd (write_table env g k) = Inr ()" using c by (simp add: cooperative_def)
  obtain w3 where w3: "write_gpt env s3 w2 = (w3, Inr ())" using write_gpt_succeeds [OF g] by blast
  have "update_flags env w2 = (w3, Inr ())"
    by (simp add: update_flags_def load_gpt_def s2(1) map_err_def s3 w3)
  then show ?thesis using c by (simp add: apply_update_def w1 w2 initiate_reboot_def cooperative_def)
qed

section \<open>Properties\<close>

definition sample_config :: updog_config where
  "sample_config = \<lparr>metadata_base_url = ''m'', targets_base_url = ''t'', seed = 2, version_lock = ''latest'',
       ignore_waves = False, https_proxy = None, no_proxy = None\<rparr>"

definition sample_env :: "(nat, (nat list \<times> u64) list, string, string, (nat list \<times> u64) list) updog_env" where
  "sample_env = \<lparr>target_arch = ''x86_64'', now = 20000, chrono = sample_chrono, sort_desc = \<lambda>us. rev (sort_key version us),
     friendly_version = \<lambda>_. True, semver_of = map_option nat \<circ> parse_digits 0, show_version = show_nat,
     sign_lib = sample_lib, read_table = sample_read, write_table = sample_write, fetch_target = \<lambda>name. Inr (name, True),
     can_open = \<lambda>_. True, migration_dir = True, cache_targets = \<lambda>_. True, reboot_result = Inr (),
     config_file = Inr sample_config,
     release_file = Some (''aws-k8s'', 1), load_repository = \<lambda>_. Inr (), load_manifest = Inr sample_manifest,
     level_ok = \<lambda>_. True, logger_ok = True, update_json = \<lambda>_. ''{}'', updates_json = \<lambda>_. ''[]''\<rparr>"

definition sample_world :: "(nat list \<times> u64) list updog_world" where
  "sample_world = \<lparr>disk = sample_table, partitions = Map.empty, cached = [], query = [], rebooted = False, env_vars = [], printed = []\<rparr>"

definition sample_arguments :: "nat updog_arguments" where
  "sample_arguments = \<lparr>subcommand = Some ''update'', log_level = ''info'', json = False, arg_ignore_waves = False,
     force_version = None, all_updates = False, reboot = True, arg_variant = None\<rparr>"

lemma sample_env_laws:
  "signpost_library (sign_lib sample_env)" "sound_disk (read_table sample_env) (write_table sample_env)"
  "sorts_descending (sort_desc sample_env)"
  "load_state (sign_lib sample_env) (read_table sample_env (disk sample_world)) = Inr sample_state"
  "inactive sample_state = Some Set_B"
proof -
  have "sorted_wrt (\<lambda>u u'. version u \<le> version u') (sort_key version us)" for us :: "nat update list"
    using sorted_sort_key [of version us] by (simp add: sorted_map)
  then show "sorts_descending (sort_desc sample_env)" by (simp add: sample_env_def sorts_descending_def sorted_wrt_rev)
qed (use sample_library sample_load sample_inactive in
     \<open>simp_all add: sample_env_def sample_world_def sound_disk_def sample_read_def sample_write_def fun_eq_iff\<close>)

lemma sample_fields:
  "config_file sample_env = Inr sample_config" "release_file sample_env = Some (''aws-k8s'', 1)"
  "load_manifest sample_env = Inr sample_manifest" "load_repository sample_env config = Inr ()"
  "fetch_target sample_env t = Inr (t, True)" "sign_lib sample_env = sample_lib" "read_table sample_env = sample_read"
  "arg_variant sample_arguments = None" "arg_ignore_waves sample_arguments = False" "force_version sample_arguments = None"
  "ignore_waves sample_config = False" "seed sample_config = 2" "version_lock sample_config = ''latest''" "https_proxy sample_config = None"
  by (simp_all add: sample_env_def sample_arguments_def sample_config_def)

lemma sample_required:
  "update_required sample_env sample_manifest 1 ''aws-k8s'' False 2 ''latest'' None = Some (Inr (Some sample_update))"
  by code_simp

lemma sample_migrations: "find_migrations (min (version sample_update) 1) (max (version sample_update) 1) sample_manifest = Some (Inr [''b'', ''c''])"
  by code_simp

lemma sample_cooperative: "cooperative sample_env sample_update"
  by (simp add: cooperative_def sample_env_def sample_write_def)

lemma sample_completes: "\<exists>w'. main_inner sample_env Update sample_arguments sample_world = Some (w', Inr ())"
proof -
  have l: "load_state (sign_lib sample_env) (read_table sample_env (disk (set_common_query_params sample_env 1 config sample_world)))
      = Inr sample_state" for config
    using sample_env_laws(4) by (simp add: common_frame)
  show ?thesis
    using apply_update_completes [OF sample_env_laws(1,2) l sample_env_laws(5) sample_cooperative sample_migrations] sample_required
    by (auto simp: main_inner_def dispatch_def perform_update_def set_https_proxy_environment_variables_def Let_def sample_fields simp del: One_nat_def)
qed

text \<open>
  C99: writing an image is safe at every point of failure. Whatever step of \<open>update_image\<close> stops it
  (or none does), once anything has been written to a partition, the partition table on the disk still
  names the running set as the one to boot next, and the set that was being written cannot be booted.
\<close>

theorem update_image_never_boots_partial_image:
  assumes "signpost_library (sign_lib env)" "sound_disk (read_table env) (write_table env)"
    and "load_state (sign_lib env) (read_table env (disk w)) = Inr s" "inactive s = Some i"
    and "will_boot (sign_lib env) (gptprio (sign_lib env) s (active s))"
    and "update_image env u w = (w', r)" "partitions w' \<noteq> partitions w"
  shows "\<exists>s'. load_state (sign_lib env) (read_table env (disk w')) = Inr s' \<and> active s' = active s
    \<and> next_set (sign_lib env) s' = Some (active s) \<and> \<not> will_boot (sign_lib env) (gptprio (sign_lib env) s' i)"
  using update_image_safe [OF assms] .

definition broken_env :: "(nat, (nat list \<times> u64) list, string, string, (nat list \<times> u64) list) updog_env" where
  "broken_env = sample_env\<lparr>fetch_target := \<lambda>name. if name = ''b'' then Inr (''part'', False) else Inr (name, True)\<rparr>"

theorem update_image_never_boots_partial_image_witness:
  "case update_image broken_env sample_update sample_world of (w', r) \<Rightarrow>
     r \<noteq> Inr () \<and> partitions w' ''/dev/sda4'' = Some ''part'' \<and>
     (\<exists>s'. load_state sample_lib (sample_read (disk w')) = Inr s' \<and> next_set sample_lib s' = Some Set_A)"
proof -
  obtain w' r where u: "update_image broken_env sample_update sample_world = (w', r)" by force
  have "is_ok (snd (update_image broken_env sample_update sample_world)) = False" by code_simp
  then have r: "r \<noteq> Inr ()" by (auto simp: u)
  have "partitions (fst (update_image broken_env sample_update sample_world)) ''/dev/sda4'' = Some ''part''" by code_simp
  then have p: "partitions w' ''/dev/sda4'' = Some ''part''" by (simp add: u)
  then have "partitions w' \<noteq> partitions sample_world" by (auto simp: sample_world_def)
  moreover have "active sample_state = Set_A" by code_simp
  moreover have "sign_lib broken_env = sign_lib sample_env" "read_table broken_env = read_table sample_env"
      "write_table broken_env = write_table sample_env" "sign_lib sample_env = sample_lib" "read_table sample_env = sample_read"
    by (simp_all add: broken_env_def sample_env_def)
  ultimately show ?thesis
    using update_image_never_boots_partial_image [OF _ _ _ _ _ u, of sample_state Set_B] sample_env_laws sample_boots r p
    by (simp add: u) blast
qed

text \<open>
  C99: a finished \<open>updog update\<close> boots what it wrote. When the command reports success, then either no
  update was required and neither disk nor partitions changed, or the update that was chosen had all
  three images fetched to their end, the partitions of the inactive set hold exactly these images and
  nothing else was written, and the partition table on the disk now boots the inactive set next.
\<close>

theorem updog_update_boots_new_images:
  assumes "signpost_library (sign_lib env)" "sound_disk (read_table env) (write_table env)"
    and "load_state (sign_lib env) (read_table env (disk w)) = Inr s" "inactive s = Some i"
    and "main_inner env Update a w = Some (w', Inr ())"
  shows "\<exists>config m release_variant ver chosen.
    config_file env = Inr config \<and> load_manifest env = Inr m \<and> release_file env = Some (release_variant, ver) \<and>
    update_required env m ver (case arg_variant a of Some v \<Rightarrow> v | None \<Rightarrow> release_variant)
      (arg_ignore_waves a \<or> ignore_waves config) (seed config) (version_lock config) (force_version a) = Some (Inr chosen) \<and>
    (case chosen of
       None \<Rightarrow> disk w' = disk w \<and> partitions w' = partitions w
     | Some u \<Rightarrow> \<exists>s' inact root boot hash.
         load_state (sign_lib env) (read_table env (disk w')) = Inr s' \<and> next_set (sign_lib env) s' = Some i \<and>
         inactive_set s = Some inact \<and>
         fetch_target env (root_image (update_images u)) = Inr (root, True) \<and>
         fetch_target env (boot_image (update_images u)) = Inr (boot, True) \<and>
         fetch_target env (hash_image (update_images u)) = Inr (hash, True) \<and>
         partitions w' = (partitions w)(set_root inact \<mapsto> root, set_boot inact \<mapsto> boot, set_hash inact \<mapsto> hash))"
proof -
  obtain config release_variant ver m where env: "config_file env = Inr config" "load_manifest env = Inr m"
      "release_file env = Some (release_variant, ver)"
    and d: "dispatch env Update a config m ver (case arg_variant a of Some v \<Rightarrow> v | None \<Rightarrow> release_variant)
        (set_common_query_params env ver config (set_https_proxy_environment_variables config w)) = Some (w', Inr ())"
    using assms(5) by (auto simp: main_inner_def Let_def result_simps split: sum.splits option.splits)
  define w1 where "w1 = set_common_query_params env ver config (set_https_proxy_environment_variables config w)"
  have w1: "disk w1 = disk w" "partitions w1 = partitions w" by (simp_all add: w1_def common_frame proxy_frame)
  define var where "var = (case arg_variant a of Some v \<Rightarrow> v | None \<Rightarrow> release_variant)"
  obtain chosen where c: "update_required env m ver var (arg_ignore_waves a \<or> ignore_waves config) (seed config)
        (version_lock config) (force_version a) = Some (Inr chosen)"
      "case chosen of None \<Rightarrow> w' = w1 | Some u \<Rightarrow> apply_update env True a m ver u w1 = Some (w', Inr ())"
    using d unfolding w1_def [symmetric] var_def [symmetric] dispatch_def
    by (auto simp: perform_update_def split: option.splits sum.splits)
  show ?thesis
  proof (cases chosen)
    case None
    then show ?thesis using env c w1 unfolding var_def by fastforce
  next
    case (Some u)
    then have "apply_update env True a m ver u w1 = Some (w', Inr ())" using c(2) by simp
    from apply_update_Ok [OF assms(1,2,3) [folded w1] assms(4) this] show ?thesis
      using env c(1) Some unfolding var_def w1 by fastforce
  qed
qed

theorem updog_update_boots_new_images_witness:
  "\<exists>w' s'. main_inner sample_env Update sample_arguments sample_world = Some (w', Inr ()) \<and>
     load_state sample_lib (sample_read (disk w')) = Inr s' \<and> next_set sample_lib s' = Some Set_B \<and>
     partitions w' ''/dev/sda5'' = Some ''r''"
proof -
  obtain w' where w': "main_inner sample_env Update sample_arguments sample_world = Some (w', Inr ())"
    using sample_completes by blast
  have s: "inactive_set sample_state = Some \<lparr>set_boot = ''/dev/sda4'', set_root = ''/dev/sda5'', set_hash = ''/dev/sda6''\<rparr>" by code_simp
  show ?thesis
    using updog_update_boots_new_images [OF sample_env_laws(1,2,4,5) w'] w' s
    by (auto simp: sample_fields sample_required simp del: One_nat_def) (simp add: sample_update_def)
qed





end
