(* ===== verification/Prairiedog.thy ===== *)
theory Prairiedog
  imports Signpost Rust_Std
begin

text \<open>
  prairiedog (\<open>sources/api/prairiedog\<close>): the kernel boot configuration written from the settings and
  read back from \<open>/proc/bootconfig\<close>, the initrd image that carries it, the decision to reboot, and the
  crash dump commands. The key and value types of \<open>bottlerocket_modeled_types\<close> are the predicates of
  the record \<open>boot_types\<close>; what the process asks of its surroundings is the record \<open>prairie_env\<close>.
\<close>

unbundle bit_operations_syntax

section \<open>Definitions\<close>

subsection \<open>error.rs\<close>

text \<open>Causes from other crates are left out of the payloads.\<close>

datatype 'e prairie_error =
    CommandFailure string | ExecutionFailure string | KexecLoadDisabled | LoadState "'e signpost_error" | Logger
  | Mount string | RemoveFile string | ReadFile string | SetupMount string | WriteFile string | UsizeToU32
  | AddU32Overflow | WriteInitrd | InputToml | OutputJson | InvalidBootConfig | ParseBootConfigKey
  | InvalidBootConfigValue string | ParseBootConfigValue | UnsupportedBootConfigKey string | ParentBootConfigKey
  | UnbalancedQuotes string | ExpectedArrayComma string

subsection \<open>bootconfig.rs\<close>

record boot_types =
  key_ok :: "string \<Rightarrow> bool"
  value_ok :: "string \<Rightarrow> bool"

type_synonym boot_params = "(string, string list) hashmap"

record boot_settings =
  reboot_to_reconcile :: "bool option"
  kernel_parameters :: "boot_params option"
  init_parameters :: "boot_params option"

definition DEFAULT_BOOTCONFIG_STR :: string where
  "DEFAULT_BOOTCONFIG_STR =
     [CHR 0x0A] @ ''    kernel = '' @ [CHR 0x22, CHR 0x22, CHR 0x0A] @ ''    init = '' @ [CHR 0x22, CHR 0x22, CHR 0x0A]"

definition DEFAULT_BOOT_SETTINGS :: boot_settings where
  "DEFAULT_BOOT_SETTINGS = \<lparr>reboot_to_reconcile = None, kernel_parameters = None, init_parameters = None\<rparr>"

definition quote_value :: "string \<Rightarrow> string" where
  "quote_value v = (if CHR 0x22 \<in> set v then CHR 0x27 # v @ [CHR 0x27] else CHR 0x22 # v @ [CHR 0x22])"

fun append_values :: "nat \<Rightarrow> string list \<Rightarrow> string \<Rightarrow> string" where
  "append_values i [] out = out"
| "append_values i (v # vs) out =
     append_values (Suc i) vs ((if i > 0 then out @ '','' else out) @ '' '' @ quote_value v)"

definition append_boot_config_value_list :: "string list \<Rightarrow> string \<Rightarrow> string" where
  "append_boot_config_value_list vs out = append_values 0 vs out"

text \<open>\<open>params[key]\<close> is of a key of the map.\<close>

definition write_sorted_params :: "string \<Rightarrow> boot_params \<Rightarrow> string \<Rightarrow> string" where
  "write_sorted_params out params pre =
     fold (\<lambda>key out.
       let values = the (hm_get id key params); out = out @ pre @ ''.'' @ key;
           out = (if values \<noteq> [] then append_boot_config_value_list values (out @ '' ='') else out)
       in out @ [CHR 0x0A])
       (sort (map fst params)) out"

definition serialize_boot_settings_to_boot_config :: "boot_settings \<Rightarrow> string" where
  "serialize_boot_settings_to_boot_config s =
     (let out = (case init_parameters s of Some ps \<Rightarrow> write_sorted_params [] ps ''init'' | None \<Rightarrow> []) in
      case kernel_parameters s of Some ps \<Rightarrow> write_sorted_params out ps ''kernel'' | None \<Rightarrow> out)"

text \<open>Parsing; the outer \<open>None\<close> is a panic.\<close>

definition needs_quotes :: "char \<Rightarrow> bool" where
  "needs_quotes c \<longleftrightarrow> c \<in> {CHR 0x27, CHR 0x22, CHR 0x0A, CHR '','', CHR '';'', CHR ''#'', CHR 0x7D}"

definition parse_value :: "boot_types \<Rightarrow> string \<Rightarrow> ('e prairie_error + string) option" where
  "parse_value ty input =
     (let input = trim input;
          quoted = (input \<noteq> [] \<and> (hd input = CHR 0x22 \<and> last input = CHR 0x22 \<or> hd input = CHR 0x27 \<and> last input = CHR 0x27));
          valid = list_all (\<lambda>c. is_ascii c \<and> (quoted \<or> \<not> needs_quotes c)) input
      in if \<not> valid then Some (Inl (InvalidBootConfigValue input))
         else map_option (\<lambda>s. if value_ok ty s then Inr s else Inl ParseBootConfigValue)
                (if quoted then str_range 1 (byte_len input - 1) input else Some input))"

fun values_loop ::
  "boot_types \<Rightarrow> string \<Rightarrow> nat \<Rightarrow> string \<Rightarrow> char option \<Rightarrow> bool \<Rightarrow> nat \<Rightarrow> string list
     \<Rightarrow> ('e prairie_error + char option \<times> nat \<times> string list) option" where
  "values_loop ty input i [] quot expect start els = Some (Inr (quot, start, els))"
| "values_loop ty input i (c # cs) quot expect start els =
     (if expect \<and> \<not> is_whitespace c \<and> c \<noteq> CHR '','' then Some (Inl (ExpectedArrayComma input))
      else if c = CHR 0x27 \<or> c = CHR 0x22 then
        (case quot of
           Some q \<Rightarrow> if q = c then values_loop ty input (Suc i) cs None True start els
                     else values_loop ty input (Suc i) cs quot expect start els
         | None \<Rightarrow> values_loop ty input (Suc i) cs (Some c) expect start els)
      else if c = CHR '','' \<and> quot = None then
        try_bind (case str_range start i input of None \<Rightarrow> None | Some element \<Rightarrow> parse_value ty element) (\<lambda>v.
          values_loop ty input (Suc i) cs quot False (Suc i) (els @ [v]))
      else values_loop ty input (Suc i) cs quot expect start els)"

definition parse_boot_config_values :: "boot_types \<Rightarrow> string \<Rightarrow> ('e prairie_error + string list) option" where
  "parse_boot_config_values ty input =
     try_bind (values_loop ty input 0 (trim input) None False 0 []) (\<lambda>(quot, start, els).
     if quot \<noteq> None then Some (Inl (UnbalancedQuotes input))
     else case str_from start input of
            None \<Rightarrow> None
          | Some rest \<Rightarrow>
              let last_ele = (if rest = '','' then [] else rest) in
              if last_ele = [] then Some (Inr els)
              else try_bind (parse_value ty last_ele) (\<lambda>v. Some (Inr (els @ [v]))))"

definition parse_boot_key :: "boot_types \<Rightarrow> string \<Rightarrow> 'e prairie_error + string" where
  "parse_boot_key ty key = (if key_ok ty key then Inr key else Inl ParseBootConfigKey)"

text \<open>One line; the maps are those of the kernel and of init.\<close>

definition add_boot_param ::
  "boot_types \<Rightarrow> boot_params \<times> boot_params \<Rightarrow> string \<Rightarrow> string list \<Rightarrow> ('e prairie_error + boot_params \<times> boot_params) option" where
  "add_boot_param ty params key values =
     (if key \<noteq> ''kernel'' \<and> starts_with key ''kernel'' then
        (case str_from 7 key of
           None \<Rightarrow> None
         | Some name \<Rightarrow> Some (and_then (parse_boot_key ty name) (\<lambda>name. Inr (hm_insert id name values (fst params), snd params))))
      else if key \<noteq> ''init'' \<and> starts_with key ''init'' then
        (case str_from 5 key of
           None \<Rightarrow> None
         | Some name \<Rightarrow> Some (and_then (parse_boot_key ty name) (\<lambda>name. Inr (fst params, hm_insert id name values (snd params)))))
      else if key = ''kernel'' \<or> key = ''init'' then
        (if \<not> value_ok ty [] then Some (Inl ParseBootConfigValue)
         else if values \<noteq> [[]] then Some (Inl ParentBootConfigKey) else Some (Inr params))
      else Some (Inl (UnsupportedBootConfigKey key)))"

definition parse_boot_line ::
  "boot_types \<Rightarrow> boot_params \<times> boot_params \<Rightarrow> string \<Rightarrow> ('e prairie_error + boot_params \<times> boot_params) option" where
  "parse_boot_line ty params line =
     (if starts_with (trim_start line) ''#'' then Some (Inr params)
      else case splitn2 (CHR ''='') (trim line) of (first, second) \<Rightarrow>
        try_bind (Some (parse_boot_key ty (trim first))) (\<lambda>key.
        try_bind (case second of Some value \<Rightarrow> parse_boot_config_values ty (trim value) | None \<Rightarrow> Some (Inr []))
          (add_boot_param ty params key)))"

fun parse_boot_lines ::
  "boot_types \<Rightarrow> boot_params \<times> boot_params \<Rightarrow> string list \<Rightarrow> ('e prairie_error + boot_params \<times> boot_params) option" where
  "parse_boot_lines ty params [] = Some (Inr params)"
| "parse_boot_lines ty params (line # lines) =
     try_bind (parse_boot_line ty params line) (\<lambda>params. parse_boot_lines ty params lines)"

definition parse_boot_config_to_boot_settings :: "boot_types \<Rightarrow> string \<Rightarrow> ('e prairie_error + boot_settings) option" where
  "parse_boot_config_to_boot_settings ty bootconfig =
     try_bind (parse_boot_lines ty ([], []) (str_lines (trim bootconfig))) (\<lambda>(kernel, init).
     Some (Inr \<lparr>reboot_to_reconcile = None, kernel_parameters = if kernel = [] then None else Some kernel,
                init_parameters = if init = [] then None else Some init\<rparr>))"

text \<open>Equality of hash maps.\<close>

definition same_params :: "boot_params \<Rightarrow> boot_params \<Rightarrow> bool" where
  "same_params m m' \<longleftrightarrow> length m = length m' \<and> list_all (\<lambda>(k, v). hm_get id k m' = Some v) m"

fun parameters_changed_materially :: "boot_params option \<Rightarrow> boot_params option \<Rightarrow> bool" where
  "parameters_changed_materially None None = False"
| "parameters_changed_materially None (Some new) = (new \<noteq> [])"
| "parameters_changed_materially (Some old) None = (old \<noteq> [])"
| "parameters_changed_materially (Some old) (Some new) = (\<not> same_params old new)"

definition boot_settings_change_requires_reboot :: "boot_settings \<Rightarrow> boot_settings \<Rightarrow> bool" where
  "boot_settings_change_requires_reboot old new \<longleftrightarrow>
     parameters_changed_materially (kernel_parameters old) (kernel_parameters new) \<or>
     parameters_changed_materially (init_parameters old) (init_parameters new)"

subsection \<open>initrd.rs\<close>

definition BOOTCONFIG_MAGIC :: string where
  "BOOTCONFIG_MAGIC = ''#BOOTCONFIG'' @ [CHR 0x0A]"

definition u32_le :: "u32 \<Rightarrow> 8 word list" where
  "u32_le w = [ucast w, ucast (drop_bit 8 w), ucast (drop_bit 16 w), ucast (drop_bit 24 w)]"

definition checked_add_u32 :: "u32 \<Rightarrow> u32 \<Rightarrow> u32 option" where
  "checked_add_u32 a b = (if unat a + unat b < 2 ^ 32 then Some (a + b) else None)"

definition boot_checksum :: "8 word list \<Rightarrow> 'e prairie_error + u32" where
  "boot_checksum bs = try_fold (\<lambda>sum byte. ok_or AddU32Overflow (checked_add_u32 sum (ucast byte))) 0 bs"

definition generate_initrd :: "8 word list \<Rightarrow> 'e prairie_error + 8 word list" where
  "generate_initrd bootconfig =
     and_then (boot_checksum bootconfig) (\<lambda>checksum.
     let total = length bootconfig + 4 * 2 + byte_len BOOTCONFIG_MAGIC;
         padding = (4 - total mod 4) mod 4;
         size = length bootconfig + padding
     in and_then (if size < 2 ^ 32 then Inr (word_of_nat size) else Inl UsizeToU32) (\<lambda>size.
        Inr (bootconfig @ replicate padding 0 @ u32_le size @ u32_le checksum @ into_bytes BOOTCONFIG_MAGIC)))"

subsection \<open>main.rs and the files\<close>

text \<open>
  \<open>boot_toml\<close> and \<open>boot_json\<close> are the toml and serde\_json crates on \<open>BootSettings\<close>. A file that is
  \<open>unreadable\<close> gives an error other than not found. \<open>run_process\<close> is \<open>None\<close> when the process cannot be
  started and its success otherwise; what it does to the machine is not modelled.
\<close>

record ('g, 'd, 'e) prairie_env =
  boot_ty :: boot_types
  boot_toml :: "string \<Rightarrow> boot_settings option option"
  boot_json :: "boot_settings \<Rightarrow> string option"
  unreadable :: "string \<Rightarrow> bool"
  write_fails :: "string \<Rightarrow> bool"
  remove_fails :: "string \<Rightarrow> bool"
  run_process :: "string \<Rightarrow> string list \<Rightarrow> bool option"
  mount_ok :: "string \<Rightarrow> string \<Rightarrow> bool"
  private_ok :: "string \<Rightarrow> bool"
  logger_free :: bool
  is_x86_64 :: bool
  part_lib :: "('g, 'd, 'e) signpost_lib"
  read_parts :: "string \<Rightarrow> ('e + 'e) + 'g"

record prairie_world =
  pd_files :: "string \<rightharpoonup> string"
  pd_initrd :: "8 word list option"
  pd_ran :: "(string \<times> string list) list"
  pd_mounted :: "(string \<times> string) list"
  pd_private :: "string list"
  pd_out :: "string list"

datatype 'e ending = Returned "'e prairie_error + unit" | Panicked | Waits_for_reboot

definition get_boot_config_settings ::
  "('g, 'd, 'e) prairie_env \<Rightarrow> string \<Rightarrow> prairie_world \<Rightarrow> 'e prairie_error + boot_settings option" where
  "get_boot_config_settings env path w =
     (if unreadable env path then Inl (ReadFile path)
      else case pd_files w path of
             Some text \<Rightarrow> ok_or InputToml (boot_toml env text)
           | None \<Rightarrow> Inr None)"

definition read_proc_bootconfig :: "('g, 'd, 'e) prairie_env \<Rightarrow> prairie_world \<Rightarrow> 'e prairie_error + string option" where
  "read_proc_bootconfig env w =
     (if unreadable env ''/proc/bootconfig'' then Inl (ReadFile ''/proc/bootconfig'')
      else Inr (pd_files w ''/proc/bootconfig''))"

definition generate_boot_config ::
  "('g, 'd, 'e) prairie_env \<Rightarrow> string \<Rightarrow> prairie_world \<Rightarrow> prairie_world \<times> ('e prairie_error + unit)" where
  "generate_boot_config env path w =
     op_bind (w, get_boot_config_settings env path w) (\<lambda>settings w.
     let bytes = (case settings of
           Some s \<Rightarrow> into_bytes (serialize_boot_settings_to_boot_config s)
         | None \<Rightarrow> into_bytes DEFAULT_BOOTCONFIG_STR) in
     op_bind (w, generate_initrd bytes) (\<lambda>initrd w.
       if write_fails env ''/var/lib/bottlerocket/bootconfig.data'' then (w, Inl WriteInitrd)
       else (w\<lparr>pd_initrd := Some initrd\<rparr>, Inr ())) id) id"

definition boot_config_to_boot_settings_json ::
  "('g, 'd, 'e) prairie_env \<Rightarrow> string \<Rightarrow> ('e prairie_error + string) option" where
  "boot_config_to_boot_settings_json env text =
     try_bind (parse_boot_config_to_boot_settings (boot_ty env) text) (\<lambda>s. Some (ok_or OutputJson (boot_json env s)))"

text \<open>Code that may panic returns \<open>None\<close>; the world is then that of the call.\<close>

definition generate_boot_settings ::
  "('g, 'd, 'e) prairie_env \<Rightarrow> prairie_world \<Rightarrow> (prairie_world \<times> ('e prairie_error + unit)) option" where
  "generate_boot_settings env w =
     (case read_proc_bootconfig env w of
        Inl e \<Rightarrow> Some (w, Inl e)
      | Inr None \<Rightarrow> Some (w, Inr ())
      | Inr (Some text) \<Rightarrow>
          map_option (\<lambda>r. op_bind (w, r) (\<lambda>json w. (w\<lparr>pd_out := pd_out w @ [json]\<rparr>, Inr ())) id)
            (boot_config_to_boot_settings_json env text))"

definition is_reboot_required ::
  "('g, 'd, 'e) prairie_env \<Rightarrow> string \<Rightarrow> prairie_world \<Rightarrow> ('e prairie_error + bool) option" where
  "is_reboot_required env path w =
     try_bind (try_bind (Some (read_proc_bootconfig env w)) (\<lambda>proc. case proc of
         Some text \<Rightarrow> parse_boot_config_to_boot_settings (boot_ty env) text
       | None \<Rightarrow> Some (Inr DEFAULT_BOOT_SETTINGS))) (\<lambda>old.
     try_bind (Some (get_boot_config_settings env path w)) (\<lambda>new.
     let new = (case new of Some s \<Rightarrow> s | None \<Rightarrow> DEFAULT_BOOT_SETTINGS) in
     Some (Inr (case reboot_to_reconcile new of
         Some True \<Rightarrow> boot_settings_change_requires_reboot old new
       | _ \<Rightarrow> False))))"

definition command ::
  "('g, 'd, 'e) prairie_env \<Rightarrow> string \<Rightarrow> string list \<Rightarrow> prairie_world \<Rightarrow> prairie_world \<times> ('e prairie_error + unit)" where
  "command env bin args w =
     (case run_process env bin args of
        None \<Rightarrow> (w, Inl (ExecutionFailure bin))
      | Some ok \<Rightarrow> (w\<lparr>pd_ran := pd_ran w @ [(bin, args)]\<rparr>, ensure ok (CommandFailure bin)))"

definition remove_if_exists ::
  "('g, 'd, 'e) prairie_env \<Rightarrow> string \<Rightarrow> prairie_world \<Rightarrow> prairie_world \<times> ('e prairie_error + unit)" where
  "remove_if_exists env path w =
     (if pd_files w path \<noteq> None then
        (if remove_fails env path then (w, Inl (RemoveFile path)) else (w\<lparr>pd_files := (pd_files w)(path := None)\<rparr>, Inr ()))
      else (w, Inr ()))"

definition capture_dump ::
  "('g, 'd, 'e) prairie_env \<Rightarrow> prairie_world \<Rightarrow> prairie_world \<times> ('e prairie_error + unit)" where
  "capture_dump env w =
     op_bind (remove_if_exists env ''/var/log/kdump/vmcore.dump'' w) (\<lambda>_ w.
     op_bind (remove_if_exists env ''/var/log/kdump/dmesg.log'' w) (\<lambda>_ w.
     op_bind (command env ''/sbin/makedumpfile''
       [''--dump-dmesg'', ''--message-level'', ''4'', ''/proc/vmcore'', ''/var/log/kdump/dmesg.log''] w) (\<lambda>_ w.
     command env ''/sbin/makedumpfile''
       [''-c'', ''--message-level'', ''4'', ''-d'', ''31'', ''/proc/vmcore'', ''/var/log/kdump/vmcore.dump''] w) id) id) id"

definition prepare_boot ::
  "('g, 'd, 'e) prairie_env \<Rightarrow> prairie_world \<Rightarrow> prairie_world \<times> ('e prairie_error + unit)" where
  "prepare_boot env w =
     op_bind (w, map_err LoadState (load_state (part_lib env) (read_parts env))) (\<lambda>s w.
     let boot = set_boot (active_set s) in
     if \<not> mount_ok env boot ''/boot'' then (w, Inl (Mount ''/boot''))
     else let w = w\<lparr>pd_mounted := pd_mounted w @ [(boot, ''/boot'')]\<rparr> in
          if \<not> private_ok env ''/boot'' then (w, Inl (SetupMount ''/boot''))
          else (w\<lparr>pd_private := pd_private w @ [''/boot'']\<rparr>, Inr ())) id"

definition KEXEC_CMD_LINE :: string where
  "KEXEC_CMD_LINE =
     ''maxcpus=1 systemd.unit='' @ [CHR 0x27] @ ''capture-kernel-dump.service'' @ [CHR 0x27] @ '' nr_cpus=1 '' @
     ''swiotlb=noforce cma=0 reset_devices cgroup_disable=memory '' @
     ''udev.children-max=2 panic=10 nvme_core.admin_timeout=20 swiotlb=1''"

definition read_sys ::
  "('g, 'd, 'e) prairie_env \<Rightarrow> string \<Rightarrow> prairie_world \<Rightarrow> 'e prairie_error + string" where
  "read_sys env path w = (if unreadable env path then Inl (ReadFile path) else ok_or (ReadFile path) (pd_files w path))"

definition load_crash_kernel ::
  "('g, 'd, 'e) prairie_env \<Rightarrow> prairie_world \<Rightarrow> prairie_world \<times> ('e prairie_error + unit)" where
  "load_crash_kernel env w =
     op_bind (w, read_sys env ''/sys/kernel/kexec_crash_size'' w) (\<lambda>allocated w.
     if trim allocated = ''0'' then (w, Inr ())
     else op_bind (w, read_sys env ''/proc/sys/kernel/kexec_load_disabled'' w) (\<lambda>disabled w.
       if trim disabled = ''1'' then (w, Inl KexecLoadDisabled)
       else command env ''/sbin/kexec''
         [''-ps'', ''--reuse-cmdline'', ''--append'', if is_x86_64 env then KEXEC_CMD_LINE @ '' irqpoll'' else KEXEC_CMD_LINE,
          ''/boot/vmlinuz''] w) id) id"

definition reboot_if_required ::
  "('g, 'd, 'e) prairie_env \<Rightarrow> string \<Rightarrow> prairie_world \<Rightarrow> prairie_world \<times> 'e ending" where
  "reboot_if_required env path w =
     (case is_reboot_required env path w of
        None \<Rightarrow> (w, Panicked)
      | Some (Inl e) \<Rightarrow> (w, Returned (Inl e))
      | Some (Inr False) \<Rightarrow> (w, Returned (Inr ()))
      | Some (Inr True) \<Rightarrow> (case command env ''/usr/bin/systemctl'' [''reboot''] w of
            (w, Inl e) \<Rightarrow> (w, Returned (Inl e))
          | (w, Inr _) \<Rightarrow> (w, Waits_for_reboot)))"

datatype prairie_subcommand =
    PrepareBoot | CaptureDump | LoadCrashKernel | GenerateBootConfig | GenerateBootSettings | RebootIfRequired

definition setup_logger ::
  "('g, 'd, 'e) prairie_env \<Rightarrow> prairie_subcommand \<Rightarrow> prairie_world \<Rightarrow> prairie_world \<times> ('e prairie_error + unit)" where
  "setup_logger env sub w =
     (if sub = CaptureDump then
        (if write_fails env ''/var/log/kdump/prairiedog.log'' then (w, Inl (WriteFile ''/var/log/kdump/prairiedog.log''))
         else (w\<lparr>pd_files := (pd_files w)(''/var/log/kdump/prairiedog.log'' \<mapsto> [])\<rparr>, ensure (logger_free env) Logger))
      else (w, ensure (logger_free env) Logger))"

text \<open>\<open>run\<close> on the parsed arguments.\<close>

definition run_prairiedog ::
  "('g, 'd, 'e) prairie_env \<Rightarrow> prairie_subcommand \<Rightarrow> string \<Rightarrow> prairie_world \<Rightarrow> prairie_world \<times> 'e ending" where
  "run_prairiedog env sub path w =
     (case setup_logger env sub w of
        (w, Inl e) \<Rightarrow> (w, Returned (Inl e))
      | (w, Inr _) \<Rightarrow> (case sub of
            CaptureDump \<Rightarrow> map_prod id Returned (capture_dump env w)
          | PrepareBoot \<Rightarrow> map_prod id Returned (prepare_boot env w)
          | LoadCrashKernel \<Rightarrow> map_prod id Returned (load_crash_kernel env w)
          | GenerateBootConfig \<Rightarrow> map_prod id Returned (generate_boot_config env path w)
          | GenerateBootSettings \<Rightarrow>
              (case generate_boot_settings env w of None \<Rightarrow> (w, Panicked) | Some (w, r) \<Rightarrow> (w, Returned r))
          | RebootIfRequired \<Rightarrow> reboot_if_required env path w))"

section \<open>Values and lines\<close>

text \<open>A value that can be written between quotes: ASCII, on one line, and without one of the quotes.\<close>

definition quotable :: "string \<Rightarrow> bool" where
  "quotable v \<longleftrightarrow> list_all (\<lambda>c. is_ascii c \<and> c \<noteq> CHR 0x0A) v \<and> (CHR 0x22 \<notin> set v \<or> CHR 0x27 \<notin> set v)"

lemma quote_chars: "\<not> is_whitespace (CHR 0x22)" "\<not> is_whitespace (CHR 0x27)" "is_whitespace (CHR '' '')"
    "\<not> is_whitespace (CHR '','')" "is_ascii (CHR 0x22)" "is_ascii (CHR 0x27)" "is_ascii (CHR '' '')" "is_ascii (CHR '','')"
  by (simp_all add: is_whitespace_def is_ascii_def)

lemma newline_space: "is_whitespace (CHR 0x0A)"
  by (simp add: is_whitespace_def)

lemma parent_chars: "\<not> is_whitespace (CHR ''k'')" "\<not> is_whitespace (CHR ''i'')"
    "list_all is_ascii ''kernel''" "list_all is_ascii ''init''" "is_ascii (CHR ''.'')"
  by (simp_all add: is_whitespace_def is_ascii_def)

lemma quote_value_cases:
  assumes "quotable v"
  obtains q where "q = CHR 0x22 \<or> q = CHR 0x27" "q \<notin> set v" "quote_value v = q # v @ [q]"
  using assms that by (cases "CHR 0x22 \<in> set v") (auto simp: quote_value_def quotable_def)

lemma quote_value_not_Nil [simp]: "quote_value v \<noteq> []"
  by (simp add: quote_value_def)

lemma quote_value_ascii: "quotable v \<Longrightarrow> list_all is_ascii (quote_value v)"
  by (auto simp: quote_value_def quotable_def list_all_iff quote_chars)

lemma parse_quoted:
  assumes "quotable v" "value_ok ty v" "lead \<in> {[], '' ''}"
  shows "parse_value ty (lead @ quote_value v) = Some (Inr v)"
proof -
  obtain q where q: "q = CHR 0x22 \<or> q = CHR 0x27" "quote_value v = q # v @ [q]" by (rule quote_value_cases [OF assms(1)]) blast
  have "\<not> is_whitespace q" using q(1) quote_chars by auto
  then have t: "trim (lead @ quote_value v) = q # v @ [q]"
    using assms(3) by (auto simp: q(2) trim_space_left quote_chars trim_id)
  have a: "list_all is_ascii (q # v @ [q])" using quote_value_ascii [OF assms(1)] unfolding q(2) .
  then have "str_range 1 (byte_len (q # v @ [q]) - 1) (q # v @ [q]) = Some v"
    by (simp add: ascii_slices(1) ascii_range)
  then show ?thesis using q(1) a assms(2) by (auto simp: parse_value_def t Let_def)
qed

lemma loop_in_quotes:
  assumes "q = CHR 0x22 \<or> q = CHR 0x27" "q \<notin> set v"
  shows "values_loop ty input i (v @ q # rest) (Some q) False st els = values_loop ty input (i + length v + 1) rest None True st els"
  using assms by (induction v arbitrary: i) auto

lemma loop_quoted:
  assumes "quotable v" "lead \<in> {[], '' ''}"
  shows "values_loop ty input i (lead @ quote_value v @ rest) None False st els
    = values_loop ty input (i + length lead + length (quote_value v)) rest None True st els"
proof -
  obtain q where q: "q = CHR 0x22 \<or> q = CHR 0x27" "q \<notin> set v" "quote_value v = q # v @ [q]"
    by (rule quote_value_cases [OF assms(1)])
  have "values_loop ty input j (q # v @ q # rest) None False st els
      = values_loop ty input (j + length v + 2) rest None True st els" for j
    using q(1) loop_in_quotes [OF q(1,2), of ty input "Suc j"] by auto
  note j = this
  have "values_loop ty input i ('' '' @ q # v @ q # rest) None False st els
      = values_loop ty input (Suc i) (q # v @ q # rest) None False st els"
    by simp
  then show ?thesis using assms(2) j [of i] j [of "Suc i"] by (auto simp only: q(3) insert_iff empty_iff) (simp_all add: add.assoc)
qed

text \<open>The rendered list of values, and what the loop leaves for the last of them.\<close>

abbreviation render :: "string list \<Rightarrow> string" where
  "render vs \<equiv> join '', '' (map quote_value vs)"

lemma render_Cons: "vs \<noteq> [] \<Longrightarrow> render (v # vs) = quote_value v @ '','' @ '' '' @ render vs"
  by (cases vs) simp_all

lemma render_ascii: "list_all quotable vs \<Longrightarrow> list_all is_ascii (render vs)"
proof (induction vs)
  case (Cons v vs)
  then show ?case by (cases vs) (simp_all add: quote_value_ascii quote_chars)
qed simp

lemma loop_render:
  assumes "vs \<noteq> []" "list_all quotable vs" "list_all (value_ok ty) vs" "lead \<in> {[], '' ''}"
    and "list_all is_ascii input" "input = before @ lead @ render vs"
  shows "\<exists>st lead'. (values_loop ty input (length before) (lead @ render vs) None False (length before) els
        :: ('e prairie_error + _) option) = Some (Inr (None, st, els @ butlast vs))
    \<and> st \<le> length input \<and> drop st input = lead' @ quote_value (last vs) \<and> lead' \<in> {[], '' ''}"
  using assms
proof (induction vs arbitrary: before lead els)
  case (Cons v vs)
  show ?case
  proof (cases "vs = []")
    case True
    then show ?thesis
      using Cons.prems loop_quoted [of v lead ty input "length before" "[]" "length before" els] by auto
  next
    case False
    let ?pre = "lead @ quote_value v" and ?i = "length before + length lead + length (quote_value v)"
    let ?before = "before @ lead @ quote_value v @ '',''"
    have inp: "input = ?before @ '' '' @ render vs" using Cons.prems(6) unfolding render_Cons [OF False] by simp
    have i: "str_range (length before) ?i input = Some ?pre"
      by (subst ascii_range [OF Cons.prems(5)]) (simp_all add: inp)
    have v: "quotable v" "value_ok ty v" using Cons.prems by simp_all
    note p = parse_quoted [OF v Cons.prems(4)]
    have "(values_loop ty input (length before) (lead @ render (v # vs)) None False (length before) els
          :: ('e prairie_error + _) option) = values_loop ty input (length ?before) ('' '' @ render vs) None False (length ?before) (els @ [v])"
      unfolding render_Cons [OF False]
      using loop_quoted [OF v(1) Cons.prems(4), of ty input "length before" "'','' @ '' '' @ render vs" "length before" els] i
      by (simp add: quote_chars add.assoc p)
    note step = this
    have "list_all quotable vs" "list_all (value_ok ty) vs" using Cons.prems by simp_all
    then show ?thesis unfolding step using Cons.IH [OF False _ _ _ Cons.prems(5) inp, of "els @ [v]"] False by simp
  qed
qed simp

lemma render_ends:
  assumes "vs \<noteq> []" "list_all quotable vs"
  shows "render vs \<noteq> []" "\<not> is_whitespace (hd (render vs))" "\<not> is_whitespace (last (render vs))"
proof -
  have q: "\<not> is_whitespace (hd (quote_value v))" "\<not> is_whitespace (last (quote_value v))" "quote_value v \<noteq> []" for v
    by (simp_all add: quote_value_def quote_chars)
  have "render vs \<noteq> [] \<and> hd (render vs) = hd (hd (map quote_value vs)) \<and> last (render vs) = last (last (map quote_value vs))"
    using assms(1) q(3) by (intro hd_last_join) auto
  then show "render vs \<noteq> []" "\<not> is_whitespace (hd (render vs))" "\<not> is_whitespace (last (render vs))"
    using q assms(1) by (simp_all add: hd_map last_map)
qed

lemma parse_render:
  assumes "vs \<noteq> []" "list_all quotable vs" "list_all (value_ok ty) vs"
  shows "(parse_boot_config_values ty (render vs) :: ('e prairie_error + _) option) = Some (Inr vs)"
proof -
  note a = render_ascii [OF assms(2)]
  have t: "trim (render vs) = render vs" by (intro trim_id render_ends assms)
  obtain st lead where l: "(values_loop ty (render vs) 0 (render vs) None False 0 [] :: ('e prairie_error + _) option) = Some (Inr (None, st, butlast vs))"
      "st \<le> length (render vs)" "drop st (render vs) = lead @ quote_value (last vs)" "lead \<in> {[], '' ''}"
    using loop_render [OF assms, of "[]" "render vs" "[]" "[]"] a by auto
  have "(parse_value ty (lead @ quote_value (last vs)) :: ('e prairie_error + _) option) = Some (Inr (last vs))"
    using assms l(4) by (intro parse_quoted) (auto simp: list_all_iff)
  moreover have "lead @ quote_value (last vs) \<noteq> '',''" "lead @ quote_value (last vs) \<noteq> []"
    using l(4) by (auto simp: quote_value_def split: if_splits)
  ultimately show ?thesis
    using assms(1) by (simp add: parse_boot_config_values_def t l ascii_slices(2) [OF a] append_butlast_last_id)
qed

lemma append_values_render:
  "vs \<noteq> [] \<Longrightarrow> append_values i vs out = (if i > 0 then out @ '','' else out) @ '' '' @ render vs"
proof (induction vs arbitrary: i out)
  case (Cons v vs)
  then show ?case by (cases "vs = []") (simp_all add: render_Cons [simplified])
qed simp

section \<open>The written text is read back\<close>

text \<open>What is relied on of the key type: a key is not empty and has only such characters, and can be put below a parent.\<close>

locale boot_keys =
  fixes ty :: boot_types
  assumes key_chars: "key_ok ty k \<Longrightarrow> k \<noteq> [] \<and> list_all (\<lambda>c. is_ascii c \<and> \<not> is_whitespace c \<and> c \<noteq> CHR ''='') k"
    and key_below: "key_ok ty k \<Longrightarrow> p = ''kernel'' \<or> p = ''init'' \<Longrightarrow> key_ok ty (p @ ''.'' @ k)"

definition boot_line :: "string \<Rightarrow> string \<Rightarrow> string list \<Rightarrow> string" where
  "boot_line p k vs = p @ ''.'' @ k @ (if vs = [] then [] else '' = '' @ render vs)"

definition params_ok :: "boot_types \<Rightarrow> boot_params \<Rightarrow> bool" where
  "params_ok ty ps \<longleftrightarrow> hm_wf id ps \<and> list_all (\<lambda>(k, vs). key_ok ty k \<and> list_all (\<lambda>v. value_ok ty v \<and> quotable v) vs) ps"

definition settings_ok :: "boot_types \<Rightarrow> boot_settings \<Rightarrow> bool" where
  "settings_ok ty s \<longleftrightarrow>
     params_ok ty (case kernel_parameters s of Some m \<Rightarrow> m | None \<Rightarrow> []) \<and>
     params_ok ty (case init_parameters s of Some m \<Rightarrow> m | None \<Rightarrow> [])"

definition params_view :: "boot_params option \<Rightarrow> string \<rightharpoonup> string list" where
  "params_view ps = (case ps of Some m \<Rightarrow> hm_view id m | None \<Rightarrow> Map.empty)"

definition params_wf :: "boot_params option \<Rightarrow> bool" where
  "params_wf ps \<longleftrightarrow> (case ps of Some m \<Rightarrow> hm_wf id m | None \<Rightarrow> True)"

definition params_lines :: "string \<Rightarrow> boot_params \<Rightarrow> string list" where
  "params_lines p ps = map (\<lambda>k. boot_line p k (the (hm_get id k ps))) (sort (map fst ps))"

lemma write_sorted_params_lines:
  "write_sorted_params out ps p = out @ concat (map (\<lambda>l. l @ [CHR 0x0A]) (params_lines p ps))"
proof -
  have "fold (\<lambda>key out. let values = the (hm_get id key ps); out = out @ p @ ''.'' @ key;
           out = (if values \<noteq> [] then append_boot_config_value_list values (out @ '' ='') else out)
       in out @ [CHR 0x0A]) ks out
    = out @ concat (map (\<lambda>l. l @ [CHR 0x0A]) (map (\<lambda>k. boot_line p k (the (hm_get id k ps))) ks))" for ks
    by (induction ks arbitrary: out)
       (simp_all add: Let_def boot_line_def append_boot_config_value_list_def append_values_render)
  then show ?thesis by (simp add: write_sorted_params_def params_lines_def)
qed

lemma serialize_lines:
  "serialize_boot_settings_to_boot_config s = concat (map (\<lambda>l. l @ [CHR 0x0A])
     (params_lines ''init'' (case init_parameters s of Some m \<Rightarrow> m | None \<Rightarrow> []) @
      params_lines ''kernel'' (case kernel_parameters s of Some m \<Rightarrow> m | None \<Rightarrow> [])))"
  by (simp add: serialize_boot_settings_to_boot_config_def write_sorted_params_lines Let_def params_lines_def split: option.splits)

lemma params_get:
  assumes "params_ok ty ps" "k \<in> set (sort (map fst ps))"
  shows "key_ok ty k" "list_all (value_ok ty) (the (hm_get id k ps))" "list_all quotable (the (hm_get id k ps))"
proof -
  obtain vs where vs: "(k, vs) \<in> set ps" using assms(2) by auto
  then have "hm_get id k ps = Some vs" using hm_view_mem [of id ps k vs] assms(1) by (simp add: hm_get_view params_ok_def)
  then show "key_ok ty k" "list_all (value_ok ty) (the (hm_get id k ps))" "list_all quotable (the (hm_get id k ps))"
    using assms(1) vs by (auto simp: params_ok_def list_all_iff)
qed

context boot_keys
begin

lemma boot_line_shape:
  assumes "p = ''kernel'' \<or> p = ''init''" "key_ok ty k" "list_all quotable vs"
  shows "boot_line p k vs \<noteq> []" "\<not> is_whitespace (hd (boot_line p k vs))" "\<not> is_whitespace (last (boot_line p k vs))"
    "CHR 0x0A \<notin> set (boot_line p k vs)"
proof -
  have k: "k \<noteq> []" "\<not> is_whitespace (last k)" "CHR 0x0A \<notin> set k"
    using key_chars [OF assms(2)] newline_space by (auto simp: list_all_iff)
  have r: "CHR 0x0A \<notin> set (render vs)"
    using assms(3)
  proof (induction vs)
    case (Cons v vs)
    then show ?case by (cases vs) (auto simp: quote_value_def quotable_def list_all_iff)
  qed simp
  show "boot_line p k vs \<noteq> []" by (simp add: boot_line_def)
  show "\<not> is_whitespace (hd (boot_line p k vs))" using assms(1) parent_chars by (auto simp: boot_line_def)
  show "\<not> is_whitespace (last (boot_line p k vs))"
    using k render_ends [OF _ assms(3)] by (cases "vs = []") (simp_all add: boot_line_def)
  show "CHR 0x0A \<notin> set (boot_line p k vs)" using assms(1) k r by (auto simp: boot_line_def)
qed

lemma parse_line:
  assumes p: "p = ''kernel'' \<or> p = ''init''" and k: "key_ok ty k" and v: "list_all quotable vs" "list_all (value_ok ty) vs"
  shows "(parse_boot_line ty ms (boot_line p k vs) :: ('e prairie_error + _) option)
    = Some (Inr (if p = ''kernel'' then (hm_insert id k vs (fst ms), snd ms) else (fst ms, hm_insert id k vs (snd ms))))"
proof -
  let ?key = "p @ ''.'' @ k"
  note sh = boot_line_shape [OF p k v(1)]
  have kk: "k \<noteq> []" "list_all is_ascii k" "\<not> is_whitespace (last k)" "CHR ''='' \<notin> set k"
    using key_chars [OF k] by (auto simp: list_all_iff)
  have eq: "CHR ''='' \<notin> set ?key" using p kk by auto
  have tk: "trim ?key = ?key" using p kk parent_chars by (intro trim_id) auto
  have tl: "trim (boot_line p k vs) = boot_line p k vs" "trim_start (boot_line p k vs) = boot_line p k vs"
    using sh by (auto simp: trim_id trim_start_def dropWhile_eq_self_iff)
  have c: "\<not> starts_with (boot_line p k vs) ''#''" using p by (auto simp: boot_line_def starts_with_def)
  have sp: "splitn2 (CHR ''='') (boot_line p k vs) = (if vs = [] then (?key, None) else (?key @ '' '', Some ('' '' @ render vs)))"
  proof (cases "vs = []")
    case False
    have "CHR ''='' \<notin> set (?key @ '' '')" using eq by simp
    from splitn2_append [OF this, of "'' '' @ render vs"] show ?thesis using False by (simp add: boot_line_def)
  qed (use splitn2_none [OF eq] in \<open>simp add: boot_line_def\<close>)
  have vals: "(parse_boot_config_values ty (trim ('' '' @ render vs)) :: ('e prairie_error + _) option) = Some (Inr vs)" if "vs \<noteq> []"
    using that parse_render [OF that v] render_ends [OF that v(1)] by (simp add: trim_space_left quote_chars trim_id)
  have a: "list_all is_ascii ?key" using p kk parent_chars by auto
  have f: "str_from 7 ?key = Some k" if "p = ''kernel''" unfolding ascii_slices(2) [OF a] using that by simp
  have f': "str_from 5 ?key = Some k" if "p = ''init''" unfolding ascii_slices(2) [OF a] using that by simp
  have kb: "key_ok ty ?key" using key_below [OF k p] .
  have tk': "trim (?key @ '' '') = ?key" using trim_space_right [OF quote_chars(3), of ?key] tk by simp
  have "(parse_boot_line ty ms (boot_line p k vs) :: ('e prairie_error + _) option) = add_boot_param ty ms ?key vs"
    unfolding parse_boot_line_def tl sp parse_boot_key_def
    using c by (cases "vs = []") (simp_all only: c if_False if_True prod.case tk tk' kb option.case vals try_bind_simps simp_thms)
  also have "\<dots> = Some (Inr (if p = ''kernel'' then (hm_insert id k vs (fst ms), snd ms) else (fst ms, hm_insert id k vs (snd ms))))"
    using p k f f' by (elim disjE) (simp_all add: add_boot_param_def parse_boot_key_def starts_with_def del: str_from.simps)
  finally show ?thesis .
qed

lemma parse_params_lines:
  assumes p: "p = ''kernel'' \<or> p = ''init''" and ok: "params_ok ty ps"
  shows "(parse_boot_lines ty ms (params_lines p ps @ rest) :: ('e prairie_error + _) option) =
    parse_boot_lines ty (let ins = fold (\<lambda>k. hm_insert id k (the (hm_get id k ps))) (sort (map fst ps)) in
      if p = ''kernel'' then (ins (fst ms), snd ms) else (fst ms, ins (snd ms))) rest"
proof -
  have "(parse_boot_lines ty ms (map (\<lambda>k. boot_line p k (the (hm_get id k ps))) ks @ rest) :: ('e prairie_error + _) option) =
    parse_boot_lines ty (let ins = fold (\<lambda>k. hm_insert id k (the (hm_get id k ps))) ks in
      if p = ''kernel'' then (ins (fst ms), snd ms) else (fst ms, ins (snd ms))) rest"
    if "set ks \<subseteq> set (sort (map fst ps))" for ks
    using that
  proof (induction ks arbitrary: ms)
    case (Cons k ks)
    have k: "k \<in> set (sort (map fst ps))" using Cons.prems by simp
    show ?case
      using parse_line [OF p params_get(1) [OF ok k] params_get(3,2) [OF ok k], of ms, where 'e = 'e] Cons.IH Cons.prems
      by (simp only: list.map append_Cons parse_boot_lines.simps try_bind_simps fold_simps Let_def comp_apply list.set insert_subset)
         (simp add: Let_def split: if_splits)
  qed (simp add: Let_def)
  then show ?thesis by (simp add: params_lines_def)
qed

end

lemma fold_insert_view:
  "hm_view id (fold (\<lambda>k. hm_insert id k (f k)) ks m) q = (if q \<in> set ks then Some (f q) else hm_view id m q)"
  by (induction ks arbitrary: m) (auto simp: hm_view_insert)

lemma fold_insert_wf: "hm_wf id m \<Longrightarrow> hm_wf id (fold (\<lambda>k. hm_insert id k (f k)) ks m)"
  by (induction ks arbitrary: m) simp_all

lemma rebuilt_view:
  assumes "hm_wf id ps"
  shows "hm_view id (fold (\<lambda>k. hm_insert id k (the (hm_get id k ps))) (sort (map fst ps)) []) = hm_view id ps"
proof
  fix q
  have "q \<in> set (sort (map fst ps)) \<longleftrightarrow> hm_view id ps q \<noteq> None"
    using dom_hm_view [of id ps] by (auto simp: dom_def image_iff)
  then show "hm_view id (fold (\<lambda>k. hm_insert id k (the (hm_get id k ps))) (sort (map fst ps)) []) q = hm_view id ps q"
    unfolding fold_insert_view by (auto simp: hm_get_view)
qed

lemma params_view_opt: "params_view (if m = [] then None else Some m) = hm_view id m"
  by (simp add: params_view_def)

lemma boot_settings_round_trip:
  assumes "boot_keys ty" "settings_ok ty s"
  shows "\<exists>s'. (parse_boot_config_to_boot_settings ty (serialize_boot_settings_to_boot_config s) :: ('e prairie_error + _) option)
      = Some (Inr s') \<and> reboot_to_reconcile s' = None
    \<and> params_view (kernel_parameters s') = params_view (kernel_parameters s)
    \<and> params_view (init_parameters s') = params_view (init_parameters s)
    \<and> params_wf (kernel_parameters s') \<and> params_wf (init_parameters s')"
proof -
  define km im where "km = (case kernel_parameters s of Some m \<Rightarrow> m | None \<Rightarrow> [])"
    and "im = (case init_parameters s of Some m \<Rightarrow> m | None \<Rightarrow> [])"
  have ok: "params_ok ty km" "params_ok ty im"
    using assms(2) by (simp_all add: km_def im_def settings_ok_def)
  then have wf: "hm_wf id km" "hm_wf id im" by (simp_all add: params_ok_def)
  let ?ls = "params_lines ''init'' im @ params_lines ''kernel'' km"
  have "l \<noteq> [] \<and> \<not> is_whitespace (hd l) \<and> \<not> is_whitespace (last l) \<and> CHR 0x0A \<notin> set l" if l: "l \<in> set ?ls" for l
  proof -
    obtain p ps k where "p = ''kernel'' \<or> p = ''init''" "params_ok ty ps" "k \<in> set (sort (map fst ps))"
        "l = boot_line p k (the (hm_get id k ps))"
      using l ok unfolding params_lines_def by auto
    then show ?thesis
      using boot_keys.boot_line_shape [OF assms(1) _ params_get(1) params_get(3)] by metis
  qed
  then have "str_lines (trim (serialize_boot_settings_to_boot_config s)) = ?ls"
    unfolding serialize_lines km_def [symmetric] im_def [symmetric] by (rule str_lines_of_lines)
  moreover define rb where "rb = (\<lambda>ps :: boot_params. fold (\<lambda>k. hm_insert id k (the (hm_get id k ps))) (sort (map fst ps)) [])"
  have "(parse_boot_lines ty ([], []) ?ls :: ('e prairie_error + _) option) = Some (Inr (rb km, rb im))"
    using boot_keys.parse_params_lines [OF assms(1) _ ok(2), of "''init''" "([], [])" "params_lines ''kernel'' km", where 'e = 'e]
      boot_keys.parse_params_lines [OF assms(1) _ ok(1), of "''kernel''" "([], rb im)" "[]", where 'e = 'e]
    by (simp add: rb_def Let_def)
  moreover have "hm_view id (rb km) = params_view (kernel_parameters s)" "hm_view id (rb im) = params_view (init_parameters s)"
    unfolding rb_def rebuilt_view [OF wf(1)] rebuilt_view [OF wf(2)]
    by (simp_all add: km_def im_def params_view_def split: option.splits)
  moreover have "hm_wf id (rb km)" "hm_wf id (rb im)" by (simp_all add: rb_def fold_insert_wf)
  ultimately show ?thesis by (simp add: parse_boot_config_to_boot_settings_def params_view_opt params_wf_def)
qed

section \<open>Reading never panics on ASCII text\<close>

definition quotes :: "string \<Rightarrow> nat" where
  "quotes s = length (filter (\<lambda>c. c = CHR 0x27 \<or> c = CHR 0x22) s)"

lemma quotes_trim: "quotes (trim s) = quotes s"
  unfolding quotes_def using quote_chars by (subst trim_filter) auto

lemma quotes_append: "quotes (s @ [c]) = quotes s + (if c = CHR 0x27 \<or> c = CHR 0x22 then 1 else 0)"
  by (simp add: quotes_def)

lemma parse_value_returns:
  assumes "quotes s \<noteq> 1"
  shows "\<exists>r. parse_value ty s = Some r \<and> (\<forall>v. r = Inr v \<longrightarrow> value_ok ty v)"
proof -
  let ?t = "trim s"
  have single: "?t \<noteq> [c]" if "c = CHR 0x27 \<or> c = CHR 0x22" for c
  proof
    assume "?t = [c]"
    then have "quotes ?t = 1" using that by (simp only: quotes_def filter.simps if_True list.size)
    then show False using assms by (simp add: quotes_trim)
  qed
  have "\<exists>u. str_range 1 (byte_len ?t - 1) ?t = Some u"
    if a: "list_all is_ascii ?t" and n: "?t \<noteq> []" and h: "hd ?t = CHR 0x27 \<or> hd ?t = CHR 0x22"
  proof -
    obtain c cs where t: "?t = c # cs" using n by (cases ?t) auto
    then have "cs \<noteq> []" using single h by auto
    then have "1 \<le> length cs" by (simp add: Suc_le_eq)
    moreover have "byte_len ?t - 1 = length cs" using ascii_slices(1) [OF a] by (simp add: t)
    ultimately show ?thesis using ascii_range [OF a, of 1 "length cs"] by (simp add: t)
  qed
  note slice = this
  define qd where "qd = (?t \<noteq> [] \<and> (hd ?t = CHR 0x22 \<and> last ?t = CHR 0x22 \<or> hd ?t = CHR 0x27 \<and> last ?t = CHR 0x27))"
  have p: "parse_value ty s =
     (if \<not> list_all (\<lambda>c. is_ascii c \<and> (qd \<or> \<not> needs_quotes c)) ?t then Some (Inl (InvalidBootConfigValue ?t))
      else map_option (\<lambda>s. if value_ok ty s then Inr s else Inl ParseBootConfigValue)
             (if qd then str_range 1 (byte_len ?t - 1) ?t else Some ?t))"
    unfolding parse_value_def Let_def qd_def by (rule refl)
  have "qd \<Longrightarrow> list_all (\<lambda>c. is_ascii c \<and> (qd \<or> \<not> needs_quotes c)) ?t \<Longrightarrow> \<exists>u. str_range 1 (byte_len ?t - 1) ?t = Some u"
    using slice unfolding qd_def list_all_iff by blast
  then show ?thesis unfolding p by fastforce
qed

lemma segment_snoc: "drop i s = c # cs \<Longrightarrow> start \<le> i \<Longrightarrow> take (Suc i - start) (drop start s) = take (i - start) (drop start s) @ [c]"
proof -
  assume d: "drop i s = c # cs" and st: "start \<le> i"
  then have i: "i < length s" by (metis drop_all list.distinct(1) not_le)
  have "s ! i = c" using d i by (metis Cons_nth_drop_Suc list.inject)
  then show ?thesis using st i by (simp add: Suc_diff_le take_Suc_conv_app_nth)
qed

lemma values_loop_returns:
  assumes "list_all is_ascii input" "drop i input = cs" "i \<le> length input" "start \<le> i"
    and "quot = None \<longrightarrow> quotes (take (i - start) (drop start input)) \<noteq> 1"
    and "quot \<noteq> None \<longrightarrow> quotes (take (i - start) (drop start input)) \<ge> 1" "list_all (value_ok ty) els"
  shows "\<exists>r. (values_loop ty input i cs quot expect start els :: ('e prairie_error + _) option) = Some r \<and>
    (\<forall>quot' start' els'. r = Inr (quot', start', els') \<longrightarrow> start' \<le> length input \<and> list_all (value_ok ty) els' \<and>
       (quot' = None \<longrightarrow> quotes (drop start' input) \<noteq> 1))"
  using assms
proof (induction cs arbitrary: i quot expect start els)
  case Nil
  then show ?case by (simp add: list_all_iff)
next
  case (Cons c cs)
  have d: "drop (Suc i) input = cs" "Suc i \<le> length input"
    using Cons.prems(2) by (metis drop_Suc_Cons drop_drop plus_1_eq_Suc drop0, metis drop_all list.distinct(1) not_less_eq_eq)
  note seg = segment_snoc [OF Cons.prems(2,4)]
  note IH = Cons.IH [OF Cons.prems(1) d]
  have le: "start \<le> Suc i" using Cons.prems(4) by simp
  let ?q = "c = CHR 0x27 \<or> c = CHR 0x22"
  consider (err) "expect \<and> \<not> is_whitespace c \<and> c \<noteq> CHR '',''"
    | (quote) "\<not> (expect \<and> \<not> is_whitespace c \<and> c \<noteq> CHR '','')" ?q
    | (comma) "\<not> (expect \<and> \<not> is_whitespace c \<and> c \<noteq> CHR '','')" "\<not> ?q" "c = CHR '',''" "quot = None"
    | (other) "\<not> (expect \<and> \<not> is_whitespace c \<and> c \<noteq> CHR '','')" "\<not> ?q" "\<not> (c = CHR '','' \<and> quot = None)"
    by blast
  then show ?case
  proof cases
    case err
    then show ?thesis by simp
  next
    case quote
    then show ?thesis
      using IH [OF le] Cons.prems(5-7) by (cases quot) (auto simp: seg quotes_append)
  next
    case comma
    have r: "str_range start i input = Some (take (i - start) (drop start input))"
      using Cons.prems by (simp add: ascii_range)
    obtain r where r': "(parse_value ty (take (i - start) (drop start input)) :: ('e prairie_error + _) option) = Some r"
        "\<forall>v. r = Inr v \<longrightarrow> value_ok ty v"
      using parse_value_returns Cons.prems(5) comma(4) by blast
    show ?thesis
      using comma r r' IH [of "Suc i" None] Cons.prems(7) by (cases r) (simp_all add: quotes_def list_all_iff)
  next
    case other
    then show ?thesis using IH [OF le] Cons.prems(5-7) by (auto simp: seg quotes_append)
  qed
qed

lemma parse_values_return:
  assumes "list_all is_ascii input" "trim input = input"
  shows "\<exists>r. (parse_boot_config_values ty input :: ('e prairie_error + _) option) = Some r \<and>
    (\<forall>vs. r = Inr vs \<longrightarrow> list_all (value_ok ty) vs)"
proof -
  obtain r where r: "(values_loop ty input 0 input None False 0 [] :: ('e prairie_error + _) option) = Some r"
      "\<forall>quot' start' els'. r = Inr (quot', start', els') \<longrightarrow> start' \<le> length input \<and> list_all (value_ok ty) els' \<and>
       (quot' = None \<longrightarrow> quotes (drop start' input) \<noteq> 1)"
    using values_loop_returns [OF assms(1), of 0 input 0 None ty "[]" False] by (auto simp: quotes_def)
  show ?thesis
  proof (cases r)
    case (Inr t)
    then obtain quot st els where t: "r = Inr (quot, st, els)" by (cases t) auto
    have st: "st \<le> length input" "list_all (value_ok ty) els" "quot = None \<longrightarrow> quotes (drop st input) \<noteq> 1"
      using r(2) t by blast+
    show ?thesis
    proof (cases "quot \<noteq> None \<or> drop st input = '','' \<or> drop st input = []")
      case True
      then show ?thesis
        using st by (auto simp: parse_boot_config_values_def assms(2) r(1) t ascii_slices(2) [OF assms(1)])
    next
      case False
      then obtain q where q: "(parse_value ty (drop st input) :: ('e prairie_error + _) option) = Some q" "\<forall>v. q = Inr v \<longrightarrow> value_ok ty v"
        using st(3) parse_value_returns by blast
      have "(parse_boot_config_values ty input :: ('e prairie_error + _) option) = try_bind (Some q) (\<lambda>v. Some (Inr (els @ [v])))"
        using False st(1) by (simp add: parse_boot_config_values_def assms(2) r(1) t ascii_slices(2) [OF assms(1)] q(1))
      then show ?thesis using q(2) st(2) by (cases q) simp_all
    qed
  qed (simp add: parse_boot_config_values_def assms(2) r(1))
qed

text \<open>What the parser's result has: keys and values of the modelled types, and no empty map.\<close>

definition params_typed :: "boot_types \<Rightarrow> boot_params \<Rightarrow> bool" where
  "params_typed ty ps \<longleftrightarrow> hm_wf id ps \<and> list_all (\<lambda>(k, vs). key_ok ty k \<and> list_all (value_ok ty) vs) ps"

definition settings_typed :: "boot_types \<Rightarrow> boot_settings \<Rightarrow> bool" where
  "settings_typed ty s \<longleftrightarrow> reboot_to_reconcile s = None \<and>
     (\<forall>ps. kernel_parameters s = Some ps \<longrightarrow> ps \<noteq> [] \<and> params_typed ty ps) \<and>
     (\<forall>ps. init_parameters s = Some ps \<longrightarrow> ps \<noteq> [] \<and> params_typed ty ps)"

lemma params_typed_insert:
  "params_typed ty ps \<Longrightarrow> key_ok ty k \<Longrightarrow> list_all (value_ok ty) vs \<Longrightarrow> params_typed ty (hm_insert id k vs ps)"
proof -
  have "list_all P (hm_insert id k vs ps)" if "list_all P ps" "\<And>k'. k' = k \<Longrightarrow> P (k', vs)" for P
    using that(1)
  proof (induction ps)
    case (Cons e ps)
    then show ?case using that(2) by (cases e) auto
  qed (simp add: that(2))
  then show "params_typed ty ps \<Longrightarrow> key_ok ty k \<Longrightarrow> list_all (value_ok ty) vs \<Longrightarrow> params_typed ty (hm_insert id k vs ps)"
    by (simp add: params_typed_def)
qed

lemma add_boot_param_returns:
  assumes "list_all is_ascii key" "params_typed ty (fst ps)" "params_typed ty (snd ps)" "list_all (value_ok ty) vs"
  shows "\<exists>r. (add_boot_param ty ps key vs :: ('e prairie_error + _) option) = Some r \<and>
    (\<forall>ps'. r = Inr ps' \<longrightarrow> params_typed ty (fst ps') \<and> params_typed ty (snd ps'))"
proof -
  have long: "Suc (length p) \<le> length key" if "key \<noteq> p" "starts_with key p" for p
    using that by (metis Suc_leI length_take min.cobounded1 nat_less_le starts_with_def take_all_iff)
  have k: "\<exists>u. str_from 7 key = Some u" if "key \<noteq> ''kernel''" "starts_with key ''kernel''"
    using long [OF that] by (simp add: ascii_slices(2) [OF assms(1)])
  have i: "\<exists>u. str_from 5 key = Some u" if "key \<noteq> ''init''" "starts_with key ''init''"
    using long [OF that] by (simp add: ascii_slices(2) [OF assms(1)])
  have t: "\<exists>r. Some (and_then (parse_boot_key ty u) f :: 'e prairie_error + _) = Some r \<and>
      (\<forall>ps'. r = Inr ps' \<longrightarrow> params_typed ty (fst ps') \<and> params_typed ty (snd ps'))"
    if "\<And>k. key_ok ty k \<Longrightarrow> \<exists>ps'. f k = Inr ps' \<and> params_typed ty (fst ps') \<and> params_typed ty (snd ps')" for u f
    using that [of u] by (auto simp: parse_boot_key_def)
  have tk: "\<exists>r. Some (and_then (parse_boot_key ty u) (\<lambda>name. Inr (hm_insert id name vs (fst ps), snd ps)) :: 'e prairie_error + _) = Some r \<and>
      (\<forall>ps'. r = Inr ps' \<longrightarrow> params_typed ty (fst ps') \<and> params_typed ty (snd ps'))" for u
    using assms by (intro t) (simp add: params_typed_insert)
  have ti: "\<exists>r. Some (and_then (parse_boot_key ty u) (\<lambda>name. Inr (fst ps, hm_insert id name vs (snd ps))) :: 'e prairie_error + _) = Some r \<and>
      (\<forall>ps'. r = Inr ps' \<longrightarrow> params_typed ty (fst ps') \<and> params_typed ty (snd ps'))" for u
    using assms by (intro t) (simp add: params_typed_insert)
  show ?thesis
  proof (cases "key \<noteq> ''kernel'' \<and> starts_with key ''kernel''")
    case True
    then show ?thesis using k tk by (force simp: add_boot_param_def simp del: str_from.simps)
  next
    case False
    note nk = this
    show ?thesis
    proof (cases "key \<noteq> ''init'' \<and> starts_with key ''init''")
      case True
      then show ?thesis using i ti nk by (force simp: add_boot_param_def simp del: str_from.simps)
    next
      case False
      then show ?thesis using nk assms unfolding add_boot_param_def by (simp only: if_False) auto
    qed
  qed
qed

lemma parse_line_returns:
  assumes "list_all is_ascii line" "params_typed ty (fst ps)" "params_typed ty (snd ps)"
  shows "\<exists>r. (parse_boot_line ty ps line :: ('e prairie_error + _) option) = Some r \<and>
    (\<forall>ps'. r = Inr ps' \<longrightarrow> params_typed ty (fst ps') \<and> params_typed ty (snd ps'))"
proof (cases "starts_with (trim_start line) ''#''")
  case False
  obtain a b where sp: "splitn2 (CHR ''='') (trim line) = (a, b)" by force
  have s: "list_all is_ascii (trim a)" "\<And>v. b = Some v \<Longrightarrow> list_all is_ascii (trim v)"
  proof -
    have "set (tl (dropWhile P t)) \<subseteq> set t" for P and t :: string
      by (induction t) (auto dest: list.set_sel(2) [rotated])
    from this [of "\<lambda>x. x \<noteq> CHR ''=''" "trim line"] have "set a \<subseteq> set line" "\<And>v. b = Some v \<Longrightarrow> set v \<subseteq> set line"
      using sp trim_subset [of line] by (auto simp: splitn2_def split: if_splits dest: set_takeWhileD)
    then show "list_all is_ascii (trim a)" "\<And>v. b = Some v \<Longrightarrow> list_all is_ascii (trim v)"
      using assms(1) trim_subset unfolding list_all_iff by blast+
  qed
  obtain r where r: "(case b of Some value \<Rightarrow> parse_boot_config_values ty (trim value) | None \<Rightarrow> Some (Inr [])) = (Some r :: ('e prairie_error + _) option)"
      "\<forall>vs. r = Inr vs \<longrightarrow> list_all (value_ok ty) vs"
    using parse_values_return [OF s(2), of _ ty] by (cases b) auto
  show ?thesis
    using False r add_boot_param_returns [OF s(1) assms(2,3)]
    by (cases "key_ok ty (trim a)"; cases r) (simp_all add: parse_boot_line_def sp parse_boot_key_def)
qed (use assms in \<open>cases ps, simp add: parse_boot_line_def\<close>)

lemma parse_lines_return:
  assumes "list_all (list_all is_ascii) ls" "params_typed ty (fst ps)" "params_typed ty (snd ps)"
  shows "\<exists>r. (parse_boot_lines ty ps ls :: ('e prairie_error + _) option) = Some r \<and>
    (\<forall>ps'. r = Inr ps' \<longrightarrow> params_typed ty (fst ps') \<and> params_typed ty (snd ps'))"
  using assms
proof (induction ls arbitrary: ps)
  case (Cons l ls)
  obtain r where r: "(parse_boot_line ty ps l :: ('e prairie_error + _) option) = Some r"
      "\<forall>ps'. r = Inr ps' \<longrightarrow> params_typed ty (fst ps') \<and> params_typed ty (snd ps')"
    using parse_line_returns [of l ty ps] Cons.prems by auto
  then show ?case using Cons.IH Cons.prems(1) by (cases r) auto
qed force

lemma parse_boot_config_returns:
  assumes "list_all is_ascii text"
  shows "\<exists>r. (parse_boot_config_to_boot_settings ty text :: ('e prairie_error + _) option) = Some r \<and>
    (\<forall>s. r = Inr s \<longrightarrow> settings_typed ty s)"
proof -
  have "list_all (list_all is_ascii) (str_lines (trim text))"
    using assms str_lines_subset trim_subset unfolding list_all_iff by (meson subsetD)
  then obtain r where r: "(parse_boot_lines ty ([], []) (str_lines (trim text)) :: ('e prairie_error + _) option) = Some r"
      "\<forall>ps'. r = Inr ps' \<longrightarrow> params_typed ty (fst ps') \<and> params_typed ty (snd ps')"
    using parse_lines_return [of "str_lines (trim text)" ty "([], [])"] by (auto simp: params_typed_def)
  show ?thesis
  proof (cases r)
    case (Inr ps)
    then show ?thesis
      using r by (cases ps) (simp add: parse_boot_config_to_boot_settings_def settings_typed_def)
  qed (simp add: parse_boot_config_to_boot_settings_def r)
qed

section \<open>Rebooting\<close>

lemma same_params_view:
  assumes "hm_wf id m" "hm_wf id m'"
  shows "same_params m m' \<longleftrightarrow> hm_view id m = hm_view id m'"
proof
  assume v: "hm_view id m = hm_view id m'"
  have card: "card (dom (hm_view id n)) = length n" if "hm_wf id n" for n :: boot_params
    using that distinct_card [of "map (\<lambda>e. id (fst e)) n"] by (simp add: dom_hm_view hm_wf_def)
  have "length m = length m'" using card [OF assms(1)] card [OF assms(2)] by (simp add: v)
  moreover have "\<forall>(k, x) \<in> set m. hm_get id k m' = Some x"
    using hm_view_mem [OF assms(1)] by (auto simp: hm_get_view v)
  ultimately show "same_params m m'" by (simp add: same_params_def list_all_iff)
next
  assume s: "same_params m m'"
  have sub: "hm_view id m k = Some x \<Longrightarrow> hm_view id m' k = Some x" for k x
    using s hm_view_Some_mem [of id m k x] by (auto simp: same_params_def list_all_iff hm_get_view)
  then have "dom (hm_view id m) \<subseteq> dom (hm_view id m')" by (auto simp: dom_def)
  moreover have "card (dom (hm_view id n)) = length n" if "hm_wf id n" for n :: boot_params
    using that distinct_card [of "map (\<lambda>e. id (fst e)) n"] by (simp add: dom_hm_view hm_wf_def)
  then have "card (dom (hm_view id m)) = card (dom (hm_view id m'))" using s assms by (simp add: same_params_def)
  moreover have "finite (dom (hm_view id m'))" by (simp add: dom_hm_view)
  ultimately have "dom (hm_view id m) = dom (hm_view id m')" by (simp add: card_subset_eq)
  then show "hm_view id m = hm_view id m'"
    using sub by (intro ext) (metis domIff option.exhaust)
qed

lemma hm_view_empty_iff: "hm_view id (m :: boot_params) = Map.empty \<longleftrightarrow> m = []"
  using dom_hm_view [of id m] by auto

lemma changed_iff:
  assumes "params_wf old" "params_wf new"
  shows "parameters_changed_materially old new \<longleftrightarrow> params_view old \<noteq> params_view new"
proof -
  have e: "Map.empty = hm_view id m \<longleftrightarrow> m = []" for m :: boot_params
    using hm_view_empty_iff [of m] by (simp add: eq_commute)
  show ?thesis using assms
    by (cases old; cases new) (simp_all add: params_view_def params_wf_def same_params_view e hm_view_empty_iff)
qed

section \<open>The initrd image\<close>

text \<open>
  What the kernel does with the image (Documentation/admin-guide/bootconfig.rst): the last 12 bytes are
  the magic, before it are the checksum and the size, both little endian, and before these the boot
  configuration of that size, whose bytes add up to the checksum.
\<close>

definition le_u32 :: "8 word list \<Rightarrow> u32" where
  "le_u32 bs = (case bs of [a, b, c, d] \<Rightarrow> ucast a OR push_bit 8 (ucast b) OR push_bit 16 (ucast c) OR push_bit 24 (ucast d) | _ \<Rightarrow> 0)"

definition kernel_load :: "8 word list \<Rightarrow> 8 word list option" where
  "kernel_load img =
     (let n = length img; body = take (n - 20) img; trailer = drop (n - 20) img;
          size = unat (le_u32 (take 4 trailer)); sum = le_u32 (take 4 (drop 4 trailer))
      in if n < 20 \<or> drop 8 trailer \<noteq> into_bytes BOOTCONFIG_MAGIC \<or> size > length body then None
         else let config = drop (length body - size) body in
              if sum_list (map (ucast :: 8 word \<Rightarrow> u32) config) = sum then Some config else None)"

lemma le_u32_u32_le: "le_u32 (u32_le w) = w"
proof (rule bit_word_eqI)
  fix n assume n: "n < LENGTH(32)"
  then consider "n < 8" | "8 \<le> n" "n < 16" | "16 \<le> n" "n < 24" | "24 \<le> n" "n < 32" by force
  then show "bit (le_u32 (u32_le w)) n = bit w n"
    using n by cases (auto simp: le_u32_def u32_le_def bit_or_iff bit_push_bit_iff bit_ucast_iff bit_drop_bit_eq)
qed

lemma length_u32_le [simp]: "length (u32_le w) = 4"
  by (simp add: u32_le_def)

lemma magic_bytes: "length (into_bytes BOOTCONFIG_MAGIC) = 12" "byte_len BOOTCONFIG_MAGIC = 12"
  by code_simp+

lemma checksum_sum:
  assumes "boot_checksum bs = Inr c"
  shows "c = sum_list (map ucast bs)"
proof -
  have "try_fold (\<lambda>sum byte. ok_or AddU32Overflow (checked_add_u32 sum (ucast byte))) acc bs = Inr c \<Longrightarrow>
      c = acc + sum_list (map (ucast :: 8 word \<Rightarrow> u32) bs)" for acc
  proof (induction bs arbitrary: acc)
    case (Cons b bs)
    then have "c = (acc + ucast b) + sum_list (map ucast bs)" by (auto simp: result_simps checked_add_u32_def split: if_splits)
    then show ?case by (simp add: add.assoc)
  qed simp
  from this [of 0] show ?thesis using assms by (simp add: boot_checksum_def)
qed

lemma checksum_small:
  assumes "255 * length bs < 2 ^ 32"
  shows "\<exists>c. boot_checksum bs = Inr c"
proof -
  have "unat acc + 255 * length bs < 2 ^ 32 \<Longrightarrow>
      \<exists>c. try_fold (\<lambda>sum byte. ok_or AddU32Overflow (checked_add_u32 sum (ucast (byte :: 8 word)))) acc bs = Inr c" for acc :: u32
  proof (induction bs arbitrary: acc)
    case (Cons b bs)
    have b: "unat (ucast b :: u32) \<le> 255"
    proof -
      have "unat b < 2 ^ LENGTH(8)" by (rule unsigned_less)
      then show ?thesis by (simp add: unsigned_ucast_eq take_bit_nat_eq_self)
    qed
    have lt: "unat acc + unat (ucast b :: u32) < 2 ^ 32" using Cons.prems b by simp
    then have "unat (acc + ucast b) = unat acc + unat (ucast b :: u32)" by (simp add: unat_word_ariths)
    then have "unat (acc + ucast b) + 255 * length bs < 2 ^ 32" using Cons.prems b by simp
    then show ?case using Cons.IH lt by (simp add: checked_add_u32_def)
  qed simp
  from this [of 0] show ?thesis using assms by (simp add: boot_checksum_def)
qed

lemma aligned: "(n + (4 - n mod 4) mod 4) mod 4 = (0 :: nat)"
proof -
  consider "n mod 4 = 0" | "n mod 4 = 1" | "n mod 4 = 2" | "n mod 4 = 3" by linarith
  then show ?thesis
  proof cases
    case 1 then show ?thesis by simp
  next
    case 2 then have "(n + 3) mod 4 = 0" by presburger
    with 2 show ?thesis by simp
  next
    case 3 then have "(n + 2) mod 4 = 0" by presburger
    with 3 show ?thesis by simp
  next
    case 4 then have "(n + 1) mod 4 = 0" by presburger
    with 4 show ?thesis by simp
  qed
qed

lemma generate_initrd_loads:
  assumes "(generate_initrd bs :: 'e prairie_error + _) = Inr img"
  shows "\<exists>padding < 4. kernel_load img = Some (bs @ replicate padding 0) \<and> length img mod 4 = 0"
proof -
  define padding where "padding = (4 - (20 + length bs) mod 4) mod 4"
  obtain c where c: "(boot_checksum bs :: 'e prairie_error + _) = Inr c" and sz: "length bs + padding < 2 ^ 32"
    and img: "img = bs @ replicate padding 0 @ u32_le (word_of_nat (length bs + padding)) @ u32_le c @ into_bytes BOOTCONFIG_MAGIC"
    using assms by (auto simp: generate_initrd_def result_simps Let_def magic_bytes padding_def split: if_splits)
  let ?body = "bs @ replicate padding 0" and ?size = "u32_le (word_of_nat (length bs + padding))"
  have len: "length img = length ?body + 20" by (simp add: img magic_bytes)
  have parts: "take (length img - 20) img = ?body" "drop (length img - 20) img = ?size @ u32_le c @ into_bytes BOOTCONFIG_MAGIC"
    unfolding len by (simp_all add: img)
  have size: "unat (le_u32 ?size) = length ?body"
    using sz by (simp add: le_u32_u32_le unsigned_of_nat take_bit_nat_eq_self del: of_nat_add)
  have "sum_list (map (ucast :: 8 word \<Rightarrow> u32) ?body) = c"
    using checksum_sum [OF c] by (simp add: sum_list_replicate)
  then have "kernel_load img = Some ?body"
  proof -
    let ?trailer = "?size @ u32_le c @ into_bytes BOOTCONFIG_MAGIC"
    have "take 4 ?trailer = ?size" "take 4 (drop 4 ?trailer) = u32_le c" "drop 8 ?trailer = into_bytes BOOTCONFIG_MAGIC" by simp_all
    moreover have "\<not> length img < 20" using len by simp
    moreover assume "sum_list (map (ucast :: 8 word \<Rightarrow> u32) ?body) = c"
    ultimately show ?thesis
      unfolding kernel_load_def Let_def parts
      by (simp only: size [unfolded le_u32_u32_le] le_u32_u32_le simp_thms less_irrefl if_False if_True diff_self_eq_0 drop_0)
  qed
  moreover have "length img mod 4 = 0" using aligned [of "20 + length bs"] unfolding len padding_def by (simp add: ac_simps)
  moreover have "padding < 4" by (simp add: padding_def)
  ultimately show ?thesis by (intro exI [of _ padding]) simp
qed

lemma generate_initrd_succeeds:
  assumes "255 * length bs < 2 ^ 32"
  shows "\<exists>img. (generate_initrd bs :: 'e prairie_error + _) = Inr img"
proof -
  obtain c where "(boot_checksum bs :: 'e prairie_error + _) = Inr c" using checksum_small [OF assms] by blast
  moreover have "length bs + (4 - (20 + length bs) mod 4) mod 4 < 2 ^ 32" using assms by simp
  ultimately show ?thesis by (simp add: generate_initrd_def Let_def magic_bytes)
qed

section \<open>Properties\<close>

text \<open>The key and value types: dotted names, and printable ASCII.\<close>

definition name_char :: "char \<Rightarrow> bool" where
  "name_char c \<longleftrightarrow> (let n = of_char c :: nat in 48 \<le> n \<and> n \<le> 57 \<or> 65 \<le> n \<and> n \<le> 90 \<or> 97 \<le> n \<and> n \<le> 122 \<or> n \<in> {45, 46, 95})"

definition sample_types :: boot_types where
  "sample_types = \<lparr>key_ok = \<lambda>k. k \<noteq> [] \<and> list_all name_char k,
     value_ok = list_all (\<lambda>c. 32 \<le> (of_char c :: nat) \<and> of_char c < (127 :: nat))\<rparr>"

interpretation sample_keys: boot_keys sample_types
proof
  fix k p :: string
  assume k: "key_ok sample_types k"
  have "is_ascii c \<and> \<not> is_whitespace c \<and> c \<noteq> CHR ''=''" if "name_char c" for c
    using that by (auto simp: name_char_def is_ascii_def is_whitespace_def Let_def)
  then show "k \<noteq> [] \<and> list_all (\<lambda>c. is_ascii c \<and> \<not> is_whitespace c \<and> c \<noteq> CHR ''='') k"
    using k by (auto simp: sample_types_def list_all_iff)
  assume "p = ''kernel'' \<or> p = ''init''"
  then show "key_ok sample_types (p @ ''.'' @ k)" using k by (auto simp: sample_types_def name_char_def)
qed

definition sample_boot :: boot_settings where
  "sample_boot = \<lparr>reboot_to_reconcile = Some True,
     kernel_parameters = Some [(''console'', [''ttyS1,115200n8'', ''tty0'']), (''apic'', [])],
     init_parameters = Some [(''log'', [''a'' @ [CHR 0x22] @ ''b''])]\<rparr>"

lemma sample_boot_ok: "settings_ok sample_types sample_boot"
  by code_simp

text \<open>
  C6: the boot configuration is read back as it was written. For settings whose keys and values have
  the modelled types and whose values can be quoted, parsing the serialized text succeeds and gives the
  same kernel and init parameters, value lists in order, whatever commas, equal signs, quotes or number
  signs the values contain.
\<close>

theorem bootconfig_round_trip:
  assumes "boot_keys ty" "settings_ok ty s"
  shows "\<exists>s'. parse_boot_config_to_boot_settings ty (serialize_boot_settings_to_boot_config s) = Some (Inr s')
    \<and> params_view (kernel_parameters s') = params_view (kernel_parameters s)
    \<and> params_view (init_parameters s') = params_view (init_parameters s)"
  using boot_settings_round_trip [OF assms] by blast

theorem bootconfig_round_trip_witness:
  "\<exists>s'. (parse_boot_config_to_boot_settings sample_types (serialize_boot_settings_to_boot_config sample_boot)
        :: (string prairie_error + _) option) = Some (Inr s')
    \<and> params_view (kernel_parameters s') ''console'' = Some [''ttyS1,115200n8'', ''tty0'']"
proof -
  have "params_view (kernel_parameters sample_boot) ''console'' = Some [''ttyS1,115200n8'', ''tty0'']" by code_simp
  moreover have "\<exists>s'. (parse_boot_config_to_boot_settings sample_types (serialize_boot_settings_to_boot_config sample_boot)
        :: (string prairie_error + _) option) = Some (Inr s')
      \<and> params_view (kernel_parameters s') = params_view (kernel_parameters sample_boot)
      \<and> params_view (init_parameters s') = params_view (init_parameters sample_boot)"
    by (rule bootconfig_round_trip [OF sample_keys.boot_keys_axioms sample_boot_ok])
  ultimately show ?thesis by auto
qed

text \<open>
  C9: reading a boot configuration is total on ASCII text and well typed. The parser returns settings or
  an error, it never panics; settings it returns hold only keys and values of the modelled types, each
  key once, and no empty map.
\<close>

theorem bootconfig_parse_well_typed:
  assumes "list_all is_ascii text"
  shows "\<exists>r. parse_boot_config_to_boot_settings ty text = Some r \<and> (\<forall>s. r = Inr s \<longrightarrow> settings_typed ty s)"
  using parse_boot_config_returns [OF assms] .

theorem bootconfig_parse_well_typed_witness:
  "\<exists>s. (parse_boot_config_to_boot_settings sample_types ''kernel.a = b, c'' :: (string prairie_error + _) option) = Some (Inr s)
     \<and> settings_typed sample_types s"
proof -
  have "(case (parse_boot_config_to_boot_settings sample_types ''kernel.a = b, c'' :: (string prairie_error + _) option) of Some r \<Rightarrow> is_ok r | None \<Rightarrow> False) = True"
    by code_simp
  moreover have "list_all is_ascii ''kernel.a = b, c''" by code_simp
  ultimately show ?thesis
    using bootconfig_parse_well_typed [of "''kernel.a = b, c''" sample_types, where 'a = string] by (auto elim!: is_ok.elims split: option.splits)
qed

text \<open>Outside ASCII the index of a character is used as that of a byte, and the slice can panic.\<close>

lemma bootconfig_non_ascii_panics:
  "(parse_boot_config_values sample_types [CHR 0xE9, CHR '','', CHR ''x''] :: (string prairie_error + _) option) = None"
  by code_simp

text \<open>A key that only begins like \<open>kernel\<close> is taken for a kernel parameter without its seventh character.\<close>

lemma bootconfig_prefix_without_dot:
  "(parse_boot_config_to_boot_settings sample_types ''kernelxy = 1'' :: (string prairie_error + _) option) =
     Some (Inr \<lparr>reboot_to_reconcile = None, kernel_parameters = Some [(''y'', [''1''])], init_parameters = None\<rparr>)"
  by code_simp


definition sample_prairie :: "((nat list \<times> u64) list, string, string) prairie_env" where
  "sample_prairie = \<lparr>boot_ty = sample_types, boot_toml = \<lambda>_. Some (Some sample_boot), boot_json = \<lambda>_. Some ''{}'',
     unreadable = \<lambda>_. False, write_fails = \<lambda>_. False, remove_fails = \<lambda>_. False, run_process = \<lambda>_ _. Some True,
     mount_ok = \<lambda>_ _. True, private_ok = \<lambda>_. True, logger_free = True, is_x86_64 = True, part_lib = sample_lib,
     read_parts = sample_read sample_table\<rparr>"

definition sample_machine :: prairie_world where
  "sample_machine = \<lparr>pd_files = [''/proc/bootconfig'' \<mapsto> serialize_boot_settings_to_boot_config sample_boot, ''/etc/prairiedog.toml'' \<mapsto> []],
     pd_initrd = None, pd_ran = [], pd_mounted = [], pd_private = [], pd_out = []\<rparr>"




end
