(* ===== verification/Spec2Isabelle.thy ===== *)
theory Spec2Isabelle
  imports Datastore_Memory Datastore_Filesystem_Instance Signpost Update_Metadata Thar_Be_Updates Updog Prairiedog
begin

text \<open>
  A verification development of the Bottlerocket core kit.
\<close>

section \<open>Properties that span components\<close>

text \<open>
  C1: the two implementations of the \<open>DataStore\<close> trait have one contract. The memory store, and the
  file system store over any \<open>percent_encoding\<close> and \<open>walkdir\<close> with their documented behaviour, both
  satisfy the laws by which the methods the trait provides (\<open>set_keys\<close>, \<open>get_prefix\<close>,
  \<open>get_metadata\<close>, \<open>get_metadata_prefix\<close>) are verified once: what each primitive operation does to the
  abstract contents, that it keeps the store's invariant, and when it fails.
\<close>

theorem both_stores_implement_contract:
  assumes "fs_library lib"
  shows "data_store_laws (memory_data_store :: (memory_store, 'b) data_store) mem_inv mem_data mem_meta mem_lname mem_scope
    \<and> data_store_laws (fs_data_store lib (fs_store_new base) :: (fs, 'b) data_store)
        (fs_inv lib base) (fs_data lib base) (fs_meta lib base) (\<lambda>_ _. canonical_name) id"
  using mem_laws.data_store_laws_axioms fs_library.fs_implements [OF assms] by blast

theorem both_stores_implement_contract_witness:
  "data_store_laws (fs_data_store rfc_lib (fs_store_new ''ds'') :: (fs, nat) data_store)
     (fs_inv rfc_lib ''ds'') (fs_data rfc_lib ''ds'') (fs_meta rfc_lib ''ds'') (\<lambda>_ _. canonical_name) id"
  using both_stores_implement_contract [OF rfc.fs_library_axioms] by blast

end
